(* ===== verification/Prelude.thy ===== *)
theory Prelude
  imports Main "HOL-Library.Word" "HOL-Library.Monad_Syntax" "HOL-Library.Product_Lexorder"
begin

unbundle bit_operations_syntax

text \<open>
  Shared vocabulary of the development.

  Machine integers of the Rust sources are words of their width.  \<open>usize\<close> values (lengths,
  byte counts) are natural numbers, with the saturation of \<open>saturating_add\<close> written out.
  A Rust computation that may panic (a failed \<open>assert!\<close>, an arithmetic overflow, an index out
  of range) returns an option whose \<^const>\<open>None\<close> is the panic.

  The collection \<open>word_arith\<close> holds the rules that turn machine arithmetic into arithmetic on
  natural numbers.
\<close>

type_synonym u8 = "8 word"
type_synonym u16 = "16 word"
type_synonym u32 = "32 word"
type_synonym u64 = "64 word"
type_synonym i64 = "64 word"

type_synonym SlotId = u8
type_synonym SessionId = u64
type_synonym RelayId = u64

named_theorems word_arith \<open>machine arithmetic read as arithmetic on natural numbers\<close>

declare word_le_nat_alt [word_arith] word_less_nat_alt [word_arith]

section \<open>Panics\<close>

definition rust_assert :: "bool \<Rightarrow> unit option" where
  "rust_assert b = (if b then Some () else None)"

lemma rust_assert_simps [simp]:
  "rust_assert True = Some ()"
  "rust_assert False = None"
  by (simp_all add: rust_assert_def)

lemma rust_assert_eq_Some [simp]: "rust_assert b = Some u \<longleftrightarrow> b"
  by (simp add: rust_assert_def)

definition rust_index :: "'a list \<Rightarrow> nat \<Rightarrow> 'a option" where
  "rust_index xs i = (if i < length xs then Some (xs ! i) else None)"

definition rust_update :: "'a list \<Rightarrow> nat \<Rightarrow> 'a \<Rightarrow> 'a list option" where
  "rust_update xs i v = (if i < length xs then Some (xs[i := v]) else None)"

lemma rust_index_in [simp]: "i < length xs \<Longrightarrow> rust_index xs i = Some (xs ! i)"
  by (simp add: rust_index_def)

lemma rust_update_in [simp]: "i < length xs \<Longrightarrow> rust_update xs i v = Some (xs[i := v])"
  by (simp add: rust_update_def)

section \<open>Checked and saturating machine arithmetic\<close>

definition checked_add :: "'a::len word \<Rightarrow> 'a word \<Rightarrow> 'a word option" where
  "checked_add x y = (if x \<le> x + y then Some (x + y) else None)"

definition checked_sub :: "'a::len word \<Rightarrow> 'a word \<Rightarrow> 'a word option" where
  "checked_sub x y = (if y \<le> x then Some (x - y) else None)"

definition saturating_add :: "'a::len word \<Rightarrow> 'a word \<Rightarrow> 'a word" where
  "saturating_add x y = (if x \<le> x + y then x + y else - 1)"

definition saturating_sub :: "'a::len word \<Rightarrow> 'a word \<Rightarrow> 'a word" where
  "saturating_sub x y = (if y \<le> x then x - y else 0)"

definition usize_max :: nat where
  "usize_max = 2 ^ 64 - 1"

definition usize_saturating_add :: "nat \<Rightarrow> nat \<Rightarrow> nat" where
  "usize_saturating_add a b = min (a + b) usize_max"

lemma usize_saturating_add_code [code]:
  "usize_saturating_add a b = (let s = int a + int b in if s < 2 ^ 64 then nat s else usize_max)"
  by (auto simp: usize_saturating_add_def usize_max_def Let_def)

lemma le_add_word_iff:
  fixes x y :: "'a::len word"
  shows "x \<le> x + y \<longleftrightarrow> unat x + unat y < 2 ^ LENGTH('a)"
  using no_olen_add_nat by blast

lemma unat_less: "unat (x :: 'a::len word) < 2 ^ LENGTH('a)"
  by (rule unsigned_less)

lemma bit_word_unat: "bit w n \<longleftrightarrow> odd (unat w div 2 ^ n)" for w :: "'a::len word"
  unfolding bit_iff_odd [of "unat w" n, symmetric] by (simp add: bit_unsigned_iff)

lemma checked_add_Some:
  fixes x y z :: "'a::len word"
  shows "checked_add x y = Some z \<longleftrightarrow> unat z = unat x + unat y"
  unfolding checked_add_def le_add_word_iff
  by (auto simp: unat_word_ariths word_unat_eq_iff) (metis unat_less)

lemma checked_add_None:
  fixes x y :: "'a::len word"
  shows "checked_add x y = None \<longleftrightarrow> 2 ^ LENGTH('a) \<le> unat x + unat y"
  by (simp add: checked_add_def le_add_word_iff not_less)

lemma checked_sub_Some:
  "checked_sub x y = Some z \<longleftrightarrow> unat y \<le> unat x \<and> unat z = unat x - unat y"
  by (auto simp: checked_sub_def word_arith unat_sub word_unat_eq_iff)

lemma checked_sub_None: "checked_sub x y = None \<longleftrightarrow> unat x < unat y"
  by (auto simp: checked_sub_def word_arith)

lemma unat_saturating_add [word_arith]:
  fixes x y :: "'a::len word"
  shows "unat (saturating_add x y) = min (unat x + unat y) (2 ^ LENGTH('a) - 1)"
proof (cases "unat x + unat y < 2 ^ LENGTH('a)")
  case True
  then show ?thesis
    by (auto simp: saturating_add_def le_add_word_iff unat_word_ariths)
next
  case False
  then show ?thesis
    by (auto simp: saturating_add_def le_add_word_iff unsigned_minus_1_eq_mask mask_eq_exp_minus_1)
qed

lemma unat_saturating_sub [word_arith]: "unat (saturating_sub x y) = unat x - unat y"
  by (auto simp: saturating_sub_def word_arith unat_sub)

lemma checked_add_one_less:
  assumes "checked_add x 1 = Some y"
  shows "x < y" and "x < z \<longleftrightarrow> y \<le> z" and "z < y \<longleftrightarrow> z \<le> x"
  using assms by (auto simp: checked_add_Some word_arith)

lemma checked_add_one_closer:
  fixes n :: "'a::len word"
  assumes "checked_add n 1 = Some after"
  shows "2 ^ LENGTH('a) - unat after < 2 ^ LENGTH('a) - unat n"
  using assms unat_less [of n] unat_less [of after] by (simp add: checked_add_Some)

lemma checked_add_one_None:
  fixes x z :: "'a::len word"
  assumes "checked_add x 1 = None"
  shows "z \<le> x"
proof -
  have "unat z < 2 ^ LENGTH('a)"
    by (rule unat_less)
  also have "\<dots> \<le> unat x + 1"
    using assms by (simp add: checked_add_None)
  finally show ?thesis
    by (simp add: word_arith)
qed

lemma unat_not_max:
  fixes x :: "'a::len word"
  assumes "x \<noteq> - 1"
  shows "unat x + 1 < 2 ^ LENGTH('a)" and "unat (x + 1) = unat x + 1"
proof -
  have "unat x \<noteq> 2 ^ LENGTH('a) - 1"
    using assms by (auto simp: word_unat_eq_iff unsigned_minus_1_eq_mask mask_eq_exp_minus_1)
  then show less: "unat x + 1 < 2 ^ LENGTH('a)"
    using unat_less [of x] by linarith
  have "unat (1 :: 'a word) = 1"
    by simp
  with less show "unat (x + 1) = unat x + 1"
    by (simp add: unat_word_ariths)
qed

lemma checked_add_one: "checked_add x 1 = (if x = - 1 then None else Some (x + 1))"
  by (auto simp: checked_add_None checked_add_Some unat_not_max unsigned_minus_1_eq_mask
      mask_eq_exp_minus_1)

lemma unat_ucast_up:
  fixes w :: "'b::len word"
  assumes "LENGTH('b) \<le> LENGTH('a::len)"
  shows "unat (ucast w :: 'a word) = unat w"
proof -
  have "unat w < 2 ^ LENGTH('b)"
    by (rule unat_less)
  also have "\<dots> \<le> 2 ^ LENGTH('a)"
    using assms by simp
  finally show ?thesis
    by (simp add: unsigned_ucast_eq take_bit_nat_eq_self)
qed

lemma bit_or_push_bit_one:
  "bit (w OR push_bit m 1) n \<longleftrightarrow> bit w n \<or> n = m \<and> n < LENGTH('a)" for w :: "'a::len word"
  by (auto simp: bit_or_iff bit_exp_iff)

lemma bit_push_bit_word:
  "bit (push_bit m w) n \<longleftrightarrow> m \<le> n \<and> n < LENGTH('a) \<and> bit w (n - m)" for w :: "'a::len word"
  by (auto simp: bit_push_bit_iff)

end
