(* ===== verification/SeqPrefix.thy ===== *)
theory SeqPrefix
  imports Prelude
begin

text \<open>
  Two components keep the sequence numbers they have taken as a contiguous prefix and a sparse set
  above it: the transport's payload dedup and the relay's forward gate.
  This theory holds what they share: the loop that folds the run above the prefix into it, the set of
  numbers such a state stands for, and the invariant that the sparse numbers lie above the prefix.
  A \<open>BTreeSet<u64>\<close> is a finite set of words.

  The locale \<open>forward_once\<close> is the contract of such a gate: what it reports as new was not taken
  before, is taken afterwards, and nothing taken is ever forgotten.  Its client lemma is that no run
  of offers ever reports the same key twice.
\<close>

function absorb_from :: "u64 \<Rightarrow> u64 option \<Rightarrow> u64 set \<Rightarrow> u64 option \<times> u64 set" where
  "absorb_from n through ahead =
     (if n \<in> ahead then
        (case checked_add n 1 of
           None \<Rightarrow> (Some n, ahead - {n})
         | Some after \<Rightarrow> absorb_from after (Some n) (ahead - {n}))
      else (through, ahead))"
  by pat_completeness auto
termination
  by (relation "measure (\<lambda>(n, _, _). 2 ^ LENGTH(64) - unat n)")
    (simp_all only: in_measure case_prod_conv checked_add_one_closer wf_measure)

declare absorb_from.simps [simp del]

definition absorb_run :: "u64 option \<Rightarrow> u64 set \<Rightarrow> u64 option \<times> u64 set" where
  "absorb_run through ahead =
     (case through of
        None \<Rightarrow> absorb_from 0 None ahead
      | Some tp \<Rightarrow>
          (case checked_add tp 1 of
             None \<Rightarrow> (through, ahead)
           | Some n \<Rightarrow> absorb_from n through ahead))"

section \<open>The numbers a prefix stands for\<close>

definition in_prefix :: "u64 option \<Rightarrow> u64 \<Rightarrow> bool" where
  "in_prefix through s = (case through of None \<Rightarrow> False | Some tp \<Rightarrow> s \<le> tp)"

definition taken :: "u64 option \<Rightarrow> u64 set \<Rightarrow> u64 set" where
  "taken through ahead = {s. in_prefix through s} \<union> ahead"

definition prefix_inv :: "u64 option \<Rightarrow> u64 set \<Rightarrow> bool" where
  "prefix_inv through ahead \<longleftrightarrow> finite ahead \<and> (\<forall>a \<in> ahead. \<not> in_prefix through a)"

text \<open>The lowest number outside the prefix; absent when the prefix holds every number.\<close>

definition prefix_base :: "u64 option \<Rightarrow> u64 option" where
  "prefix_base through = (case through of None \<Rightarrow> Some 0 | Some tp \<Rightarrow> checked_add tp 1)"

definition prefix_tight :: "u64 option \<Rightarrow> u64 set \<Rightarrow> bool" where
  "prefix_tight through ahead \<longleftrightarrow> (\<forall>b. prefix_base through = Some b \<longrightarrow> b \<notin> ahead)"

lemma in_prefix_simps [simp]: "\<not> in_prefix None s" "in_prefix (Some tp) s \<longleftrightarrow> s \<le> tp"
  by (simp_all add: in_prefix_def)

lemma prefix_base_Some:
  assumes "prefix_base through = Some b"
  shows "in_prefix through s \<longleftrightarrow> s < b" and "in_prefix (Some b) s \<longleftrightarrow> in_prefix through s \<or> s = b"
proof -
  show "in_prefix through s \<longleftrightarrow> s < b"
    using assms checked_add_one_less(3) by (auto simp: prefix_base_def split: option.splits)
  then show "in_prefix (Some b) s \<longleftrightarrow> in_prefix through s \<or> s = b"
    by (auto simp: le_less)
qed

lemma prefix_base_None: "prefix_base through = None \<Longrightarrow> in_prefix through s"
  using checked_add_one_None by (auto simp: prefix_base_def split: option.splits)

lemma prefix_base_not_in_prefix: "prefix_base through = Some b \<Longrightarrow> \<not> in_prefix through b"
  by (simp add: prefix_base_Some(1))

lemma absorb_run_base:
  "absorb_run through ahead =
     (case prefix_base through of None \<Rightarrow> (through, ahead) | Some b \<Rightarrow> absorb_from b through ahead)"
  by (simp add: absorb_run_def prefix_base_def split: option.split)

lemma absorb_from_spec:
  assumes "prefix_base through = Some n" and "prefix_inv through ahead"
    and "absorb_from n through ahead = (through', ahead')"
  shows "taken through' ahead' = taken through ahead \<and> prefix_inv through' ahead' \<and>
    prefix_tight through' ahead' \<and> ahead' \<subseteq> ahead \<and>
    (\<forall>s. in_prefix through s \<longrightarrow> in_prefix through' s)"
  using assms
proof (induction n through ahead arbitrary: through' ahead' rule: absorb_from.induct)
  case (1 n through ahead)
  show ?case
  proof (cases "n \<in> ahead")
    case False
    then show ?thesis
      using 1(2-4) by (auto simp: absorb_from.simps [of n] prefix_tight_def)
  next
    case True
    have step: "taken (Some n) (ahead - {n}) = taken through ahead"
      "prefix_inv (Some n) (ahead - {n})" "\<And>s. in_prefix through s \<Longrightarrow> s \<le> n"
      using 1(3) True prefix_base_Some [OF 1(2)] by (auto simp: taken_def prefix_inv_def)
    show ?thesis
    proof (cases "checked_add n 1")
      case None
      then have "through' = Some n" "ahead' = ahead - {n}"
        using 1(4) True by (simp_all add: absorb_from.simps [of n])
      then show ?thesis
        using step None by (auto simp: prefix_tight_def prefix_base_def)
    next
      case (Some after)
      then have "absorb_from after (Some n) (ahead - {n}) = (through', ahead')"
        using 1(4) True by (simp add: absorb_from.simps [of n])
      then show ?thesis
        using 1(1) [OF True Some, of through' ahead'] step Some
        by (auto simp: prefix_base_def)
    qed
  qed
qed

lemma absorb_run_spec:
  assumes "prefix_inv through ahead" and "absorb_run through ahead = (through', ahead')"
  shows "taken through' ahead' = taken through ahead" and "prefix_inv through' ahead'"
    and "prefix_tight through' ahead'" and "ahead' \<subseteq> ahead"
    and "in_prefix through s \<Longrightarrow> in_prefix through' s"
  using assms absorb_from_spec [of through _ ahead through' ahead']
  by (auto simp: absorb_run_base prefix_tight_def split: option.splits)

lemma taken_base_step:
  assumes "prefix_base through = Some b" and "prefix_inv through ahead"
  shows "taken (Some b) (ahead - {b}) = insert b (taken through ahead)"
    and "prefix_tight through ahead \<Longrightarrow> prefix_inv (Some b) ahead"
    and "prefix_tight through ahead \<Longrightarrow> taken (Some b) ahead = insert b (taken through ahead)"
  using assms prefix_base_Some(2) [OF assms(1)]
  by (auto simp: taken_def prefix_inv_def prefix_tight_def)

lemma taken_insert: "taken through (insert s ahead) = insert s (taken through ahead)"
  by (auto simp: taken_def)

lemma prefix_inv_insert:
  "prefix_inv through ahead \<Longrightarrow> \<not> in_prefix through s \<Longrightarrow> prefix_inv through (insert s ahead)"
  by (simp add: prefix_inv_def)

text \<open>The sparse numbers lie within a window above the prefix.\<close>

definition prefix_window :: "nat \<Rightarrow> u64 option \<Rightarrow> u64 set \<Rightarrow> bool" where
  "prefix_window w through ahead \<longleftrightarrow>
     (\<forall>b. prefix_base through = Some b \<longrightarrow> (\<forall>a \<in> ahead. unat a < unat b + w))"

lemma prefix_base_mono:
  assumes "\<And>s. in_prefix through s \<Longrightarrow> in_prefix through' s"
    and "prefix_base through = Some b" and "prefix_base through' = Some b'"
  shows "b \<le> b'"
  using assms prefix_base_Some(1) [OF assms(2)] prefix_base_not_in_prefix [OF assms(3)]
  by (meson not_le)

lemma prefix_base_exists: "\<not> in_prefix through s \<Longrightarrow> \<exists>b. prefix_base through = Some b \<and> b \<le> s"
  using prefix_base_None [of through s] prefix_base_Some(1) [of through]
  by (cases "prefix_base through") (auto simp: not_less)

lemma prefix_window_grow:
  assumes "prefix_window w through ahead" and "ahead' \<subseteq> ahead"
    and "\<And>s. in_prefix through s \<Longrightarrow> in_prefix through' s"
  shows "prefix_window w through' ahead'"
  unfolding prefix_window_def
proof (intro allI impI ballI)
  fix b' a
  assume b': "prefix_base through' = Some b'" and a: "a \<in> ahead'"
  have "\<not> in_prefix through b'"
    using assms(3) prefix_base_not_in_prefix [OF b'] by blast
  then obtain b where b: "prefix_base through = Some b" "b \<le> b'"
    using prefix_base_exists by blast
  then have "unat a < unat b + w"
    using assms(1,2) a by (auto simp: prefix_window_def)
  also have "\<dots> \<le> unat b' + w"
    using b(2) by (simp add: word_arith)
  finally show "unat a < unat b' + w" .
qed

text \<open>The base is the lowest number not taken, so the taken numbers determine the prefix.\<close>

lemma prefix_base_least:
  assumes "prefix_inv through ahead" and "prefix_tight through ahead"
  shows "prefix_base through = Some b \<longleftrightarrow> b \<notin> taken through ahead \<and> (\<forall>x < b. x \<in> taken through ahead)"
proof
  assume "prefix_base through = Some b"
  then show "b \<notin> taken through ahead \<and> (\<forall>x < b. x \<in> taken through ahead)"
    using assms(2) prefix_base_not_in_prefix [of through b] prefix_base_Some(1) [of through b]
    by (auto simp: taken_def prefix_tight_def)
next
  assume b: "b \<notin> taken through ahead \<and> (\<forall>x < b. x \<in> taken through ahead)"
  then have "\<not> in_prefix through b"
    by (simp add: taken_def)
  then obtain c where c: "prefix_base through = Some c" "c \<le> b"
    using prefix_base_exists by blast
  moreover have "c \<notin> taken through ahead"
    using assms(2) c(1) prefix_base_not_in_prefix by (auto simp: taken_def prefix_tight_def)
  ultimately show "prefix_base through = Some b"
    using b by (auto simp: le_less)
qed

lemma prefix_base_inj:
  assumes "prefix_base t = Some b" and "prefix_base t' = Some b"
  shows "t = t'"
proof -
  have "in_prefix t x \<longleftrightarrow> in_prefix t' x" for x
    using prefix_base_Some(1) [OF assms(1)] prefix_base_Some(1) [OF assms(2)] by simp
  then show ?thesis
    by (metis in_prefix_simps option.exhaust order.antisym order_refl)
qed

section \<open>Gates that let a key through once\<close>

primrec offer_run :: "('s \<Rightarrow> 'k \<Rightarrow> bool \<times> 's) \<Rightarrow> 's \<Rightarrow> 'k list \<Rightarrow> 'k list \<times> 's" where
  "offer_run offer s [] = ([], s)"
| "offer_run offer s (k # ks) =
     (let (new, s') = offer s k; (ds, s'') = offer_run offer s' ks
      in (if new then k # ds else ds, s''))"

locale forward_once =
  fixes offer :: "'s \<Rightarrow> 'k \<Rightarrow> bool \<times> 's"
    and seen :: "'s \<Rightarrow> 'k set"
    and inv :: "'s \<Rightarrow> bool"
  assumes inv_offer: "inv s \<Longrightarrow> offer s k = (new, s') \<Longrightarrow> inv s'"
    and new_unseen: "inv s \<Longrightarrow> offer s k = (True, s') \<Longrightarrow> k \<notin> seen s"
    and new_seen: "inv s \<Longrightarrow> offer s k = (True, s') \<Longrightarrow> k \<in> seen s'"
    and seen_mono: "inv s \<Longrightarrow> offer s k = (new, s') \<Longrightarrow> seen s \<subseteq> seen s'"
begin

lemma run_once:
  "inv s \<Longrightarrow> offer_run offer s ks = (ds, s') \<Longrightarrow>
    distinct ds \<and> set ds \<inter> seen s = {} \<and> set ds \<subseteq> set ks \<and> seen s \<union> set ds \<subseteq> seen s' \<and> inv s'"
proof (induction ks arbitrary: s ds)
  case (Cons k ks)
  obtain new s1 where step: "offer s k = (new, s1)"
    by force
  obtain es where rest: "offer_run offer s1 ks = (es, s')"
    and ds: "ds = (if new then k # es else es)"
    using Cons.prems(2) step by (auto simp: Let_def split: prod.splits if_splits)
  have "distinct es \<and> set es \<inter> seen s1 = {} \<and> set es \<subseteq> set ks \<and> seen s1 \<union> set es \<subseteq> seen s' \<and> inv s'"
    using Cons.IH [OF inv_offer [OF Cons.prems(1) step] rest] .
  moreover have "seen s \<subseteq> seen s1"
    by (rule seen_mono [OF Cons.prems(1) step])
  moreover have "k \<notin> seen s \<and> k \<in> seen s1" if new
    using new_unseen [of s k s1] new_seen [of s k s1] Cons.prems(1) step that by simp
  ultimately show ?case
    unfolding ds by auto
qed simp

end

text \<open>A lossless gate takes exactly what it is offered, as long as it accepts the key at all.\<close>

locale lossless_once = forward_once +
  fixes accepts :: "'s \<Rightarrow> 'k \<Rightarrow> bool"
  assumes accepts_new: "inv s \<Longrightarrow> accepts s k \<Longrightarrow> k \<notin> seen s \<Longrightarrow> fst (offer s k)"
    and seen_exact: "inv s \<Longrightarrow> offer s k = (new, s') \<Longrightarrow> seen s' = (if new then insert k (seen s) else seen s)"
begin

lemma run_exact:
  "inv s \<Longrightarrow> offer_run offer s ks = (ds, s') \<Longrightarrow> seen s' = seen s \<union> set ds"
proof (induction ks arbitrary: s ds)
  case (Cons k ks)
  obtain new s1 where step: "offer s k = (new, s1)"
    by force
  obtain es where rest: "offer_run offer s1 ks = (es, s')"
    and ds: "ds = (if new then k # es else es)"
    using Cons.prems(2) step by (auto simp: Let_def split: prod.splits if_splits)
  show ?case
    using Cons.IH [OF inv_offer [OF Cons.prems(1) step] rest] seen_exact [OF Cons.prems(1) step]
    unfolding ds by auto
qed simp

end

end
