(* ===== verification/Wire.thy ===== *)
theory Wire
  imports Prelude
begin

text \<open>
  The datagram messages of \<open>proto/proto/wire.proto\<close> that the transport, the relay's validator and the
  client's trackers exchange.  The length functions prost generates for them are not part of the
  repository: they are the fields of a \<open>codec\<close> that the sizing code takes as an argument, and
  \<open>codec_ok\<close> states what that code relies on, the additive proto3 layout of a packet (a header and
  one tagged, length-prefixed element per payload) and that the header of all-maximal fields is the
  widest one.
\<close>

record StateHashReport =
  sh_step :: u64
  sh_hash :: u64

record BufferDirective =
  bd_buffer_turns :: u32
  bd_apply_at_frame :: u32
  bd_decision_seq :: u32
  bd_authority_relay_id :: "u64 option"

record LeaveDirective =
  ld_slot :: u32
  ld_reason :: u32
  ld_apply_at_frame :: u32
  ld_leave_seq :: u32
  ld_final_turn_count :: "u64 option"
  ld_finalized :: bool

record Payload =
  p_seq :: u64
  p_slot :: u32
  p_commands :: "u8 list"
  p_game_frame_count :: "u32 option"
  p_sync_generation :: "u64 option"
  p_buffer_directive :: "BufferDirective option"
  p_state_hash :: "StateHashReport option"

record Packet =
  pk_seq :: u32
  pk_ack :: "u32 option"
  pk_ack_bits :: u32
  pk_payloads :: "Payload list"
  pk_turns_complete :: "u64 option"

text \<open>\<open>u8::try_from\<close> on the wire slot.\<close>

definition slot_try_from :: "u32 \<Rightarrow> SlotId option" where
  "slot_try_from s = (if s < 256 then Some (ucast s) else None)"

lemma slot_try_from_inj:
  "slot_try_from a = Some x \<Longrightarrow> slot_try_from b = Some x \<Longrightarrow> a = b"
proof (auto simp: slot_try_from_def split: if_splits)
  assume "a < 256" "b < 256" and eq: "(ucast b :: u8) = ucast a"
  then have "unat a < 2 ^ 8" "unat b < 2 ^ 8"
    by (simp_all add: word_arith)
  moreover have "unat (ucast a :: u8) = unat a mod 2 ^ 8" "unat (ucast b :: u8) = unat b mod 2 ^ 8"
    by (simp_all add: unsigned_ucast_eq take_bit_eq_mod)
  ultimately show "a = b"
    using eq by (simp add: word_unat_eq_iff)
qed

lemma slot_try_from_ucast [simp]: "slot_try_from (ucast slot) = Some slot"
  using uint_lt2p [of slot] by (simp add: slot_try_from_def ucast_up_ucast_id is_up word_less_def uint_up_ucast)

lemma slot_try_from_Some: "slot_try_from s = Some slot \<longleftrightarrow> s = ucast slot"
  using slot_try_from_inj [of s slot "ucast slot"] by auto

definition payload_key :: "Payload \<Rightarrow> (SlotId \<times> u64) option" where
  "payload_key p = map_option (\<lambda>s. (s, p_seq p)) (slot_try_from (p_slot p))"

section \<open>Encoded lengths\<close>

record codec =
  c_payload_len :: "Payload \<Rightarrow> nat"
  c_packet_len :: "Packet \<Rightarrow> nat"
  c_varint_len :: "u64 \<Rightarrow> nat"

definition payload_element_len :: "codec \<Rightarrow> nat \<Rightarrow> nat" where
  "payload_element_len c n = 1 + c_varint_len c (of_nat n) + n"

definition element_len :: "codec \<Rightarrow> Payload \<Rightarrow> nat" where
  "element_len c p = payload_element_len c (c_payload_len c p)"

definition widest_header :: Packet where
  "widest_header = \<lparr>pk_seq = - 1, pk_ack = Some (- 1), pk_ack_bits = - 1, pk_payloads = [],
                    pk_turns_complete = Some (- 1)\<rparr>"

definition lone_packet_len :: "codec \<Rightarrow> Payload \<Rightarrow> nat" where
  "lone_packet_len c p =
     c_packet_len c widest_header + payload_element_len c (c_payload_len c p)"

definition GUARANTEED_DATAGRAM_BUDGET :: nat where
  "GUARANTEED_DATAGRAM_BUDGET = 1024"

definition fits_guaranteed_datagram :: "codec \<Rightarrow> Payload \<Rightarrow> bool" where
  "fits_guaranteed_datagram c p = (lone_packet_len c p \<le> GUARANTEED_DATAGRAM_BUDGET)"

definition codec_ok :: "codec \<Rightarrow> bool" where
  "codec_ok c \<longleftrightarrow>
     (\<forall>pk. c_packet_len c pk =
        c_packet_len c (pk\<lparr>pk_payloads := []\<rparr>) + sum_list (map (element_len c) (pk_payloads pk))) \<and>
     (\<forall>pk. pk_payloads pk = [] \<longrightarrow> c_packet_len c pk \<le> c_packet_len c widest_header)"

lemma codec_okD:
  assumes "codec_ok c"
  shows "c_packet_len c pk =
      c_packet_len c (pk\<lparr>pk_payloads := []\<rparr>) + sum_list (map (element_len c) (pk_payloads pk))"
    and "pk_payloads pk = [] \<Longrightarrow> c_packet_len c pk \<le> c_packet_len c widest_header"
  using assms unfolding codec_ok_def by blast+

text \<open>A concrete proto3 length function, to instantiate the codec with: fields of value zero and
  absent optional fields take no bytes, a varint takes one byte per started group of seven bits.\<close>

fun varint_bytes :: "nat \<Rightarrow> nat" where
  "varint_bytes n = (if n < 128 then 1 else 1 + varint_bytes (n div 128))"

declare varint_bytes.simps [simp del]

definition opt_len :: "('a \<Rightarrow> nat) \<Rightarrow> 'a option \<Rightarrow> nat" where
  "opt_len f x = (case x of None \<Rightarrow> 0 | Some v \<Rightarrow> 1 + f v)"

definition implicit_len :: "'a::len word \<Rightarrow> nat" where
  "implicit_len w = (if w = 0 then 0 else 1 + varint_bytes (unat w))"

definition proto3_directive_len :: "BufferDirective \<Rightarrow> nat" where
  "proto3_directive_len d =
     implicit_len (bd_buffer_turns d) + implicit_len (bd_apply_at_frame d) +
     implicit_len (bd_decision_seq d) +
     opt_len (\<lambda>r. varint_bytes (unat r)) (bd_authority_relay_id d)"

definition proto3_hash_len :: "StateHashReport \<Rightarrow> nat" where
  "proto3_hash_len h = implicit_len (sh_step h) + (if sh_hash h = 0 then 0 else 9)"

definition proto3_payload_len :: "Payload \<Rightarrow> nat" where
  "proto3_payload_len p =
     implicit_len (p_seq p) + implicit_len (p_slot p) +
     (if p_commands p = [] then 0
      else 1 + varint_bytes (length (p_commands p)) + length (p_commands p)) +
     opt_len (\<lambda>f. varint_bytes (unat f)) (p_game_frame_count p) +
     opt_len (\<lambda>g. varint_bytes (unat g)) (p_sync_generation p) +
     opt_len (\<lambda>d. varint_bytes (proto3_directive_len d) + proto3_directive_len d)
       (p_buffer_directive p) +
     opt_len (\<lambda>h. varint_bytes (proto3_hash_len h) + proto3_hash_len h) (p_state_hash p)"

definition proto3_header_len :: "Packet \<Rightarrow> nat" where
  "proto3_header_len pk =
     implicit_len (pk_seq pk) + opt_len (\<lambda>a. varint_bytes (unat a)) (pk_ack pk) +
     (if pk_ack_bits pk = 0 then 0 else 5) + opt_len (\<lambda>t. varint_bytes (unat t)) (pk_turns_complete pk)"

definition proto3_codec :: codec where
  "proto3_codec =
     \<lparr>c_payload_len = proto3_payload_len,
      c_packet_len = (\<lambda>pk. proto3_header_len pk + sum_list (map (\<lambda>p.
        1 + varint_bytes (unat (of_nat (proto3_payload_len p) :: u64)) + proto3_payload_len p)
        (pk_payloads pk))),
      c_varint_len = (\<lambda>n. varint_bytes (unat n))\<rparr>"

lemma varint_bytes_mono: "m \<le> n \<Longrightarrow> varint_bytes m \<le> varint_bytes n"
proof (induction n arbitrary: m rule: varint_bytes.induct)
  case (1 n)
  then show ?case
    using 1(1) [of "m div 128"] div_le_mono [OF 1(2), of 128]
    by (simp add: varint_bytes.simps [of n] varint_bytes.simps [of m])
qed

lemma varint_bytes_unat_mono:
  fixes w :: "'a::len word"
  shows "varint_bytes (unat w) \<le> varint_bytes (unat (- 1 :: 'a word))"
  by (intro varint_bytes_mono) (simp add: word_arith [symmetric])

lemma implicit_len_mono:
  fixes w :: "'a::len word"
  shows "implicit_len w \<le> implicit_len (- 1 :: 'a word)"
  using varint_bytes_unat_mono [of w] by (simp add: implicit_len_def)

lemma opt_varint_mono:
  fixes x :: "'a::len word option"
  shows "opt_len (\<lambda>a. varint_bytes (unat a)) x \<le>
    opt_len (\<lambda>a. varint_bytes (unat a)) (Some (- 1 :: 'a word))"
  by (auto simp: opt_len_def varint_bytes_unat_mono split: option.split)

lemma proto3_header_len_widest: "proto3_header_len pk \<le> proto3_header_len widest_header"
  unfolding proto3_header_len_def widest_header_def Packet.simps
  by (intro add_mono implicit_len_mono opt_varint_mono) auto

lemma proto3_codec_ok: "codec_ok proto3_codec"
proof -
  have "proto3_header_len (pk\<lparr>pk_payloads := []\<rparr>) = proto3_header_len pk" for pk
    by (simp add: proto3_header_len_def)
  moreover have "pk_payloads widest_header = []"
    by (simp add: widest_header_def)
  moreover have "element_len proto3_codec =
      (\<lambda>p. 1 + varint_bytes (unat (of_nat (proto3_payload_len p) :: u64)) + proto3_payload_len p)"
    by (rule ext) (simp add: element_len_def payload_element_len_def proto3_codec_def)
  ultimately show ?thesis
    using proto3_header_len_widest by (simp add: codec_ok_def proto3_codec_def)
qed

lemma proto3_widest_header: "c_packet_len proto3_codec widest_header = 28"
  by (simp add: proto3_codec_def proto3_header_len_def widest_header_def implicit_len_def opt_len_def
      unsigned_minus_1_eq_mask mask_eq_exp_minus_1 varint_bytes.simps)

end
