(* ===== verification/OrderedMap.thy ===== *)
theory OrderedMap
  imports Prelude
begin

text \<open>
  The standard library's \<open>BTreeMap\<close> as an association list with strictly increasing keys: iteration
  is the list, \<open>get\<close> is \<^const>\<open>map_of\<close>.
\<close>

definition bm_wf :: "('k::linorder \<times> 'v) list \<Rightarrow> bool" where
  "bm_wf m \<longleftrightarrow> sorted_wrt (<) (map fst m)"

fun bm_insert :: "'k::linorder \<Rightarrow> 'v \<Rightarrow> ('k \<times> 'v) list \<Rightarrow> ('k \<times> 'v) list" where
  "bm_insert k v [] = [(k, v)]"
| "bm_insert k v ((k', v') # m) =
     (if k < k' then (k, v) # (k', v') # m
      else if k = k' then (k, v) # m
      else (k', v') # bm_insert k v m)"

definition bm_remove :: "'k \<Rightarrow> ('k \<times> 'v) list \<Rightarrow> ('k \<times> 'v) list" where
  "bm_remove k m = filter (\<lambda>(k', _). k' \<noteq> k) m"

definition bm_update :: "'k \<Rightarrow> ('v \<Rightarrow> 'v) \<Rightarrow> ('k \<times> 'v) list \<Rightarrow> ('k \<times> 'v) list" where
  "bm_update k f m = map (\<lambda>(k', v). (k', if k' = k then f v else v)) m"

definition bm_values :: "('k \<times> 'v) list \<Rightarrow> 'v list" where
  "bm_values m = map snd m"

lemma bm_wf_Nil [simp]: "bm_wf []"
  by (simp add: bm_wf_def)

lemma bm_wf_Cons: "bm_wf (kv # m) \<longleftrightarrow> (\<forall>x \<in> set m. fst kv < fst x) \<and> bm_wf m"
  by (auto simp: bm_wf_def)

lemma bm_wf_distinct: "bm_wf m \<Longrightarrow> distinct (map fst m)"
  by (induction m) (auto simp: bm_wf_Cons)

lemma bm_wf_filter [intro]: "bm_wf m \<Longrightarrow> bm_wf (filter P m)"
  by (induction m) (auto simp: bm_wf_Cons)

lemma bm_wf_remove [intro]: "bm_wf m \<Longrightarrow> bm_wf (bm_remove k m)"
  by (auto simp: bm_remove_def)

lemma map_fst_bm_update [simp]: "map fst (bm_update k f m) = map fst m"
  by (simp add: bm_update_def comp_def case_prod_beta)

lemma bm_wf_update [simp]: "bm_wf (bm_update k f m) \<longleftrightarrow> bm_wf m"
  by (simp add: bm_wf_def)

lemma set_bm_insert_subset: "set (bm_insert k v m) \<subseteq> insert (k, v) (set m)"
  by (induction m rule: bm_insert.induct) auto

lemma bm_wf_insert [intro]: "bm_wf m \<Longrightarrow> bm_wf (bm_insert k v m)"
proof (induction k v m rule: bm_insert.induct)
  case (2 k v k' v' m)
  then show ?case
    using set_bm_insert_subset [of k v m] by (force simp: bm_wf_Cons)
qed (simp add: bm_wf_Cons)

lemma map_of_bm_insert [simp]: "bm_wf m \<Longrightarrow> map_of (bm_insert k v m) = (map_of m)(k \<mapsto> v)"
  by (induction k v m rule: bm_insert.induct) (auto simp: bm_wf_Cons fun_eq_iff)

lemma map_of_bm_remove [simp]: "map_of (bm_remove k m) = (map_of m)(k := None)"
  by (induction m) (auto simp: bm_remove_def fun_eq_iff)

lemma map_of_bm_update:
  "map_of (bm_update k f m) k' = (if k' = k then map_option f (map_of m k) else map_of m k')"
  by (induction m) (auto simp: bm_update_def)

lemma bm_mem_iff: "bm_wf m \<Longrightarrow> (k, v) \<in> set m \<longleftrightarrow> map_of m k = Some v"
  by (simp add: bm_wf_distinct)

lemma set_bm_insert:
  assumes "bm_wf m"
  shows "set (bm_insert k v m) = insert (k, v) {x \<in> set m. fst x \<noteq> k}"
proof (rule set_eqI, clarify)
  fix a b
  show "(a, b) \<in> set (bm_insert k v m) \<longleftrightarrow> (a, b) \<in> insert (k, v) {x \<in> set m. fst x \<noteq> k}"
    using assms by (auto simp: bm_mem_iff bm_wf_insert)
qed

lemma keys_bm_insert [simp]: "fst ` set (bm_insert k v m) = insert k (fst ` set m)"
  by (induction k v m rule: bm_insert.induct) auto

lemma length_bm_insert:
  "bm_wf m \<Longrightarrow> length (bm_insert k v m) = (if map_of m k = None then Suc (length m) else length m)"
proof (induction k v m rule: bm_insert.induct)
  case (2 k v k' v' m)
  have "map_of m k = None" if "k < k'"
    using 2 that by (force simp: bm_wf_Cons map_of_eq_None_iff)
  with 2 show ?case
    by (auto simp: bm_wf_Cons)
qed simp

section \<open>Sums over the values\<close>

definition bm_sum :: "('v \<Rightarrow> nat) \<Rightarrow> ('k \<times> 'v) list \<Rightarrow> nat" where
  "bm_sum f m = sum_list (map f (bm_values m))"

lemma bm_sum_simps [simp]:
  "bm_sum f [] = 0" "bm_sum f ((k, v) # m) = f v + bm_sum f m"
  by (simp_all add: bm_sum_def bm_values_def)

lemma bm_sum_insert_new: "map_of m k = None \<Longrightarrow> bm_sum f (bm_insert k v m) = f v + bm_sum f m"
  by (induction k v m rule: bm_insert.induct) (auto split: if_splits)

lemma bm_sum_insert_replace:
  "bm_wf m \<Longrightarrow> map_of m k = Some old \<Longrightarrow> bm_sum f (bm_insert k v m) + f old = f v + bm_sum f m"
proof (induction k v m rule: bm_insert.induct)
  case (2 k v k' v' m)
  have "k' < k" if "k \<noteq> k'"
    using 2 that by (force simp: bm_wf_Cons dest!: map_of_SomeD)
  with 2 show ?case
    by (auto simp: bm_wf_Cons)
qed simp

lemma bm_remove_absent: "map_of m k = None \<Longrightarrow> bm_remove k m = m"
  by (auto simp: bm_remove_def map_of_eq_None_iff filter_id_conv image_iff)

lemma bm_sum_remove:
  "bm_wf m \<Longrightarrow> map_of m k = Some v \<Longrightarrow> bm_sum f (bm_remove k m) + f v = bm_sum f m"
proof (induction m)
  case (Cons kv m)
  show ?case
  proof (cases "fst kv = k")
    case True
    then have "map_of m k = None"
      using Cons.prems(1) by (force simp: bm_wf_Cons map_of_eq_None_iff)
    with True Cons.prems show ?thesis
      using bm_remove_absent [of m k] by (cases kv) (auto simp: bm_remove_def)
  next
    case False
    with Cons show ?thesis
      by (cases kv) (auto simp: bm_remove_def bm_wf_Cons)
  qed
qed simp

lemma bm_sum_filter_le: "bm_sum f (filter P m) \<le> bm_sum f m"
  by (induction m) (auto simp: bm_sum_def bm_values_def)

lemma bm_sum_member: "(k, v) \<in> set m \<Longrightarrow> f v \<le> bm_sum f m"
  by (induction m) (auto simp: bm_sum_def bm_values_def)

lemma bm_sum_update:
  "(\<And>v. f (g v) = f v) \<Longrightarrow> bm_sum f (bm_update k g m) = bm_sum f m"
  by (induction m) (auto simp: bm_sum_def bm_values_def bm_update_def)

end
