(* ===== verification/SequenceBuffer.thy ===== *)
theory SequenceBuffer
  imports Prelude
begin

text \<open>
  The ring buffer of \<open>transport/src/sequence_buffer.rs\<close>, which the packet-ack machinery keeps its
  sent packets in.  The element type's \<open>Default::default()\<close> is the argument \<open>dflt\<close>.  An \<open>i64\<close>
  entry sequence is the 64-bit pattern itself, so the cast \<open>sequence as i64\<close> is the identity and
  the empty marker \<open>-1\<close> is the all-ones word.  A returned \<open>&mut T\<close> is the index it points at.

  The abstraction of a buffer is the partial map \<open>sb_lookup\<close>; \<open>sb_wf\<close> is the representation
  invariant.  The lemmas show that no operation panics on a well-formed buffer and sequence numbers
  below \<open>2 ^ 63 - 1\<close>, and what each operation does to the map.
\<close>

definition SIGN_BIT :: u64 where
  "SIGN_BIT = 0x8000000000000000"

record 'a SequenceBuffer =
  sb_entries :: "'a list"
  sb_entry_sequences :: "i64 list"
  sb_sequence :: u64

definition SequenceBuffer_with_capacity :: "'a \<Rightarrow> nat \<Rightarrow> 'a SequenceBuffer" where
  "SequenceBuffer_with_capacity dflt cap =
     \<lparr>sb_entries = replicate cap dflt, sb_entry_sequences = replicate cap (- 1), sb_sequence = 0\<rparr>"

definition SequenceBuffer_index :: "'a SequenceBuffer \<Rightarrow> u64 \<Rightarrow> nat option" where
  "SequenceBuffer_index b s = do {
     rust_assert (s AND SIGN_BIT = 0);
     rust_assert (sb_entries b \<noteq> []);
     Some (unat (s mod of_nat (length (sb_entries b))))
   }"

definition SequenceBuffer_exists :: "'a SequenceBuffer \<Rightarrow> u64 \<Rightarrow> bool option" where
  "SequenceBuffer_exists b s = do {
     i \<leftarrow> SequenceBuffer_index b s;
     e \<leftarrow> rust_index (sb_entry_sequences b) i;
     Some (e = s)
   }"

definition SequenceBuffer_get :: "'a SequenceBuffer \<Rightarrow> u64 \<Rightarrow> 'a option option" where
  "SequenceBuffer_get b s = do {
     i \<leftarrow> SequenceBuffer_index b s;
     e \<leftarrow> rust_index (sb_entry_sequences b) i;
     if e = s then do { v \<leftarrow> rust_index (sb_entries b) i; Some (Some v) } else Some None
   }"

definition SequenceBuffer_get_mut :: "'a SequenceBuffer \<Rightarrow> u64 \<Rightarrow> nat option option" where
  "SequenceBuffer_get_mut b s = do {
     i \<leftarrow> SequenceBuffer_index b s;
     e \<leftarrow> rust_index (sb_entry_sequences b) i;
     if e = s then do { _ \<leftarrow> rust_index (sb_entries b) i; Some (Some i) } else Some None
   }"

definition SequenceBuffer_remove ::
    "'a \<Rightarrow> 'a SequenceBuffer \<Rightarrow> u64 \<Rightarrow> ('a option \<times> 'a SequenceBuffer) option" where
  "SequenceBuffer_remove dflt b s = do {
     rust_assert (s AND SIGN_BIT = 0);
     i \<leftarrow> SequenceBuffer_index b s;
     e \<leftarrow> rust_index (sb_entry_sequences b) i;
     if e = s then do {
       v \<leftarrow> rust_index (sb_entries b) i;
       es \<leftarrow> rust_update (sb_entries b) i dflt;
       qs \<leftarrow> rust_update (sb_entry_sequences b) i (- 1);
       Some (Some v, b\<lparr>sb_entries := es, sb_entry_sequences := qs\<rparr>)
     } else Some (None, b)
   }"

primrec remove_run :: "'a \<Rightarrow> 'a SequenceBuffer \<Rightarrow> u64 \<Rightarrow> nat \<Rightarrow> 'a SequenceBuffer option" where
  "remove_run dflt b s 0 = Some b"
| "remove_run dflt b s (Suc n) = do {
     (_, b') \<leftarrow> SequenceBuffer_remove dflt b s;
     remove_run dflt b' (s + 1) n
   }"

definition remove_entries_inclusive ::
    "'a \<Rightarrow> 'a SequenceBuffer \<Rightarrow> u64 \<Rightarrow> u64 \<Rightarrow> 'a SequenceBuffer option" where
  "remove_entries_inclusive dflt b first_sequence last_sequence = do {
     rust_assert (first_sequence AND SIGN_BIT = 0);
     rust_assert (last_sequence AND SIGN_BIT = 0);
     if last_sequence < first_sequence then Some b
     else if of_nat (length (sb_entries b)) \<le> last_sequence - first_sequence then
       Some (b\<lparr>sb_entry_sequences := map (\<lambda>_. - 1) (sb_entry_sequences b),
              sb_entries := map (\<lambda>_. dflt) (sb_entries b)\<rparr>)
     else remove_run dflt b first_sequence (Suc (unat (last_sequence - first_sequence)))
   }"

definition advance_to :: "'a \<Rightarrow> 'a SequenceBuffer \<Rightarrow> u64 \<Rightarrow> 'a SequenceBuffer option" where
  "advance_to dflt b s = do {
     n \<leftarrow> checked_add s 1;
     rust_assert (n AND SIGN_BIT = 0);
     if sb_sequence b < n then do {
       b' \<leftarrow> remove_entries_inclusive dflt b (sb_sequence b) s;
       Some (b'\<lparr>sb_sequence := n\<rparr>)
     } else Some b
   }"

definition SequenceBuffer_insert ::
    "'a \<Rightarrow> 'a SequenceBuffer \<Rightarrow> u64 \<Rightarrow> 'a \<Rightarrow> (nat option \<times> 'a SequenceBuffer) option" where
  "SequenceBuffer_insert dflt b s entry = do {
     rust_assert (s AND SIGN_BIT = 0);
     if s < sb_sequence b \<and> of_nat (length (sb_entry_sequences b)) \<le> sb_sequence b - s then
       Some (None, b)
     else do {
       b' \<leftarrow> advance_to dflt b s;
       i \<leftarrow> SequenceBuffer_index b' s;
       qs \<leftarrow> rust_update (sb_entry_sequences b') i s;
       es \<leftarrow> rust_update (sb_entries b') i entry;
       Some (Some i, b'\<lparr>sb_entry_sequences := qs, sb_entries := es\<rparr>)
     }
   }"

section \<open>Representation invariant and abstraction\<close>

definition sb_cap :: "'a SequenceBuffer \<Rightarrow> nat" where
  "sb_cap b = length (sb_entries b)"

definition sb_wf :: "'a SequenceBuffer \<Rightarrow> bool" where
  "sb_wf b \<longleftrightarrow>
     length (sb_entry_sequences b) = sb_cap b \<and> 0 < sb_cap b \<and> sb_cap b < 2 ^ 63 \<and>
     unat (sb_sequence b) < 2 ^ 63 \<and>
     (\<forall>i < sb_cap b. sb_entry_sequences b ! i = - 1 \<or>
        sb_entry_sequences b ! i < sb_sequence b \<and>
        unat (sb_entry_sequences b ! i) mod sb_cap b = i)"

definition sb_lookup :: "'a SequenceBuffer \<Rightarrow> u64 \<rightharpoonup> 'a" where
  "sb_lookup b s =
     (let i = unat s mod sb_cap b in
      if s \<noteq> - 1 \<and> sb_entry_sequences b ! i = s then Some (sb_entries b ! i) else None)"

lemma sign_bit_clear: "s AND SIGN_BIT = 0 \<longleftrightarrow> unat s < 2 ^ 63"
proof -
  have "SIGN_BIT = 2 ^ 63"
    by (simp add: SIGN_BIT_def)
  then have "s AND SIGN_BIT = 0 \<longleftrightarrow> \<not> bit s 63"
    by (metis and_exp_eq_0_iff_not_bit)
  also have "\<dots> \<longleftrightarrow> even (unat s div 2 ^ 63)"
    by (simp add: bit_word_unat)
  also have "\<dots> \<longleftrightarrow> unat s < 2 ^ 63"
  proof -
    have "unat s div 2 ^ 63 < 2"
      using unat_less [of s] by (simp add: less_mult_imp_div_less)
    then have "even (unat s div 2 ^ 63) \<longleftrightarrow> unat s div 2 ^ 63 = 0"
      by (auto elim: evenE)
    then show ?thesis
      by (simp add: div_eq_0_iff)
  qed
  finally show ?thesis .
qed

lemma sb_wfD:
  assumes "sb_wf b"
  shows "length (sb_entry_sequences b) = sb_cap b" and "length (sb_entries b) = sb_cap b"
    and "0 < sb_cap b" and "sb_entries b \<noteq> []" and "sb_cap b < 2 ^ 63"
    and "unat (sb_sequence b) < 2 ^ 63"
  using assms by (auto simp: sb_wf_def sb_cap_def)

lemma sb_wf_entry:
  assumes "sb_wf b" and "i < sb_cap b" and "sb_entry_sequences b ! i \<noteq> - 1"
  shows "sb_entry_sequences b ! i < sb_sequence b"
    and "unat (sb_entry_sequences b ! i) mod sb_cap b = i"
  using assms by (auto simp: sb_wf_def)

lemma slot_less: "sb_wf b \<Longrightarrow> unat s mod sb_cap b < sb_cap b"
  by (simp add: sb_wfD)

lemma unat_of_nat_cap: "n < 2 ^ 64 \<Longrightarrow> unat (of_nat n :: u64) = n"
  by (simp add: unat_of_nat)

lemma cap_less_64: "sb_wf b \<Longrightarrow> sb_cap b < 2 ^ 64"
  by (drule sb_wfD(5)) simp

lemma index_wf:
  assumes "sb_wf b" and "unat s < 2 ^ 63"
  shows "SequenceBuffer_index b s = Some (unat s mod sb_cap b)"
  using assms cap_less_64 [OF assms(1)]
  by (simp add: SequenceBuffer_index_def sign_bit_clear sb_wfD unat_mod_distrib unat_of_nat_cap)

lemma minus_one_word_large: "unat s < 2 ^ 63 \<Longrightarrow> s \<noteq> (- 1 :: u64)"
  by (auto simp: unsigned_minus_1_eq_mask mask_eq_exp_minus_1)

lemma get_wf:
  assumes "sb_wf b" and "unat s < 2 ^ 63"
  shows "SequenceBuffer_get b s = Some (sb_lookup b s)"
  using assms slot_less [OF assms(1), of s] minus_one_word_large [OF assms(2)]
  by (simp add: SequenceBuffer_get_def index_wf sb_wfD sb_lookup_def)

lemma exists_wf:
  assumes "sb_wf b" and "unat s < 2 ^ 63"
  shows "SequenceBuffer_exists b s = Some (sb_lookup b s \<noteq> None)"
  using assms slot_less [OF assms(1), of s] minus_one_word_large [OF assms(2)]
  by (simp add: SequenceBuffer_exists_def index_wf sb_wfD sb_lookup_def Let_def)

lemma get_mut_wf:
  assumes "sb_wf b" and "unat s < 2 ^ 63"
  shows "SequenceBuffer_get_mut b s =
    Some (map_option (\<lambda>_. unat s mod sb_cap b) (sb_lookup b s))"
  using assms slot_less [OF assms(1), of s] minus_one_word_large [OF assms(2)]
  by (simp add: SequenceBuffer_get_mut_def index_wf sb_wfD sb_lookup_def)

lemma lookup_below_sequence:
  assumes "sb_wf b" and "sb_lookup b s = Some v"
  shows "s < sb_sequence b"
  using assms slot_less [OF assms(1), of s] sb_wf_entry(1) [OF assms(1), of "unat s mod sb_cap b"]
  by (auto simp: sb_lookup_def Let_def split: if_splits)

lemma with_capacity_wf:
  assumes "0 < cap" and "cap < 2 ^ 63"
  shows "sb_wf (SequenceBuffer_with_capacity dflt cap)"
    and "sb_lookup (SequenceBuffer_with_capacity dflt cap) = Map.empty"
  using assms by (auto simp: sb_wf_def sb_cap_def SequenceBuffer_with_capacity_def sb_lookup_def Let_def)

section \<open>What the operations do to the map\<close>

lemma remove_absent:
  assumes "sb_wf b" and "unat s < 2 ^ 63" and "sb_lookup b s = None"
  shows "SequenceBuffer_remove dflt b s = Some (None, b)"
  using assms slot_less [OF assms(1), of s] minus_one_word_large [OF assms(2)]
  by (auto simp: SequenceBuffer_remove_def sign_bit_clear index_wf sb_wfD sb_lookup_def Let_def)

definition sb_clear :: "'a \<Rightarrow> 'a SequenceBuffer \<Rightarrow> nat \<Rightarrow> 'a SequenceBuffer" where
  "sb_clear dflt b i = b\<lparr>sb_entries := (sb_entries b)[i := dflt],
                          sb_entry_sequences := (sb_entry_sequences b)[i := - 1]\<rparr>"

lemma remove_present:
  assumes "sb_wf b" and "unat s < 2 ^ 63" and "sb_lookup b s = Some v"
  shows "SequenceBuffer_remove dflt b s = Some (Some v, sb_clear dflt b (unat s mod sb_cap b))"
  using assms slot_less [OF assms(1), of s] minus_one_word_large [OF assms(2)]
  by (auto simp: SequenceBuffer_remove_def sign_bit_clear index_wf sb_wfD sb_lookup_def sb_clear_def
      Let_def split: if_splits)

lemma sb_clear_wf:
  assumes "sb_wf b"
  shows "sb_wf (sb_clear dflt b i)"
  using assms
  by (cases "i < sb_cap b") (auto simp: sb_wf_def sb_clear_def sb_cap_def nth_list_update)

lemma sb_clear_simps [simp]:
  "sb_cap (sb_clear dflt b i) = sb_cap b"
  "sb_sequence (sb_clear dflt b i) = sb_sequence b"
  "j \<noteq> i \<Longrightarrow> sb_entry_sequences (sb_clear dflt b i) ! j = sb_entry_sequences b ! j"
  "j \<noteq> i \<Longrightarrow> sb_entries (sb_clear dflt b i) ! j = sb_entries b ! j"
  "sb_wf b \<Longrightarrow> i < sb_cap b \<Longrightarrow> sb_entry_sequences (sb_clear dflt b i) ! i = - 1"
  by (simp_all add: sb_clear_def sb_cap_def sb_wfD(1))

lemma sb_clear_lookup:
  assumes "sb_wf b" and "sb_lookup b s = Some v"
  shows "sb_lookup (sb_clear dflt b (unat s mod sb_cap b)) = (sb_lookup b)(s := None)"
proof
  fix t
  define i where "i = unat s mod sb_cap b"
  have i: "sb_entry_sequences b ! i = s" "i < sb_cap b"
    using assms slot_less [OF assms(1), of s]
    by (simp_all add: sb_lookup_def Let_def i_def split: if_splits)
  have "sb_lookup (sb_clear dflt b i) t = ((sb_lookup b)(s := None)) t"
  proof (cases "unat t mod sb_cap b = i")
    case True
    then have "sb_lookup (sb_clear dflt b i) t = None"
      by (auto simp: sb_lookup_def Let_def assms(1) i(2))
    moreover have "t \<noteq> s \<Longrightarrow> sb_lookup b t = None"
      using True i(1) by (auto simp: sb_lookup_def Let_def)
    ultimately show ?thesis
      by simp
  next
    case False
    then have "t \<noteq> s"
      by (auto simp: i_def)
    with False show ?thesis
      by (simp add: sb_lookup_def Let_def)
  qed
  then show "sb_lookup (sb_clear dflt b (unat s mod sb_cap b)) t = ((sb_lookup b)(s := None)) t"
    by (simp only: i_def)
qed

theorem remove_spec:
  assumes "sb_wf b" and "unat s < 2 ^ 63"
  obtains b' where "SequenceBuffer_remove dflt b s = Some (sb_lookup b s, b')" and "sb_wf b'"
    and "sb_lookup b' = (sb_lookup b)(s := None)" and "sb_sequence b' = sb_sequence b"
    and "sb_cap b' = sb_cap b"
proof (cases "sb_lookup b s")
  case None
  then have "sb_lookup b = (sb_lookup b)(s := None)"
    by auto
  with None assms show ?thesis
    by (intro that [of b]) (auto simp: remove_absent)
next
  case (Some v)
  with assms show ?thesis
    by (intro that [of "sb_clear dflt b (unat s mod sb_cap b)"])
      (simp_all add: remove_present sb_clear_wf sb_clear_lookup)
qed

lemma lookup_at_or_above:
  assumes "sb_wf b" and "sb_sequence b \<le> s"
  shows "sb_lookup b s = None"
  using lookup_below_sequence [OF assms(1), of s] assms(2) by (cases "sb_lookup b s") auto

text \<open>
  The clearing loop of \<open>remove_entries_inclusive\<close> asks for the numbers from the cursor on, none of
  which is stored, so it removes nothing.
\<close>

lemma remove_run_noop:
  assumes "sb_wf b" and "sb_sequence b \<le> s" and "unat s + n \<le> 2 ^ 63"
  shows "remove_run dflt b s n = Some b"
  using assms(2,3)
proof (induction n arbitrary: s)
  case 0
  then show ?case by simp
next
  case (Suc n)
  then have s1: "unat (s + 1) = unat s + 1"
    by (simp add: unat_word_ariths)
  then have "remove_run dflt b (s + 1) n = Some b"
    using Suc by (intro Suc.IH) (auto simp: word_arith)
  moreover have "SequenceBuffer_remove dflt b s = Some (None, b)"
    using Suc.prems by (intro remove_absent assms(1) lookup_at_or_above) auto
  ultimately show ?case
    by simp
qed

definition sb_wiped :: "'a \<Rightarrow> 'a SequenceBuffer \<Rightarrow> 'a SequenceBuffer" where
  "sb_wiped dflt b = b\<lparr>sb_entry_sequences := map (\<lambda>_. - 1) (sb_entry_sequences b),
                       sb_entries := map (\<lambda>_. dflt) (sb_entries b)\<rparr>"

lemma advance_to_spec:
  assumes "sb_wf b" and "unat s < 2 ^ 63 - 1"
  shows "advance_to dflt b s = Some
    (if s < sb_sequence b then b
     else if unat (sb_sequence b) + sb_cap b \<le> unat s then (sb_wiped dflt b)\<lparr>sb_sequence := s + 1\<rparr>
     else b\<lparr>sb_sequence := s + 1\<rparr>)"
proof -
  have add: "checked_add s 1 = Some (s + 1)" and s1: "unat (s + 1) = unat s + 1"
    using assms(2) by (auto simp: checked_add_def word_arith unat_word_ariths)
  have sgn: "(s + 1) AND SIGN_BIT = 0" "s AND SIGN_BIT = 0" "sb_sequence b AND SIGN_BIT = 0"
    using assms s1 sb_wfD(6) [OF assms(1)] by (simp_all add: sign_bit_clear)
  show ?thesis
  proof (cases "s < sb_sequence b")
    case True
    then have "\<not> sb_sequence b < s + 1"
      by (simp add: word_arith s1)
    with True add sgn show ?thesis
      by (simp add: advance_to_def)
  next
    case False
    have d: "unat (s - sb_sequence b) = unat s - unat (sb_sequence b)"
      using False by (simp add: unat_sub)
    have less: "sb_sequence b < s + 1"
      using False s1 by (auto simp: word_arith)
    have run: "remove_run dflt b (sb_sequence b) (Suc (unat (s - sb_sequence b))) = Some b"
      using False assms d by (intro remove_run_noop) (auto simp: word_arith)
    have "remove_entries_inclusive dflt b (sb_sequence b) s =
        Some (if unat (sb_sequence b) + sb_cap b \<le> unat s then sb_wiped dflt b else b)"
      unfolding remove_entries_inclusive_def run
      using False cap_less_64 [OF assms(1)] d
      by (auto simp: sgn sb_wiped_def word_arith sb_cap_def unat_of_nat_cap)
    with add sgn less False show ?thesis
      by (simp add: advance_to_def)
  qed
qed

definition sb_put :: "'a SequenceBuffer \<Rightarrow> u64 \<Rightarrow> 'a \<Rightarrow> 'a SequenceBuffer" where
  "sb_put b s e = b\<lparr>sb_entry_sequences := (sb_entry_sequences b)[unat s mod sb_cap b := s],
                   sb_entries := (sb_entries b)[unat s mod sb_cap b := e]\<rparr>"

lemma sb_put_simps [simp]:
  "sb_cap (sb_put b s e) = sb_cap b"
  "sb_sequence (sb_put b s e) = sb_sequence b"
  "length (sb_entry_sequences (sb_put b s e)) = length (sb_entry_sequences b)"
  by (simp_all add: sb_put_def sb_cap_def)

lemma sb_put_wf:
  assumes "sb_wf b" and "s < sb_sequence b"
  shows "sb_wf (sb_put b s e)"
  unfolding sb_wf_def
proof (intro conjI allI impI)
  fix i
  assume "i < sb_cap (sb_put b s e)"
  then show "sb_entry_sequences (sb_put b s e) ! i = - 1 \<or>
      sb_entry_sequences (sb_put b s e) ! i < sb_sequence (sb_put b s e) \<and>
      unat (sb_entry_sequences (sb_put b s e) ! i) mod sb_cap (sb_put b s e) = i"
    using assms sb_wf_entry [OF assms(1), of i]
    unfolding sb_put_simps
    by (cases "i = unat s mod sb_cap b") (auto simp: sb_put_def sb_wfD)
qed (use sb_wfD [OF assms(1)] in \<open>simp_all\<close>)

lemma sb_put_lookup:
  assumes "sb_wf b" and "s < sb_sequence b"
  shows "sb_lookup (sb_put b s e) t =
    (if t = s then Some e else if unat t mod sb_cap b = unat s mod sb_cap b then None
     else sb_lookup b t)"
proof -
  have "unat s < 2 ^ 63"
    using assms sb_wfD(6) [OF assms(1)] by (simp add: word_arith)
  then have "s \<noteq> - 1"
    by (rule minus_one_word_large)
  then show ?thesis
    using slot_less [OF assms(1), of s]
    unfolding sb_lookup_def Let_def sb_put_simps
    by (auto simp: sb_put_def sb_wfD [OF assms(1)])
qed

lemma sb_advanced_wf:
  assumes "sb_wf b" and "sb_sequence b \<le> n" and "unat n < 2 ^ 63"
  shows "sb_wf (b\<lparr>sb_sequence := n\<rparr>)" and "sb_wf ((sb_wiped dflt b)\<lparr>sb_sequence := n\<rparr>)"
  using assms by (auto simp: sb_wf_def sb_cap_def sb_wiped_def)

lemma sb_advanced_lookup:
  "sb_lookup (b\<lparr>sb_sequence := n\<rparr>) = sb_lookup b"
  "sb_wf b \<Longrightarrow> sb_lookup (sb_wiped dflt b) = Map.empty"
  using slot_less [of b]
  by (auto simp: sb_lookup_def sb_cap_def sb_wiped_def Let_def fun_eq_iff sb_wf_def)

lemma sb_cap_advanced [simp]:
  "sb_cap (b\<lparr>sb_sequence := n\<rparr>) = sb_cap b" "sb_cap (sb_wiped dflt b) = sb_cap b"
  by (simp_all add: sb_cap_def sb_wiped_def)

lemma insert_as_put:
  assumes "sb_wf b" and "unat s < 2 ^ 63 - 1" and "advance_to dflt b s = Some b'" and "sb_wf b'"
    and "sb_cap b' = sb_cap b" and "unat (sb_sequence b) < unat s + sb_cap b"
  shows "SequenceBuffer_insert dflt b s e = Some (Some (unat s mod sb_cap b), sb_put b' s e)"
proof -
  have "\<not> (s < sb_sequence b \<and> of_nat (length (sb_entry_sequences b)) \<le> sb_sequence b - s)"
    using assms(6) cap_less_64 [OF assms(1)] sb_wfD(1) [OF assms(1)]
    by (auto simp: word_arith unat_of_nat_cap unat_sub)
  then show ?thesis
    using assms(2,3,5) slot_less [OF assms(4), of s]
    by (simp add: SequenceBuffer_insert_def sign_bit_clear index_wf [OF assms(4)]
        sb_wfD [OF assms(4)] sb_put_def)
qed

lemma insert_spec:
  assumes "sb_wf b" and "unat s < 2 ^ 63 - 1" and "unat (sb_sequence b) < unat s + sb_cap b"
  obtains b' where
    "SequenceBuffer_insert dflt b s e = Some (Some (unat s mod sb_cap b), b')" and "sb_wf b'"
    and "sb_sequence b' = max (sb_sequence b) (s + 1)" and "sb_cap b' = sb_cap b"
    and "\<And>t. sb_lookup b' t =
      (if t = s then Some e
       else if unat t mod sb_cap b = unat s mod sb_cap b \<or>
               unat (sb_sequence b) + sb_cap b \<le> unat s then None
       else sb_lookup b t)"
proof -
  have s1: "unat (s + 1) = unat s + 1"
    using assms(2) by (simp add: unat_word_ariths)
  obtain c where c: "advance_to dflt b s = Some c"
    and c_eq: "c = (if s < sb_sequence b then b
     else if unat (sb_sequence b) + sb_cap b \<le> unat s then (sb_wiped dflt b)\<lparr>sb_sequence := s + 1\<rparr>
     else b\<lparr>sb_sequence := s + 1\<rparr>)"
    using advance_to_spec [OF assms(1,2)] by blast
  have wf: "sb_wf c" and cap: "sb_cap c = sb_cap b"
    using assms s1 by (auto simp: c_eq word_arith intro!: sb_advanced_wf)
  have seq: "sb_sequence c = max (sb_sequence b) (s + 1)"
    using s1 by (auto simp: c_eq max_def word_arith word_unat_eq_iff)
  then have less: "s < sb_sequence c"
    using s1 by (simp add: word_arith max_def)
  have lk: "sb_lookup c t = (if unat (sb_sequence b) + sb_cap b \<le> unat s then None else sb_lookup b t)" for t
    using assms(1) by (auto simp: c_eq sb_advanced_lookup word_arith)
  show ?thesis
    using insert_as_put [OF assms(1,2) c wf cap assms(3)]
    by (rule that) (simp_all add: sb_put_wf [OF wf less] sb_put_lookup [OF wf less] seq cap lk)
qed

lemma insert_stale:
  assumes "sb_wf b" and "unat s < 2 ^ 63" and "unat s + sb_cap b \<le> unat (sb_sequence b)"
  shows "SequenceBuffer_insert dflt b s e = Some (None, b)"
  using assms cap_less_64 [OF assms(1)] sb_wfD(1,3) [OF assms(1)]
  by (auto simp: SequenceBuffer_insert_def sign_bit_clear word_arith unat_of_nat_cap unat_sub)

text \<open>
  A buffer filled by consecutive insertions, as the packet numbering does, only holds numbers of the
  last capacity: \<open>sb_window\<close> is kept by an insertion at the cursor and by every removal.
\<close>

definition sb_window :: "'a SequenceBuffer \<Rightarrow> bool" where
  "sb_window b \<longleftrightarrow> (\<forall>t. sb_lookup b t \<noteq> None \<longrightarrow> unat (sb_sequence b) \<le> unat t + sb_cap b)"

lemma sb_window_insert:
  assumes "sb_wf b" and "sb_window b" and "unat (sb_sequence b) < 2 ^ 63 - 1"
    and "SequenceBuffer_insert dflt b (sb_sequence b) e = Some (r, b')"
  shows "sb_window b'"
proof -
  let ?s = "sb_sequence b"
  have s1: "unat (?s + 1) = unat ?s + 1"
    using assms(3) by (simp add: unat_word_ariths)
  have max: "max ?s (?s + 1) = ?s + 1"
    using s1 by (simp add: max_def word_arith)
  show ?thesis
  proof (rule insert_spec [OF assms(1,3), of dflt e])
    show "unat ?s < unat ?s + sb_cap b"
      using sb_wfD(3) [OF assms(1)] by simp
  next
    fix c
    assume ins: "SequenceBuffer_insert dflt b ?s e = Some (Some (unat ?s mod sb_cap b), c)"
      and seq: "sb_sequence c = max ?s (?s + 1)" and cap: "sb_cap c = sb_cap b"
      and lk: "\<And>t. sb_lookup c t = (if t = ?s then Some e
        else if unat t mod sb_cap b = unat ?s mod sb_cap b \<or> unat ?s + sb_cap b \<le> unat ?s then None
        else sb_lookup b t)"
    have "c = b'"
      using assms(4) ins by simp
    have "unat ?s + 1 \<le> unat t + sb_cap b" if "sb_lookup c t \<noteq> None" for t
    proof (cases "t = ?s")
      case True
      then show ?thesis
        using sb_wfD(3) [OF assms(1)] by simp
    next
      case False
      then have "sb_lookup b t \<noteq> None" and ne: "unat t mod sb_cap b \<noteq> unat ?s mod sb_cap b"
        using that by (auto simp: lk split: if_splits)
      then have "unat ?s \<le> unat t + sb_cap b"
        using assms(2) by (auto simp: sb_window_def)
      moreover have "unat ?s \<noteq> unat t + sb_cap b"
        using ne by (metis mod_add_self2)
      ultimately show ?thesis
        by linarith
    qed
    then show ?thesis
      unfolding \<open>c = b'\<close> [symmetric] by (simp add: sb_window_def seq max s1 cap)
  qed
qed

lemma sb_window_remove:
  assumes "sb_wf b" and "sb_window b" and "unat s < 2 ^ 63"
    and "SequenceBuffer_remove dflt b s = Some (r, b')"
  shows "sb_window b'"
proof -
  obtain c where "SequenceBuffer_remove dflt b s = Some (sb_lookup b s, c)"
    and "sb_lookup c = (sb_lookup b)(s := None)" and "sb_sequence c = sb_sequence b"
    and "sb_cap c = sb_cap b"
    by (rule remove_spec [OF assms(1,3)])
  with assms(2,4) show ?thesis
    by (simp add: sb_window_def)
qed

section \<open>Properties\<close>

text \<open>C37: Inserting into a well-formed buffer never panics.  A number a full capacity behind the
  cursor is refused and changes nothing.  Any other number is stored, the cursor moves past it, the
  entry it shares a slot with is evicted, a jump of a full capacity wipes everything else, and every
  other entry is kept.\<close>

theorem SequenceBuffer_insert_refines_map:
  assumes "sb_wf b" and "unat s < 2 ^ 63 - 1"
  shows "if unat s + sb_cap b \<le> unat (sb_sequence b)
    then SequenceBuffer_insert dflt b s e = Some (None, b)
    else \<exists>b'. SequenceBuffer_insert dflt b s e = Some (Some (unat s mod sb_cap b), b') \<and> sb_wf b' \<and>
      sb_cap b' = sb_cap b \<and> sb_sequence b' = max (sb_sequence b) (s + 1) \<and>
      (\<forall>t. sb_lookup b' t =
        (if t = s then Some e
         else if unat t mod sb_cap b = unat s mod sb_cap b \<or>
                 unat (sb_sequence b) + sb_cap b \<le> unat s then None
         else sb_lookup b t))"
proof (cases "unat s + sb_cap b \<le> unat (sb_sequence b)")
  case True
  then show ?thesis
    using insert_stale [OF assms(1) _ True] assms(2) by simp
next
  case False
  then have "unat (sb_sequence b) < unat s + sb_cap b"
    by simp
  with assms obtain b' where
    "SequenceBuffer_insert dflt b s e = Some (Some (unat s mod sb_cap b), b')" and "sb_wf b'"
    and "sb_sequence b' = max (sb_sequence b) (s + 1)" and "sb_cap b' = sb_cap b"
    and "\<And>t. sb_lookup b' t =
      (if t = s then Some e
       else if unat t mod sb_cap b = unat s mod sb_cap b \<or>
               unat (sb_sequence b) + sb_cap b \<le> unat s then None
       else sb_lookup b t)"
    using insert_spec [of b s dflt e] by blast
  with False show ?thesis
    by simp
qed

theorem SequenceBuffer_insert_refines_map_witness:
  "SequenceBuffer_insert (0::nat) (SequenceBuffer_with_capacity 0 4) 2 7 \<noteq> None \<and>
   sb_wf (SequenceBuffer_with_capacity (0::nat) 4)"
  using SequenceBuffer_insert_refines_map [of "SequenceBuffer_with_capacity (0::nat) 4" 2 0 7]
    with_capacity_wf(1) [of 4 "0::nat"]
  by (auto simp: SequenceBuffer_with_capacity_def sb_cap_def)


end
