(* ===== verification/ReceivedHistory.thy ===== *)
theory ReceivedHistory
  imports Prelude
begin

text \<open>
  The receive half of the ack machinery, \<open>transport/src/ack_manager/history.rs\<close>: the peer's recent
  packets as the pair \<open>ack\<close>/\<open>ack_bits\<close> of the wire, and the count of packets that never arrived.

  \<open>rh_accept\<close> is the specification the rolling form refines: the set of packet numbers accepted so
  far, where a packet 32 or more behind the newest one is too late to be accepted.  \<open>rh_rel\<close> relates
  that set to the record.
\<close>

record ReceivedPacketHistory =
  rh_most_recent :: "u32 option"
  rh_ack_bits :: u32
  rh_lost :: u64
  rh_first :: "u32 option"

definition ReceivedPacketHistory_default :: ReceivedPacketHistory where
  "ReceivedPacketHistory_default =
     \<lparr>rh_most_recent = None, rh_ack_bits = 0, rh_lost = 0, rh_first = None\<rparr>"

definition departed_unset :: "u32 \<Rightarrow> u32 \<Rightarrow> u32 \<Rightarrow> nat \<Rightarrow> bool" where
  "departed_unset bits most_recent first age =
     (case checked_sub most_recent (of_nat age + 1) of
        None \<Rightarrow> False
      | Some departing \<Rightarrow> first \<le> departing \<and> bits AND push_bit age 1 = 0)"

definition note_departed :: "ReceivedPacketHistory \<Rightarrow> u32 \<Rightarrow> u32 \<Rightarrow> ReceivedPacketHistory" where
  "note_departed h most_recent advanced =
     (case rh_first h of
        None \<Rightarrow> h
      | Some first \<Rightarrow>
          let tracked = min advanced 32;
              unset = fold (\<lambda>age n. if departed_unset (rh_ack_bits h) most_recent first age
                                    then n + 1 else n)
                        [32 - unat tracked ..< 32] (0 :: u32);
              never_tracked = saturating_sub advanced 33
          in h\<lparr>rh_lost := saturating_add (saturating_add (rh_lost h) (ucast unset))
                            (ucast never_tracked)\<rparr>)"

definition ReceivedPacketHistory_record ::
    "ReceivedPacketHistory \<Rightarrow> u32 \<Rightarrow> ReceivedPacketHistory" where
  "ReceivedPacketHistory_record h s =
     (case rh_most_recent h of
        None \<Rightarrow> h\<lparr>rh_most_recent := Some s, rh_first := Some s\<rparr>
      | Some most_recent \<Rightarrow>
          if most_recent < s then
            let advanced = s - most_recent;
                h' = note_departed h most_recent advanced
            in h'\<lparr>rh_ack_bits :=
                    (if advanced \<le> 32 then
                       (if advanced < 32 then push_bit (unat advanced) (rh_ack_bits h') else 0)
                         OR push_bit (unat (advanced - 1)) 1
                     else 0),
                  rh_most_recent := Some s\<rparr>
          else if s < most_recent then
            let behind = most_recent - s
            in if behind < 32
               then h\<lparr>rh_ack_bits := rh_ack_bits h OR push_bit (unat (behind - 1)) 1\<rparr>
               else h
          else h)"

section \<open>Refinement to the set of accepted packets\<close>

definition rh_accept :: "nat \<Rightarrow> nat set \<Rightarrow> nat set" where
  "rh_accept s A = (if \<forall>a \<in> A. a < s + 32 then insert s A else A)"

definition rh_missing :: "nat set \<Rightarrow> nat \<Rightarrow> nat \<Rightarrow> nat set" where
  "rh_missing A first mr = {t. first \<le> t \<and> t + 32 < mr \<and> t \<notin> A}"

definition rh_rel :: "nat set \<Rightarrow> ReceivedPacketHistory \<Rightarrow> bool" where
  "rh_rel A h \<longleftrightarrow>
     (case (rh_most_recent h, rh_first h) of
        (Some mr, Some first) \<Rightarrow>
          unat mr \<in> A \<and> unat first \<in> A \<and> (\<forall>a \<in> A. a \<le> unat mr) \<and>
          (\<forall>n < 32. bit (rh_ack_bits h) n \<longleftrightarrow> (\<exists>a \<in> A. a + n + 1 = unat mr)) \<and>
          unat (rh_lost h) = card (rh_missing A (unat first) (unat mr))
      | (None, None) \<Rightarrow> A = {} \<and> rh_ack_bits h = 0 \<and> rh_lost h = 0
      | _ \<Rightarrow> False)"

lemma rh_rel_default: "rh_rel {} ReceivedPacketHistory_default"
  by (simp add: rh_rel_def ReceivedPacketHistory_default_def)

lemma rh_rel_cases:
  assumes "rh_rel A h"
  obtains (empty) "rh_most_recent h = None" "rh_first h = None" "A = {}" "rh_ack_bits h = 0"
      "rh_lost h = 0"
  | (some) mr first where "rh_most_recent h = Some mr" "rh_first h = Some first" "unat mr \<in> A"
      "unat first \<in> A" "\<And>a. a \<in> A \<Longrightarrow> a \<le> unat mr"
      "\<And>n. n < 32 \<Longrightarrow> bit (rh_ack_bits h) n \<longleftrightarrow> (\<exists>a \<in> A. a + n + 1 = unat mr)"
      "unat (rh_lost h) = card (rh_missing A (unat first) (unat mr))"
  using assms by (auto simp: rh_rel_def split: option.splits)

lemma fold_count:
  "fold (\<lambda>x n. if P x then n + 1 else n) xs (n :: 'a::len word) = n + of_nat (length (filter P xs))"
  by (induction xs arbitrary: n) auto

lemma finite_rh_missing [simp]: "finite (rh_missing A first mr)"
  by (rule finite_subset [of _ "{..<mr}"]) (auto simp: rh_missing_def)

lemma card_rh_missing_less: "card (rh_missing A first mr) \<le> mr"
proof -
  have "rh_missing A first mr \<subseteq> {..<mr}"
    by (auto simp: rh_missing_def)
  then have "card (rh_missing A first mr) \<le> card {..<mr}"
    by (intro card_mono) auto
  then show ?thesis
    by simp
qed

lemma rh_missing_self [simp]: "rh_missing A mr mr = {}"
  by (auto simp: rh_missing_def)

lemma rh_missing_advance:
  assumes "\<And>a. a \<in> A \<Longrightarrow> a \<le> mr" and "mr \<in> A" and "first \<in> A" and "mr < s"
  shows "card (rh_missing (insert s A) first s) =
    card (rh_missing A first mr) +
    card {age. 32 - min (s - mr) 32 \<le> age \<and> age < 32 \<and> age + 1 \<le> mr \<and>
               first \<le> mr - (age + 1) \<and> mr - (age + 1) \<notin> A} +
    (s - mr - 33)"
proof -
  let ?ages = "{age. 32 - min (s - mr) 32 \<le> age \<and> age < 32 \<and> age + 1 \<le> mr \<and>
                     first \<le> mr - (age + 1) \<and> mr - (age + 1) \<notin> A}"
  let ?old = "rh_missing A first mr"
  let ?seen = "(\<lambda>age. mr - (age + 1)) ` ?ages"
  let ?skipped = "{mr + 1 ..< s - 32}"
  have skip: "t \<notin> A" if "mr < t" for t
    using assms(1) that by (meson not_le)
  have "rh_missing (insert s A) first s = ?old \<union> ?seen \<union> ?skipped" (is "?L = ?R")
  proof (intro equalityI subsetI)
    fix t
    assume "t \<in> ?L"
    then have t: "first \<le> t" "t + 32 < s" "t \<notin> A"
      by (auto simp: rh_missing_def)
    consider "t + 32 < mr" | "mr \<le> t + 32" "t < mr" | "t = mr" | "mr < t"
      by linarith
    then show "t \<in> ?R"
    proof cases
      case 2
      then have "mr - (t + 1) \<in> ?ages" and "t = mr - ((mr - (t + 1)) + 1)"
        using t by auto
      then show ?thesis
        by blast
    qed (use t assms(2) in \<open>auto simp: rh_missing_def\<close>)
  next
    fix t
    assume "t \<in> ?R"
    moreover have "first \<le> mr"
      using assms by auto
    ultimately show "t \<in> ?L"
      using assms(4) skip by (auto simp: rh_missing_def)
  qed
  moreover have "card (?old \<union> ?seen \<union> ?skipped) = card ?old + card ?ages + card ?skipped"
  proof -
    have fin: "finite ?ages"
      by (rule finite_subset [of _ "{..<32}"]) auto
    have "inj_on (\<lambda>age. mr - (age + 1)) ?ages"
      by (auto simp: inj_on_def)
    then have seen: "card ?seen = card ?ages"
      by (rule card_image)
    have 1: "?old \<inter> ?seen = {}" and 2: "(?old \<union> ?seen) \<inter> ?skipped = {}"
      by (auto simp: rh_missing_def)
    have "card (?old \<union> ?seen) = card ?old + card ?seen"
      using fin 1 by (intro card_Un_disjoint finite_imageI finite_rh_missing)
    moreover have "card (?old \<union> ?seen \<union> ?skipped) = card (?old \<union> ?seen) + card ?skipped"
      using fin 2 by (intro card_Un_disjoint finite_UnI finite_imageI finite_rh_missing) auto
    ultimately show ?thesis
      by (simp only: seen)
  qed
  moreover have "card ?skipped = s - mr - 33"
    by simp
  ultimately show ?thesis
    by (simp only:)
qed

lemma departed_unset_iff:
  assumes "age < 32"
  shows "departed_unset bits mr first age \<longleftrightarrow>
    age + 1 \<le> unat mr \<and> unat first \<le> unat mr - (age + 1) \<and> \<not> bit bits age"
proof -
  have u: "unat (of_nat age + 1 :: u32) = age + 1"
    using assms by (simp add: unat_word_ariths unat_of_nat)
  have b: "bits AND push_bit age 1 = 0 \<longleftrightarrow> \<not> bit bits age"
    by (simp add: and_exp_eq_0_iff_not_bit)
  show ?thesis
  proof (cases "checked_sub mr (of_nat age + 1)")
    case None
    moreover from None have "unat mr < age + 1"
      by (simp only: checked_sub_None u)
    ultimately show ?thesis
      by (simp add: departed_unset_def)
  next
    case (Some d)
    moreover from Some have "age + 1 \<le> unat mr" and "unat d = unat mr - (age + 1)"
      by (simp_all only: checked_sub_Some u)
    ultimately show ?thesis
      using b by (simp add: departed_unset_def word_arith)
  qed
qed

lemma note_departed_lost:
  assumes "rh_first h = Some first" and "mr < s" and "unat first \<in> A" and "unat mr \<in> A"
    and "\<And>a. a \<in> A \<Longrightarrow> a \<le> unat mr"
    and "\<And>n. n < 32 \<Longrightarrow> bit (rh_ack_bits h) n \<longleftrightarrow> (\<exists>a \<in> A. a + n + 1 = unat mr)"
    and "unat (rh_lost h) = card (rh_missing A (unat first) (unat mr))"
  shows "unat (rh_lost (note_departed h mr (s - mr))) =
    card (rh_missing (insert (unat s) A) (unat first) (unat s))"
proof -
  let ?P = "departed_unset (rh_ack_bits h) mr first"
  let ?ages = "{age. 32 - min (unat s - unat mr) 32 \<le> age \<and> age < 32 \<and> age + 1 \<le> unat mr \<and>
                     unat first \<le> unat mr - (age + 1) \<and> unat mr - (age + 1) \<notin> A}"
  have adv: "unat (s - mr) = unat s - unat mr"
    using assms(2) by (simp add: unat_sub)
  have tracked: "unat (min (s - mr) 32) = min (unat s - unat mr) 32"
    by (auto simp: min_def word_arith adv)
  have "?P age \<longleftrightarrow> age + 1 \<le> unat mr \<and> unat first \<le> unat mr - (age + 1) \<and>
      unat mr - (age + 1) \<notin> A" if "age < 32" for age
  proof -
    have "(\<exists>a \<in> A. a + age + 1 = unat mr) \<longleftrightarrow> unat mr - (age + 1) \<in> A" if "age + 1 \<le> unat mr"
      using that by (metis add.assoc add_diff_cancel_right' le_add_diff_inverse2)
    then show ?thesis
      using that by (auto simp: departed_unset_iff assms(6))
  qed
  then have "{x. ?P x} \<inter> set [32 - min (unat s - unat mr) 32..<32] = ?ages"
    by auto
  then have count: "length (filter ?P [32 - min (unat s - unat mr) 32..<32]) = card ?ages"
    by (simp add: distinct_length_filter)
  also have small: "\<dots> \<le> card {..<32::nat}"
    by (rule card_mono) auto
  finally have le: "card ?ages \<le> 32"
    by (simp add: count)
  have total: "card (rh_missing (insert (unat s) A) (unat first) (unat s)) =
      unat (rh_lost h) + card ?ages + (unat s - unat mr - 33)"
    unfolding assms(7)
    using assms(2) by (intro rh_missing_advance assms(3-5)) (simp_all add: word_arith)
  have "card (rh_missing (insert (unat s) A) (unat first) (unat s)) \<le> unat s"
    by (rule card_rh_missing_less)
  also have "unat s < 2 ^ 32"
    using unat_less [of s] by simp
  finally have small: "unat (rh_lost h) + card ?ages + (unat s - unat mr - 33) < 2 ^ 32"
    unfolding total .
  define k where "k = card ?ages"
  note facts = count [folded k_def] total [folded k_def] small [folded k_def] le [folded k_def]
  have u1: "unat (ucast (of_nat k :: u32) :: u64) = k"
    using facts(4) by (simp add: unat_ucast_up unat_of_nat)
  have u2: "unat (ucast (saturating_sub (s - mr) 33) :: u64) = unat s - unat mr - 33"
    by (simp add: unat_ucast_up unat_saturating_sub adv)
  show ?thesis
    unfolding facts(2) note_departed_def assms(1) option.case Let_def tracked fold_count facts(1)
    using facts(3) by (simp add: unat_saturating_add u1 u2)
qed

lemma note_departed_simps [simp]:
  "rh_most_recent (note_departed h mr adv) = rh_most_recent h"
  "rh_ack_bits (note_departed h mr adv) = rh_ack_bits h"
  "rh_first (note_departed h mr adv) = rh_first h"
  by (simp_all add: note_departed_def Let_def split: option.split)

definition shifted_bits :: "u32 \<Rightarrow> u32 \<Rightarrow> u32" where
  "shifted_bits advanced bits =
     (if advanced \<le> 32 then
        (if advanced < 32 then push_bit (unat advanced) bits else 0)
          OR push_bit (unat (advanced - 1)) 1
      else 0)"

lemma bit_shifted_bits:
  assumes "n < 32" and "0 < advanced"
  shows "bit (shifted_bits advanced bits) n \<longleftrightarrow>
    n + 1 = unat advanced \<or> unat advanced \<le> n \<and> bit bits (n - unat advanced)"
proof -
  have u: "unat (advanced - 1) = unat advanced - 1"
    using assms(2) by (simp add: unat_minus_one word_gt_0)
  have pos: "0 < unat advanced"
    using assms(2) by (simp add: word_arith)
  have len: "LENGTH(32) = 32"
    by simp
  show ?thesis
    using assms(1) pos
    by (auto simp: shifted_bits_def bit_or_push_bit_one [unfolded len] bit_push_bit_word u word_arith
        simp del: push_bit_of_1)
qed

lemma rh_rel_advance:
  assumes "rh_rel A h" and "rh_most_recent h = Some mr" and "mr < s"
  shows "rh_rel (insert (unat s) A) (ReceivedPacketHistory_record h s)"
  using assms(1)
proof (cases rule: rh_rel_cases)
  case empty
  with assms show ?thesis
    by simp
next
  case (some mr' first)
  note r = some [unfolded some(1) [unfolded assms(2), simplified, symmetric]]
  have adv: "unat (s - mr) = unat s - unat mr" "0 < s - mr"
    using assms(3) by (auto simp: unat_sub word_arith)
  have lost: "unat (rh_lost (note_departed h mr (s - mr))) =
      card (rh_missing (insert (unat s) A) (unat first) (unat s))"
    by (rule note_departed_lost [OF r(2) assms(3) r(4,3,5,6,7)])
  have bits: "bit (shifted_bits (s - mr) (rh_ack_bits h)) n \<longleftrightarrow>
      (\<exists>a \<in> insert (unat s) A. a + n + 1 = unat s)" if "n < 32" for n
  proof -
    have "(\<exists>a \<in> A. a + n + 1 = unat s) \<longleftrightarrow> n + 1 = unat s - unat mr \<or>
        unat s - unat mr \<le> n \<and> (\<exists>a \<in> A. a + (n - (unat s - unat mr)) + 1 = unat mr)"
      (is "?L \<longleftrightarrow> ?R")
    proof
      assume ?L
      then obtain a where a: "a \<in> A" "a + n + 1 = unat s"
        by blast
      with r(5) [of a] assms(3) show ?R
        by (cases "a = unat mr") (auto simp: word_arith intro!: bexI [of _ a])
    next
      assume R: ?R
      show ?L
      proof (cases "n + 1 = unat s - unat mr")
        case True
        then show ?thesis
          using r(3) assms(3) by (auto simp: word_arith intro!: bexI [of _ "unat mr"])
      next
        case False
        with R obtain a where "a \<in> A" "unat s - unat mr \<le> n"
          "a + (n - (unat s - unat mr)) + 1 = unat mr"
          by blast
        then show ?thesis
          using assms(3) by (auto simp: word_arith intro!: bexI [of _ a])
      qed
    qed
    moreover have "n - (unat s - unat mr) < 32"
      using that by simp
    ultimately show ?thesis
      unfolding bit_shifted_bits [OF that adv(2)] adv(1) by (simp add: r(6))
  qed
  have "ReceivedPacketHistory_record h s =
      (note_departed h mr (s - mr))\<lparr>rh_ack_bits := shifted_bits (s - mr) (rh_ack_bits h),
                                    rh_most_recent := Some s\<rparr>"
    using assms(2,3) by (simp add: ReceivedPacketHistory_record_def Let_def shifted_bits_def)
  moreover have "\<forall>a \<in> A. a \<le> unat s"
    using r(5) assms(3) by (auto simp: word_arith dest: less_imp_le_nat le_trans)
  ultimately show ?thesis
    using lost bits r by (simp add: rh_rel_def)
qed

lemma rh_rel_late:
  assumes "rh_rel A h" and "rh_most_recent h = Some mr" and "s < mr" and "unat mr - unat s < 32"
  shows "rh_rel (insert (unat s) A) (ReceivedPacketHistory_record h s)"
  using assms(1)
proof (cases rule: rh_rel_cases)
  case empty
  with assms show ?thesis
    by simp
next
  case (some mr' first)
  note r = some [unfolded some(1) [unfolded assms(2), simplified, symmetric]]
  have behind: "unat (mr - s) = unat mr - unat s" and pos: "0 < unat mr - unat s"
    using assms(3) by (auto simp: unat_sub word_arith)
  have "unat (mr - s - 1) = unat mr - unat s - 1"
    using behind pos by (subst unat_minus_one) auto
  then have "bit (rh_ack_bits h OR push_bit (unat (mr - s - 1)) 1) n \<longleftrightarrow>
      (\<exists>a \<in> insert (unat s) A. a + n + 1 = unat mr)" if "n < 32" for n
    unfolding bit_or_push_bit_one using that pos r(6) [OF that] by auto
  moreover have "rh_missing (insert (unat s) A) (unat first) (unat mr) =
      rh_missing A (unat first) (unat mr)"
    using assms(4) by (auto simp: rh_missing_def)
  moreover have "ReceivedPacketHistory_record h s =
      h\<lparr>rh_ack_bits := rh_ack_bits h OR push_bit (unat (mr - s - 1)) 1\<rparr>"
    using assms(2-4) behind
    by (simp add: ReceivedPacketHistory_record_def Let_def word_arith not_less)
  ultimately show ?thesis
    using r assms(3) by (simp add: rh_rel_def word_arith)
qed

theorem rh_rel_record:
  assumes "rh_rel A h"
  shows "rh_rel (rh_accept (unat s) A) (ReceivedPacketHistory_record h s)"
  using assms
proof (cases rule: rh_rel_cases)
  case empty
  then show ?thesis
    by (auto simp: rh_rel_def rh_accept_def ReceivedPacketHistory_record_def)
next
  case (some mr first)
  have accept: "rh_accept (unat s) A = insert (unat s) A" if "unat mr < unat s + 32"
  proof -
    have "\<forall>a \<in> A. a < unat s + 32"
      using some(5) that le_less_trans by blast
    then show ?thesis
      by (simp add: rh_accept_def)
  qed
  consider "mr < s" | "s = mr" | "s < mr" "unat mr - unat s < 32" | "s < mr" "32 \<le> unat mr - unat s"
    by fastforce
  then show ?thesis
  proof cases
    case 1
    then have "rh_accept (unat s) A = insert (unat s) A"
      by (intro accept) (auto simp: word_arith)
    then show ?thesis
      using rh_rel_advance [OF assms some(1) 1] by simp
  next
    case 2
    then have "rh_accept (unat s) A = A"
      using some(3) by (auto simp: rh_accept_def)
    then show ?thesis
      using assms some(1) 2 by (simp add: ReceivedPacketHistory_record_def)
  next
    case 3
    then have "rh_accept (unat s) A = insert (unat s) A"
      by (intro accept) (auto simp: word_arith)
    then show ?thesis
      using rh_rel_late [OF assms some(1) 3] by simp
  next
    case 4
    then have "\<not> (\<forall>a \<in> A. a < unat s + 32)"
      using some(3) by (auto intro!: bexI [of _ "unat mr"])
    then have "rh_accept (unat s) A = A"
      by (simp only: rh_accept_def if_False)
    moreover have "ReceivedPacketHistory_record h s = h"
      using 4 some(1)
      by (simp add: ReceivedPacketHistory_record_def Let_def word_arith unat_sub not_less)
    ultimately show ?thesis
      using assms by simp
  qed
qed

lemma rh_first_record:
  "rh_first h = Some x \<Longrightarrow> rh_most_recent h \<noteq> None \<Longrightarrow>
    rh_first (ReceivedPacketHistory_record h s) = Some x \<and>
    rh_most_recent (ReceivedPacketHistory_record h s) \<noteq> None"
  by (auto simp: ReceivedPacketHistory_record_def Let_def)

definition rh_run :: "u32 list \<Rightarrow> ReceivedPacketHistory" where
  "rh_run xs = fold (\<lambda>s h. ReceivedPacketHistory_record h s) xs ReceivedPacketHistory_default"

definition rh_accepted :: "u32 list \<Rightarrow> nat set" where
  "rh_accepted xs = fold (\<lambda>s. rh_accept (unat s)) xs {}"

lemma rh_rel_fold:
  "rh_rel A h \<Longrightarrow> rh_rel (fold (\<lambda>s. rh_accept (unat s)) xs A)
     (fold (\<lambda>s h. ReceivedPacketHistory_record h s) xs h)"
  by (induction xs arbitrary: A h) (auto intro: rh_rel_record)

lemma rh_rel_run: "rh_rel (rh_accepted xs) (rh_run xs)"
  unfolding rh_run_def rh_accepted_def by (intro rh_rel_fold rh_rel_default)

lemma rh_first_fold:
  "rh_first h = Some x \<Longrightarrow> rh_most_recent h \<noteq> None \<Longrightarrow>
    rh_first (fold (\<lambda>s h. ReceivedPacketHistory_record h s) xs h) = Some x"
  by (induction xs arbitrary: h) (use rh_first_record in auto)

lemma rh_first_run: "rh_first (rh_run (x # xs)) = Some x"
proof -
  have "rh_first (ReceivedPacketHistory_record ReceivedPacketHistory_default x) = Some x"
    and "rh_most_recent (ReceivedPacketHistory_record ReceivedPacketHistory_default x) \<noteq> None"
    by (simp_all add: ReceivedPacketHistory_record_def ReceivedPacketHistory_default_def)
  then show ?thesis
    by (simp add: rh_run_def rh_first_fold)
qed

lemma rh_accepted_subset: "rh_accepted xs \<subseteq> unat ` set xs"
proof -
  have "fold (\<lambda>s. rh_accept (unat s)) xs A \<subseteq> A \<union> unat ` set xs" for A
  proof (induction xs arbitrary: A)
    case (Cons a xs)
    have "rh_accept (unat a) A \<subseteq> insert (unat a) A"
      by (auto simp: rh_accept_def)
    with Cons [of "rh_accept (unat a) A"] show ?case
      by auto
  qed simp
  from this [of "{}"] show ?thesis
    by (simp add: rh_accepted_def)
qed

section \<open>Properties\<close>

text \<open>C33: After any sequence of received packets, \<open>most_recent\<close> is the largest accepted number,
  bit \<open>n\<close> of \<open>ack_bits\<close> is set exactly when number \<open>most_recent - (n + 1)\<close> was accepted, only
  received packets are acked, and \<open>lost\<close> is exactly the count of numbers since the first packet that
  fell more than 32 behind without having been accepted.\<close>

theorem received_history_exact:
  "\<exists>mr. rh_most_recent (rh_run (x # xs)) = Some mr \<and>
     unat mr \<in> rh_accepted (x # xs) \<and> rh_accepted (x # xs) \<subseteq> unat ` set (x # xs) \<inter> {..unat mr} \<and>
     (\<forall>n < 32. bit (rh_ack_bits (rh_run (x # xs))) n \<longleftrightarrow>
        (\<exists>a \<in> rh_accepted (x # xs). a + n + 1 = unat mr)) \<and>
     unat (rh_lost (rh_run (x # xs))) =
       card {t. unat x \<le> t \<and> t + 32 < unat mr \<and> t \<notin> rh_accepted (x # xs)}"
  using rh_rel_run [of "x # xs"]
proof (cases rule: rh_rel_cases)
  case empty
  then show ?thesis
    using rh_first_run [of x xs] by simp
next
  case (some mr first)
  then have "first = x"
    using rh_first_run [of x xs] by simp
  with some show ?thesis
    using rh_accepted_subset [of "x # xs"] by (auto simp: rh_missing_def)
qed

theorem received_history_exact_witness:
  "\<exists>mr. rh_most_recent (rh_run [3, 40, 5]) = Some mr \<and>
     unat (rh_lost (rh_run [3, 40, 5])) =
       card {t. 3 \<le> t \<and> t + 32 < unat mr \<and> t \<notin> rh_accepted [3, 40, 5]}"
  using received_history_exact [of 3 "[40, 5]"] by auto

end
