(* ===== verification/AckManager.thy ===== *)
theory AckManager
  imports Wire OrderedMap SequenceBuffer ReceivedHistory
begin

text \<open>
  The per-link reliability layer of \<open>transport/src/ack_manager/\<close>: building packets that carry the
  fresh payload plus redundant unacked ones, recording what reached the wire, and retiring what the
  peer's acks and cursors cover.  Payloads are keyed by their origin identity \<open>(slot, seq)\<close>.

  \<open>build_outgoing\<close> is split the way its body is: header, fresh payload, redundancy cap, spacing, the
  choice of redundancy with its two all-fit fast paths and the ranked refill, and the registration of
  the fresh payload.  Log lines are not modelled.
\<close>

section \<open>Policy\<close>

record CarrySpacing =
  cs_dense_carries :: u32
  cs_max_spacing :: u32

record RecarryPolicy =
  rp_redundancy_byte_budget :: "nat option"
  rp_spacing :: "CarrySpacing option"

definition RecarryPolicy_default :: RecarryPolicy where
  "RecarryPolicy_default =
     \<lparr>rp_redundancy_byte_budget = Some 384,
      rp_spacing = Some \<lparr>cs_dense_carries = 2, cs_max_spacing = 8\<rparr>\<rparr>"

definition required_gap :: "CarrySpacing \<Rightarrow> u32 \<Rightarrow> u32" where
  "required_gap cs send_count =
     (if send_count \<le> cs_dense_carries cs then 1
      else let doublings = min (send_count - cs_dense_carries cs) 30
           in min (push_bit (unat doublings) 1) (max (cs_max_spacing cs) 1))"

section \<open>State\<close>

record SentPacket =
  payload_slots_seqs :: "(SlotId \<times> u64) list"

definition SentPacket_default :: SentPacket where
  "SentPacket_default = \<lparr>payload_slots_seqs = []\<rparr>"

record SentPayload =
  sp_send_count :: u32
  sp_last_carried_packet_seq :: "u32 option"
  sp_registered_at_packet_seq :: u32
  sp_wire_len :: nat
  sp_payload :: Payload

definition is_due :: "SentPayload \<Rightarrow> CarrySpacing option \<Rightarrow> u32 \<Rightarrow> bool" where
  "is_due sp spacing building_seq =
     (case spacing of
        None \<Rightarrow> True
      | Some cs \<Rightarrow>
          (case sp_last_carried_packet_seq sp of
             None \<Rightarrow> True
           | Some carried \<Rightarrow> required_gap cs (sp_send_count sp) \<le> saturating_sub building_seq carried))"

definition waiting_age :: "SentPayload \<Rightarrow> u32 \<Rightarrow> u32" where
  "waiting_age sp building_seq =
     saturating_sub building_seq
       (case sp_last_carried_packet_seq sp of
          Some carried \<Rightarrow> carried
        | None \<Rightarrow> sp_registered_at_packet_seq sp)"

type_synonym window = "((SlotId \<times> u64) \<times> SentPayload) list"

record AckManager =
  am_packet_seq :: u32
  am_sent_packets :: "SentPacket SequenceBuffer"
  am_unacked_payloads :: window
  am_unacked_payload_wire_len :: "nat option"
  am_received_packets :: ReceivedPacketHistory
  am_policy :: RecarryPolicy
  am_turns_complete :: "u64 option"

definition SENT_PACKETS_SIZE :: nat where
  "SENT_PACKETS_SIZE = 256"

definition AckManager_with_policy :: "RecarryPolicy \<Rightarrow> AckManager" where
  "AckManager_with_policy policy =
     \<lparr>am_packet_seq = 0,
      am_sent_packets = SequenceBuffer_with_capacity SentPacket_default SENT_PACKETS_SIZE,
      am_unacked_payloads = [],
      am_unacked_payload_wire_len = Some 0,
      am_received_packets = ReceivedPacketHistory_default,
      am_policy = policy,
      am_turns_complete = None\<rparr>"

definition AckManager_new :: AckManager where
  "AckManager_new = AckManager_with_policy RecarryPolicy_default"

definition set_turns_complete :: "AckManager \<Rightarrow> u64 option \<Rightarrow> AckManager" where
  "set_turns_complete m count = m\<lparr>am_turns_complete := count\<rparr>"

definition reset_connection :: "AckManager \<Rightarrow> AckManager" where
  "reset_connection m =
     m\<lparr>am_packet_seq := 0,
       am_sent_packets := SequenceBuffer_with_capacity SentPacket_default SENT_PACKETS_SIZE,
       am_received_packets := ReceivedPacketHistory_default,
       am_unacked_payloads :=
         map (\<lambda>(k, sp). (k, sp\<lparr>sp_send_count := 0, sp_last_carried_packet_seq := None,
                               sp_registered_at_packet_seq := 0\<rparr>))
           (am_unacked_payloads m)\<rparr>"

definition last_seen_remote :: "AckManager \<Rightarrow> u64 option" where
  "last_seen_remote m = map_option ucast (rh_most_recent (am_received_packets m))"

definition payloads_in_flight :: "AckManager \<Rightarrow> nat" where
  "payloads_in_flight m = length (am_unacked_payloads m)"

definition next_packet_seq :: "AckManager \<Rightarrow> u32" where
  "next_packet_seq m = am_packet_seq m"

definition slot_seqs :: "window \<Rightarrow> SlotId \<Rightarrow> u64 list" where
  "slot_seqs w slot = map (snd \<circ> fst) (filter (\<lambda>(k, _). fst k = slot) w)"

definition oldest_replayable_seq :: "AckManager \<Rightarrow> SlotId \<Rightarrow> u64 option" where
  "oldest_replayable_seq m slot =
     (case slot_seqs (am_unacked_payloads m) slot of [] \<Rightarrow> None | s # _ \<Rightarrow> Some s)"

fun descend_contiguous :: "u64 \<Rightarrow> u64 list \<Rightarrow> u64" where
  "descend_contiguous anchor [] = anchor"
| "descend_contiguous anchor (s # ss) =
     (if s + 1 = anchor then descend_contiguous s ss else anchor)"

definition contiguous_replayable_anchor :: "AckManager \<Rightarrow> SlotId \<Rightarrow> u64 \<Rightarrow> u64" where
  "contiguous_replayable_anchor m slot front =
     descend_contiguous front
       (rev (filter (\<lambda>s. s < front) (slot_seqs (am_unacked_payloads m) slot)))"

definition AckManager_ack_bits :: "AckManager \<Rightarrow> u32" where
  "AckManager_ack_bits m = rh_ack_bits (am_received_packets m)"

definition upstream_lost_packets :: "AckManager \<Rightarrow> u64" where
  "upstream_lost_packets m = rh_lost (am_received_packets m)"

definition refresh_wire_len :: "AckManager \<Rightarrow> nat \<times> AckManager" where
  "refresh_wire_len m =
     (case am_unacked_payload_wire_len m of
        Some len \<Rightarrow> (len, m)
      | None \<Rightarrow>
          let len = fold (\<lambda>sp t. usize_saturating_add t (sp_wire_len sp))
                        (bm_values (am_unacked_payloads m)) 0
          in (len, m\<lparr>am_unacked_payload_wire_len := Some len\<rparr>))"

section \<open>Sending\<close>

definition insert_unacked :: "AckManager \<Rightarrow> SlotId \<times> u64 \<Rightarrow> SentPayload \<Rightarrow> AckManager" where
  "insert_unacked m key sent =
     (let previous = map_of (am_unacked_payloads m) key;
          len = (case (previous, am_unacked_payload_wire_len m) of
                     (Some old, Some t) \<Rightarrow> Some (t - sp_wire_len old)
                   | (_, t) \<Rightarrow> t);
          len' = map_option (\<lambda>t. usize_saturating_add t (sp_wire_len sent)) len
      in m\<lparr>am_unacked_payloads := bm_insert key sent (am_unacked_payloads m),
           am_unacked_payload_wire_len := len'\<rparr>)"

definition outgoing_header :: "AckManager \<Rightarrow> Packet" where
  "outgoing_header m =
     \<lparr>pk_seq = am_packet_seq m,
      pk_ack = map_option ucast (last_seen_remote m),
      pk_ack_bits = AckManager_ack_bits m,
      pk_payloads = [],
      pk_turns_complete = am_turns_complete m\<rparr>"

definition fresh_payload :: "Payload option \<Rightarrow> (SlotId \<times> Payload) option" where
  "fresh_payload payload = do {
     p \<leftarrow> payload;
     raw \<leftarrow> slot_try_from (p_slot p);
     Some (raw, p)
   }"

definition redundancy_cap :: "RecarryPolicy \<Rightarrow> nat \<Rightarrow> nat \<Rightarrow> nat" where
  "redundancy_cap policy max_packet_len used =
     (case rp_redundancy_byte_budget policy of
        Some budget \<Rightarrow> min max_packet_len (usize_saturating_add used budget)
      | None \<Rightarrow> max_packet_len)"

definition fits_remaining :: "nat \<Rightarrow> nat \<Rightarrow> nat \<Rightarrow> bool" where
  "fits_remaining cap used len = (used \<le> cap \<and> len \<le> cap - used)"

fun refill :: "nat \<Rightarrow> nat \<Rightarrow> bool \<Rightarrow> nat \<Rightarrow> SentPayload list \<Rightarrow> Payload list" where
  "refill max_packet_len cap packed used [] = []"
| "refill max_packet_len cap packed used (sp # sps) =
     (if \<not> packed then
        if max_packet_len < used + sp_wire_len sp then []
        else sp_payload sp # refill max_packet_len cap True (used + sp_wire_len sp) sps
      else if cap < used + sp_wire_len sp then refill max_packet_len cap packed used sps
      else sp_payload sp # refill max_packet_len cap True (used + sp_wire_len sp) sps)"

definition ranked :: "u32 \<Rightarrow> SentPayload list \<Rightarrow> SentPayload list" where
  "ranked building_seq sps = sort_key (\<lambda>sp. - int (unat (waiting_age sp building_seq))) sps"

definition choose_redundancy ::
    "window \<Rightarrow> nat \<Rightarrow> CarrySpacing option \<Rightarrow> u32 \<Rightarrow> nat \<Rightarrow> nat \<Rightarrow> nat \<Rightarrow> Payload list" where
  "choose_redundancy w wire_len spacing building_seq max_packet_len cap used =
     (if spacing = None \<and> fits_remaining cap used wire_len then map sp_payload (bm_values w)
      else
        let due = filter (\<lambda>sp. is_due sp spacing building_seq) (bm_values w);
            due_wire_len = sum_list (map sp_wire_len due)
        in if fits_remaining cap used due_wire_len then map sp_payload due
           else refill max_packet_len cap False used (ranked building_seq due))"

datatype PacketSeqExhausted = PacketSeqExhausted

definition build_outgoing ::
    "codec \<Rightarrow> AckManager \<Rightarrow> Payload option \<Rightarrow> nat \<Rightarrow> (PacketSeqExhausted + Packet) \<times> AckManager" where
  "build_outgoing c m payload max_packet_len =
     (case checked_add (am_packet_seq m) 1 of
        None \<Rightarrow> (Inl PacketSeqExhausted, m)
      | Some advanced \<Rightarrow>
          let header = outgoing_header m;
              fresh = fresh_payload payload;
              used = c_packet_len c header +
                (case fresh of None \<Rightarrow> 0 | Some (_, p) \<Rightarrow> payload_element_len c (c_payload_len c p));
              fresh_list = (case fresh of None \<Rightarrow> [] | Some (_, p) \<Rightarrow> [p]);
              cap = redundancy_cap (am_policy m) max_packet_len used;
              spacing = (if fresh \<noteq> None then rp_spacing (am_policy m) else None);
              (wire_len, m1) = refresh_wire_len (m\<lparr>am_packet_seq := advanced\<rparr>);
              redundancy = choose_redundancy (am_unacked_payloads m1) wire_len spacing
                (pk_seq header) max_packet_len cap used;
              packet = header\<lparr>pk_payloads := fresh_list @ redundancy\<rparr>;
              m2 = (case fresh of
                      None \<Rightarrow> m1
                    | Some (slot, p) \<Rightarrow>
                        insert_unacked m1 (slot, p_seq p)
                          \<lparr>sp_send_count = 0, sp_last_carried_packet_seq = None,
                           sp_registered_at_packet_seq = pk_seq header,
                           sp_wire_len = payload_element_len c (c_payload_len c p),
                           sp_payload = p\<rparr>)
          in (Inr packet, m2))"

fun record_carries ::
    "u32 \<Rightarrow> window \<Rightarrow> Payload list \<Rightarrow> (window \<times> (SlotId \<times> u64) list) option" where
  "record_carries packet_seq w [] = Some (w, [])"
| "record_carries packet_seq w (p # ps) =
     (case slot_try_from (p_slot p) of
        None \<Rightarrow> record_carries packet_seq w ps
      | Some raw \<Rightarrow> do {
          let key = (raw, p_seq p);
          w' \<leftarrow> (case map_of w key of
                 None \<Rightarrow> Some w
               | Some sent \<Rightarrow> do {
                   n \<leftarrow> checked_add (sp_send_count sent) 1;
                   Some (bm_update key (\<lambda>sp. sp\<lparr>sp_send_count := n,
                                                sp_last_carried_packet_seq := Some packet_seq\<rparr>) w)
                 });
          (w'', keys) \<leftarrow> record_carries packet_seq w' ps;
          Some (w'', key # keys)
        })"

definition record_sent :: "AckManager \<Rightarrow> Packet \<Rightarrow> AckManager option" where
  "record_sent m packet = do {
     (w, keys) \<leftarrow> record_carries (pk_seq packet) (am_unacked_payloads m) (pk_payloads packet);
     (_, sb) \<leftarrow> SequenceBuffer_insert SentPacket_default (am_sent_packets m) (ucast (pk_seq packet))
                  \<lparr>payload_slots_seqs = keys\<rparr>;
     Some (m\<lparr>am_unacked_payloads := w, am_sent_packets := sb\<rparr>)
   }"

definition reinject_unacked :: "codec \<Rightarrow> AckManager \<Rightarrow> Payload \<Rightarrow> AckManager" where
  "reinject_unacked c m p =
     (case slot_try_from (p_slot p) of
        None \<Rightarrow> m
      | Some raw \<Rightarrow>
          let key = (raw, p_seq p)
          in if map_of (am_unacked_payloads m) key = None then
               insert_unacked m key
                 \<lparr>sp_send_count = 0, sp_last_carried_packet_seq = None,
                  sp_registered_at_packet_seq = am_packet_seq m,
                  sp_wire_len = payload_element_len c (c_payload_len c p),
                  sp_payload = p\<rparr>
             else m)"

section \<open>Receiving\<close>

datatype AckError =
  AckAheadOfSent u32 u32
| AckBitsWithoutAck
| AckBitsOutOfRange u32 u32

definition remove_unacked :: "AckManager \<Rightarrow> SlotId \<times> u64 \<Rightarrow> AckManager" where
  "remove_unacked m key =
     (case map_of (am_unacked_payloads m) key of
        None \<Rightarrow> m
      | Some removed \<Rightarrow>
          m\<lparr>am_unacked_payloads := bm_remove key (am_unacked_payloads m),
            am_unacked_payload_wire_len :=
              map_option (\<lambda>t. t - sp_wire_len removed) (am_unacked_payload_wire_len m)\<rparr>)"

definition retire_packet :: "AckManager \<Rightarrow> u64 \<Rightarrow> AckManager option" where
  "retire_packet m packet_seq = do {
     (r, sb) \<leftarrow> SequenceBuffer_remove SentPacket_default (am_sent_packets m) packet_seq;
     let m' = m\<lparr>am_sent_packets := sb\<rparr>;
     Some (case r of
             None \<Rightarrow> m'
           | Some packet \<Rightarrow> fold (\<lambda>k m. remove_unacked m k) (payload_slots_seqs packet) m')
   }"

fun retire_acked_bits :: "AckManager \<Rightarrow> u64 \<Rightarrow> u32 \<Rightarrow> u64 list \<Rightarrow> AckManager option" where
  "retire_acked_bits m ack bits [] = Some m"
| "retire_acked_bits m ack bits (i # is) =
     (if ack < i then Some m
      else do {
        m' \<leftarrow> (if bits AND 1 = 1 then retire_packet m (ack - i) else Some m);
        retire_acked_bits m' ack (drop_bit 1 bits) is
      })"

definition check_acks :: "AckManager \<Rightarrow> Packet \<Rightarrow> AckError + unit" where
  "check_acks m incoming =
     (case pk_ack incoming of
        Some ack \<Rightarrow>
          if am_packet_seq m \<le> ack then Inl (AckAheadOfSent ack (am_packet_seq m))
          else if ack < 32 \<and> drop_bit (unat ack) (pk_ack_bits incoming) \<noteq> 0
          then Inl (AckBitsOutOfRange ack (pk_ack_bits incoming))
          else Inr ()
      | None \<Rightarrow> if pk_ack_bits incoming \<noteq> 0 then Inl AckBitsWithoutAck else Inr ())"

definition handle_incoming :: "AckManager \<Rightarrow> Packet \<Rightarrow> ((AckError + unit) \<times> AckManager) option" where
  "handle_incoming m incoming =
     (case check_acks m incoming of
        Inl e \<Rightarrow> Some (Inl e, m)
      | Inr _ \<Rightarrow>
          let m1 = m\<lparr>am_received_packets :=
                       ReceivedPacketHistory_record (am_received_packets m) (pk_seq incoming)\<rparr>
          in (case pk_ack incoming of
                None \<Rightarrow> Some (Inr (), m1)
              | Some ack32 \<Rightarrow> do {
                  let ack = ucast ack32;
                  m2 \<leftarrow> retire_packet m1 ack;
                  m3 \<leftarrow> retire_acked_bits m2 ack (pk_ack_bits incoming) (map of_nat [1..<33]);
                  Some (Inr (), m3)
                }))"

definition retire_payloads_through :: "AckManager \<Rightarrow> SlotId \<Rightarrow> u64 \<Rightarrow> nat \<times> AckManager" where
  "retire_payloads_through m slot through_seq =
     (let w = filter (\<lambda>((s, q), _). s \<noteq> slot \<or> through_seq < q) (am_unacked_payloads m);
          retired = length (am_unacked_payloads m) - length w
      in (retired,
          if 0 < retired then m\<lparr>am_unacked_payloads := w, am_unacked_payload_wire_len := None\<rparr>
          else m\<lparr>am_unacked_payloads := w\<rparr>))"

end
