(* ===== verification/Dedup.thy ===== *)
theory Dedup
  imports SeqPrefix AckManager "HOL-Library.Sublist"
begin

text \<open>
  Receive-side payload dedup, \<open>transport/src/link/dedup.rs\<close>: per slot a contiguous delivered prefix
  and the delivered numbers above it.  A \<open>HashMap\<close> is a partial map; where the code iterates one, the
  iteration order is an argument.  \<open>LinkError\<close> is \<open>transport/src/link/mod.rs\<close>; its type parameter
  stands for the error values of the QUIC stack and the protobuf decoder.

  \<open>dedup_seen\<close> is the set of \<open>(slot, seq)\<close> the state treats as delivered.  The gate contract
  \<open>forward_once\<close> is interpreted on \<open>accept\<close> for both modes, \<open>lossless_once\<close> for the strict one.
\<close>

datatype 'e LinkError =
  DatagramsUnsupported
| Connection 'e
| Send 'e
| PayloadTooLarge nat nat
| Decode 'e
| PayloadOutOfWindow SlotId u64
| MalformedSlot u32
| Ack AckError
| SeqExhausted PacketSeqExhausted

datatype Delivery = New | Duplicate | OutOfWindow

record SlotDedup =
  sd_delivered_through :: "u64 option"
  sd_ahead :: "u64 set"

record Dedup =
  dd_slots :: "SlotId \<rightharpoonup> SlotDedup"
  dd_retired_through :: "SlotId \<rightharpoonup> u64"
  dd_window :: u64
  dd_forward_collapse :: bool

definition RECEIVE_WINDOW :: u64 where
  "RECEIVE_WINDOW = 4096"

definition SlotDedup_empty :: SlotDedup where
  "SlotDedup_empty = \<lparr>sd_delivered_through = None, sd_ahead = {}\<rparr>"

definition SlotDedup_absorb_contiguous_run :: "SlotDedup \<Rightarrow> SlotDedup" where
  "SlotDedup_absorb_contiguous_run d =
     (let (through, ahead) = absorb_run (sd_delivered_through d) (sd_ahead d)
      in d\<lparr>sd_delivered_through := through, sd_ahead := ahead\<rparr>)"

definition advance_contiguous :: "SlotDedup \<Rightarrow> u64 \<Rightarrow> SlotDedup" where
  "advance_contiguous d s = SlotDedup_absorb_contiguous_run (d\<lparr>sd_delivered_through := Some s\<rparr>)"

definition collapse_forward_until_fits :: "SlotDedup \<Rightarrow> u64 \<Rightarrow> u64 \<Rightarrow> SlotDedup" where
  "collapse_forward_until_fits d s window =
     (let through = s - window
      in SlotDedup_absorb_contiguous_run
           (d\<lparr>sd_delivered_through := Some through, sd_ahead := {a \<in> sd_ahead d. through < a}\<rparr>))"

definition Dedup_with_window :: "u64 \<Rightarrow> Dedup" where
  "Dedup_with_window window =
     \<lparr>dd_slots = Map.empty, dd_retired_through = Map.empty, dd_window = window,
      dd_forward_collapse = False\<rparr>"

definition Dedup_new :: Dedup where
  "Dedup_new = Dedup_with_window RECEIVE_WINDOW"

definition Dedup_with_forward_collapse :: Dedup where
  "Dedup_with_forward_collapse = (Dedup_with_window RECEIVE_WINDOW)\<lparr>dd_forward_collapse := True\<rparr>"

definition Dedup_delivered_through :: "Dedup \<Rightarrow> SlotId \<Rightarrow> u64 option" where
  "Dedup_delivered_through d slot = Option.bind (dd_slots d slot) sd_delivered_through"

definition delivered_through_all :: "SlotId list \<Rightarrow> Dedup \<Rightarrow> (SlotId \<times> u64) list" where
  "delivered_through_all order d =
     List.map_filter (\<lambda>slot. map_option (\<lambda>cursor. (slot, cursor)) (Dedup_delivered_through d slot)) order"

definition slot_entry :: "Dedup \<Rightarrow> SlotId \<Rightarrow> SlotDedup" where
  "slot_entry d slot = (case dd_slots d slot of Some state \<Rightarrow> state | None \<Rightarrow> SlotDedup_empty)"

definition set_slot :: "Dedup \<Rightarrow> SlotId \<Rightarrow> SlotDedup \<Rightarrow> Dedup" where
  "set_slot d slot state = d\<lparr>dd_slots := (dd_slots d)(slot \<mapsto> state)\<rparr>"

definition accept_slot :: "u64 \<Rightarrow> bool \<Rightarrow> SlotDedup \<Rightarrow> u64 \<Rightarrow> Delivery \<times> SlotDedup" where
  "accept_slot window forward_collapse state s =
     (if in_prefix (sd_delivered_through state) s then (Duplicate, state)
      else
        let base = (case sd_delivered_through state of None \<Rightarrow> 0 | Some t \<Rightarrow> t + 1)
        in if window \<noteq> 0 \<and> s = base then (New, advance_contiguous state s)
           else if window \<le> s - base \<and> \<not> forward_collapse then (OutOfWindow, state)
           else
             let state' = (if window \<le> s - base then collapse_forward_until_fits state s window
                           else state)
             in if s \<in> sd_ahead state' then (Duplicate, state')
                else (New, SlotDedup_absorb_contiguous_run
                             (state'\<lparr>sd_ahead := insert s (sd_ahead state')\<rparr>)))"

definition accept :: "Dedup \<Rightarrow> SlotId \<Rightarrow> u64 \<Rightarrow> Delivery \<times> Dedup" where
  "accept d slot s =
     (let (r, state) = accept_slot (dd_window d) (dd_forward_collapse d) (slot_entry d slot) s
      in (r, set_slot d slot state))"

fun snapshot_sorted_payload_slots ::
    "Dedup \<Rightarrow> SlotId option \<Rightarrow> Payload list \<Rightarrow> (SlotId \<times> SlotDedup option) list" where
  "snapshot_sorted_payload_slots d previous [] = []"
| "snapshot_sorted_payload_slots d previous (p # ps) =
     (case slot_try_from (p_slot p) of
        None \<Rightarrow> snapshot_sorted_payload_slots d previous ps
      | Some slot \<Rightarrow>
          if previous = Some slot then snapshot_sorted_payload_slots d previous ps
          else (slot, dd_slots d slot) # snapshot_sorted_payload_slots d (Some slot) ps)"

definition restore :: "Dedup \<Rightarrow> (SlotId \<times> SlotDedup option) list \<Rightarrow> Dedup" where
  "restore d snapshot = fold (\<lambda>(slot, state) d. d\<lparr>dd_slots := (dd_slots d)(slot := state)\<rparr>) snapshot d"

fun retain_loop ::
    "Dedup \<Rightarrow> 'e LinkError option \<Rightarrow> Payload list \<Rightarrow> Payload list \<times> 'e LinkError option \<times> Dedup" where
  "retain_loop d failure [] = ([], failure, d)"
| "retain_loop d failure (p # ps) =
     (if failure \<noteq> None then retain_loop d failure ps
      else
        (case slot_try_from (p_slot p) of
           None \<Rightarrow> retain_loop d (Some (MalformedSlot (p_slot p))) ps
         | Some slot \<Rightarrow>
             (case accept d slot (p_seq p) of
                (New, d') \<Rightarrow>
                  (let (ps', failure', d'') = retain_loop d' failure ps in (p # ps', failure', d''))
              | (Duplicate, d') \<Rightarrow> retain_loop d' failure ps
              | (OutOfWindow, d') \<Rightarrow> retain_loop d' (Some (PayloadOutOfWindow slot (p_seq p))) ps)))"

definition retain_fresh_payloads ::
    "Dedup \<Rightarrow> Payload list \<Rightarrow> ('e LinkError + Payload list) \<times> Dedup" where
  "retain_fresh_payloads d payloads =
     (let sorted_payloads = sort_key (\<lambda>p. (p_slot p, p_seq p)) payloads;
          snapshot = snapshot_sorted_payload_slots d None sorted_payloads;
          (fresh, failure, d') = retain_loop d None sorted_payloads
      in (case failure of
            Some e \<Rightarrow> (Inl e, restore d' snapshot)
          | None \<Rightarrow> (Inr fresh, d')))"

definition mark_delivered :: "Dedup \<Rightarrow> SlotId \<Rightarrow> u64 \<Rightarrow> Dedup" where
  "mark_delivered d slot s =
     (let state = slot_entry d slot
      in set_slot d slot
           (case sd_delivered_through state of
              Some t \<Rightarrow>
                if s \<le> t then state
                else if s = t + 1 then advance_contiguous state s
                else state\<lparr>sd_ahead := insert s (sd_ahead state)\<rparr>
            | None \<Rightarrow>
                if s = 0 then advance_contiguous state 0
                else state\<lparr>sd_ahead := insert s (sd_ahead state)\<rparr>))"

definition mark_delivered_through :: "Dedup \<Rightarrow> SlotId \<Rightarrow> u64 \<Rightarrow> Dedup" where
  "mark_delivered_through d slot through =
     (let state = slot_entry d slot;
          state1 = (if \<not> in_prefix (sd_delivered_through state) through
                    then state\<lparr>sd_delivered_through := Some through\<rparr> else state);
          state2 = (case checked_add through 1 of
                      Some lower \<Rightarrow> state1\<lparr>sd_ahead := {a \<in> sd_ahead state1. lower \<le> a}\<rparr>
                    | None \<Rightarrow> state1\<lparr>sd_ahead := {}\<rparr>)
      in set_slot d slot (SlotDedup_absorb_contiguous_run state2))"

definition Dedup_anchor :: "Dedup \<Rightarrow> SlotId \<Rightarrow> u64 \<Rightarrow> Dedup" where
  "Dedup_anchor d slot anchor =
     (case checked_sub anchor 1 of
        None \<Rightarrow> d
      | Some prefix_top \<Rightarrow>
          let state = slot_entry d slot
          in set_slot d slot
               (if sd_delivered_through state = None \<and> sd_ahead state = {}
                then state\<lparr>sd_delivered_through := Some prefix_top\<rparr> else state))"

definition advance_retired_through :: "Dedup \<Rightarrow> SlotId \<Rightarrow> u64 \<Rightarrow> bool \<times> Dedup" where
  "advance_retired_through d slot through_seq =
     (case dd_retired_through d slot of
        Some prev \<Rightarrow>
          if through_seq \<le> prev then (False, d)
          else (True, d\<lparr>dd_retired_through := (dd_retired_through d)(slot \<mapsto> through_seq)\<rparr>)
      | None \<Rightarrow> (True, d\<lparr>dd_retired_through := (dd_retired_through d)(slot \<mapsto> through_seq)\<rparr>))"

section \<open>One slot\<close>

definition sd_seen :: "SlotDedup \<Rightarrow> u64 set" where
  "sd_seen st = taken (sd_delivered_through st) (sd_ahead st)"

definition sd_inv :: "SlotDedup \<Rightarrow> bool" where
  "sd_inv st \<longleftrightarrow> prefix_inv (sd_delivered_through st) (sd_ahead st) \<and>
     prefix_tight (sd_delivered_through st) (sd_ahead st)"

definition sd_window :: "nat \<Rightarrow> SlotDedup \<Rightarrow> bool" where
  "sd_window w st \<longleftrightarrow> prefix_window w (sd_delivered_through st) (sd_ahead st)"

lemma sd_empty [simp]: "sd_inv SlotDedup_empty" "sd_seen SlotDedup_empty = {}" "sd_window w SlotDedup_empty"
  by (simp_all add: sd_inv_def sd_seen_def sd_window_def SlotDedup_empty_def prefix_inv_def
      prefix_tight_def prefix_window_def taken_def)

lemma sd_absorb:
  assumes "prefix_inv (sd_delivered_through st) (sd_ahead st)"
  shows "sd_inv (SlotDedup_absorb_contiguous_run st)"
    and "sd_seen (SlotDedup_absorb_contiguous_run st) = sd_seen st"
    and "sd_ahead (SlotDedup_absorb_contiguous_run st) \<subseteq> sd_ahead st"
    and "in_prefix (sd_delivered_through st) x \<Longrightarrow>
      in_prefix (sd_delivered_through (SlotDedup_absorb_contiguous_run st)) x"
    and "sd_window w st \<Longrightarrow> sd_window w (SlotDedup_absorb_contiguous_run st)"
proof -
  obtain t a where run: "absorb_run (sd_delivered_through st) (sd_ahead st) = (t, a)"
    by force
  note spec = absorb_run_spec [OF assms run]
  show "sd_inv (SlotDedup_absorb_contiguous_run st)"
    and "sd_seen (SlotDedup_absorb_contiguous_run st) = sd_seen st"
    and "sd_ahead (SlotDedup_absorb_contiguous_run st) \<subseteq> sd_ahead st"
    and "in_prefix (sd_delivered_through st) x \<Longrightarrow>
      in_prefix (sd_delivered_through (SlotDedup_absorb_contiguous_run st)) x"
    using spec by (simp_all add: SlotDedup_absorb_contiguous_run_def run sd_inv_def sd_seen_def)
  show "sd_window w st \<Longrightarrow> sd_window w (SlotDedup_absorb_contiguous_run st)"
    using prefix_window_grow [OF _ spec(4,5)]
    by (simp add: SlotDedup_absorb_contiguous_run_def run sd_window_def)
qed

lemma base_of_prefix:
  assumes "\<not> in_prefix through s"
  shows "prefix_base through = Some (case through of None \<Rightarrow> 0 | Some t \<Rightarrow> t + 1)"
    and "(case through of None \<Rightarrow> 0 | Some t \<Rightarrow> t + 1) \<le> s"
proof -
  obtain b where "prefix_base through = Some b" "b \<le> s"
    using prefix_base_exists [OF assms] by blast
  then show "prefix_base through = Some (case through of None \<Rightarrow> 0 | Some t \<Rightarrow> t + 1)"
    and "(case through of None \<Rightarrow> 0 | Some t \<Rightarrow> t + 1) \<le> s"
    by (auto simp: prefix_base_def checked_add_one split: option.splits if_splits)
qed

lemma advance_contiguous_spec:
  assumes "sd_inv st" and "prefix_base (sd_delivered_through st) = Some s"
  shows "sd_inv (advance_contiguous st s)" and "sd_seen (advance_contiguous st s) = insert s (sd_seen st)"
    and "s \<notin> sd_seen st" and "sd_window w st \<Longrightarrow> sd_window w (advance_contiguous st s)"
proof -
  let ?st = "st\<lparr>sd_delivered_through := Some s\<rparr>"
  have inv: "prefix_inv (sd_delivered_through ?st) (sd_ahead ?st)"
    using taken_base_step(2) [OF assms(2)] assms(1) by (simp add: sd_inv_def)
  show "sd_inv (advance_contiguous st s)"
    unfolding advance_contiguous_def by (rule sd_absorb(1) [OF inv])
  show "sd_seen (advance_contiguous st s) = insert s (sd_seen st)"
    unfolding advance_contiguous_def sd_absorb(2) [OF inv]
    using taken_base_step(3) [OF assms(2)] assms(1) by (simp add: sd_inv_def sd_seen_def)
  show "s \<notin> sd_seen st"
    using assms prefix_base_not_in_prefix [OF assms(2)]
    by (simp add: sd_seen_def taken_def sd_inv_def prefix_tight_def)
  assume "sd_window w st"
  then have "sd_window w ?st"
    using prefix_window_grow [of w "sd_delivered_through st" "sd_ahead st" "sd_ahead st" "Some s"]
      prefix_base_Some(2) [OF assms(2)] by (simp add: sd_window_def)
  then show "sd_window w (advance_contiguous st s)"
    unfolding advance_contiguous_def by (rule sd_absorb(5) [OF inv])
qed

lemma insert_ahead_spec:
  assumes "sd_inv st" and "s \<notin> sd_seen st"
  shows "sd_inv (SlotDedup_absorb_contiguous_run (st\<lparr>sd_ahead := insert s (sd_ahead st)\<rparr>))"
    and "sd_seen (SlotDedup_absorb_contiguous_run (st\<lparr>sd_ahead := insert s (sd_ahead st)\<rparr>)) =
      insert s (sd_seen st)"
    and "sd_window w st \<Longrightarrow> (\<And>b. prefix_base (sd_delivered_through st) = Some b \<Longrightarrow> unat s < unat b + w) \<Longrightarrow>
      sd_window w (SlotDedup_absorb_contiguous_run (st\<lparr>sd_ahead := insert s (sd_ahead st)\<rparr>))"
proof -
  let ?st = "st\<lparr>sd_ahead := insert s (sd_ahead st)\<rparr>"
  have inv: "prefix_inv (sd_delivered_through ?st) (sd_ahead ?st)"
    using assms by (simp add: sd_inv_def sd_seen_def taken_def prefix_inv_insert)
  show "sd_inv (SlotDedup_absorb_contiguous_run ?st)"
    by (rule sd_absorb(1) [OF inv])
  show "sd_seen (SlotDedup_absorb_contiguous_run ?st) = insert s (sd_seen st)"
    unfolding sd_absorb(2) [OF inv] by (simp add: sd_seen_def taken_insert)
  assume "sd_window w st" and "\<And>b. prefix_base (sd_delivered_through st) = Some b \<Longrightarrow> unat s < unat b + w"
  then have "sd_window w ?st"
    by (simp add: sd_window_def prefix_window_def)
  then show "sd_window w (SlotDedup_absorb_contiguous_run ?st)"
    by (rule sd_absorb(5) [OF inv])
qed

lemma collapse_spec:
  assumes "sd_inv st" and "sd_window (unat w) st" and "w \<noteq> 0"
    and "prefix_base (sd_delivered_through st) = Some b" and "b \<le> s" and "w \<le> s - b"
  shows "sd_inv (collapse_forward_until_fits st s w)"
    and "sd_seen st \<subseteq> sd_seen (collapse_forward_until_fits st s w)"
    and "s \<notin> sd_seen (collapse_forward_until_fits st s w)"
    and "sd_window (unat w) (collapse_forward_until_fits st s w)"
    and "prefix_base (sd_delivered_through (collapse_forward_until_fits st s w)) = Some b' \<Longrightarrow>
      unat s < unat b' + unat w"
    and "x \<in> sd_seen (collapse_forward_until_fits st s w) \<Longrightarrow> x \<in> sd_seen st \<or> unat x + unat w \<le> unat s"
proof -
  define th where "th = s - w"
  let ?st = "st\<lparr>sd_delivered_through := Some th, sd_ahead := {a \<in> sd_ahead st. th < a}\<rparr>"
  have st': "collapse_forward_until_fits st s w = SlotDedup_absorb_contiguous_run ?st"
    by (simp add: collapse_forward_until_fits_def th_def Let_def)
  have "unat w \<le> unat s - unat b"
    using assms(5,6) by (simp add: word_arith unat_sub)
  moreover have "0 < unat w"
    using assms(3) by (simp add: unat_gt_0)
  ultimately have arith: "unat w \<le> unat s" "unat b + unat w \<le> unat s" "0 < unat w"
    using assms(5) by (auto simp: word_arith)
  then have th: "unat th = unat s - unat w"
    by (simp add: th_def unat_sub word_arith)
  have old: "in_prefix (sd_delivered_through st) x \<Longrightarrow> x \<le> th" for x
    using prefix_base_Some(1) [OF assms(4)] arith th by (auto simp: word_arith)
  have within: "unat a < unat s" if "a \<in> sd_ahead st" for a
    using assms(2,4) that arith by (auto simp: sd_window_def prefix_window_def)
  have inv: "prefix_inv (sd_delivered_through ?st) (sd_ahead ?st)"
    using assms(1) by (auto simp: sd_inv_def prefix_inv_def)
  have seen: "sd_seen (collapse_forward_until_fits st s w) = {x. x \<le> th} \<union> sd_ahead st"
    unfolding st' sd_absorb(2) [OF inv] by (auto simp: sd_seen_def taken_def)
  show "sd_inv (collapse_forward_until_fits st s w)"
    unfolding st' by (rule sd_absorb(1) [OF inv])
  show "sd_seen st \<subseteq> sd_seen (collapse_forward_until_fits st s w)"
    unfolding seen using old by (auto simp: sd_seen_def taken_def)
  show "s \<notin> sd_seen (collapse_forward_until_fits st s w)"
    unfolding seen using within [of s] arith th by (auto simp: word_arith)
  have grow: "in_prefix (sd_delivered_through (collapse_forward_until_fits st s w)) x" if "x \<le> th" for x
    unfolding st' using sd_absorb(4) [OF inv, of x] that by simp
  show near: "unat s < unat b' + unat w"
    if "prefix_base (sd_delivered_through (collapse_forward_until_fits st s w)) = Some b'" for b'
  proof -
    have "\<not> b' \<le> th"
      using grow [of b'] prefix_base_not_in_prefix [OF that] by blast
    then show ?thesis
      using th arith by (auto simp: word_arith)
  qed
  show "sd_window (unat w) (collapse_forward_until_fits st s w)"
    unfolding sd_window_def prefix_window_def
    using near within sd_absorb(3) [OF inv] unfolding st' by fastforce
  show "x \<in> sd_seen st \<or> unat x + unat w \<le> unat s"
    if "x \<in> sd_seen (collapse_forward_until_fits st s w)"
    using that arith th unfolding seen by (auto simp: sd_seen_def taken_def word_arith)
qed

definition slot_accepts :: "u64 \<Rightarrow> bool \<Rightarrow> SlotDedup \<Rightarrow> u64 \<Rightarrow> bool" where
  "slot_accepts w fc st s \<longleftrightarrow>
     fc \<or> (\<forall>b. prefix_base (sd_delivered_through st) = Some b \<longrightarrow> unat s < unat b + unat w)"

lemma accept_slot_spec:
  assumes "sd_inv st" and "w \<noteq> 0" and "fc \<Longrightarrow> sd_window (unat w) st"
    and "accept_slot w fc st s = (r, st')"
  shows "sd_inv st' \<and> sd_seen st \<subseteq> sd_seen st' \<and> (fc \<longrightarrow> sd_window (unat w) st') \<and>
    r = (if s \<in> sd_seen st \<and> (in_prefix (sd_delivered_through st) s \<or> slot_accepts w fc st s) then Duplicate
         else if slot_accepts w fc st s then New else OutOfWindow) \<and>
    (r = New \<longrightarrow> s \<in> sd_seen st') \<and> (r \<noteq> New \<longrightarrow> st' = st) \<and>
    (\<not> fc \<longrightarrow> sd_seen st' = (if r = New then insert s (sd_seen st) else sd_seen st)) \<and>
    (\<forall>x \<in> sd_seen st'. x \<in> sd_seen st \<or> x = s \<or> unat x + unat w \<le> unat s)"
proof (cases "in_prefix (sd_delivered_through st) s")
  case True
  then show ?thesis
    using assms by (auto simp: accept_slot_def sd_seen_def taken_def)
next
  case False
  let ?b = "case sd_delivered_through st of None \<Rightarrow> 0 | Some t \<Rightarrow> t + 1"
  note b = base_of_prefix [OF False]
  have w: "0 < unat w"
    using assms(2) by (simp add: unat_gt_0)
  have far: "w \<le> s - ?b \<longleftrightarrow> unat ?b + unat w \<le> unat s"
    using b(2) by (auto simp: word_arith unat_sub)
  have acc: "slot_accepts w fc st s \<longleftrightarrow> fc \<or> \<not> w \<le> s - ?b"
    using far b(1) by (auto simp: slot_accepts_def)
  consider (base) "s = ?b" | (refuse) "s \<noteq> ?b" "w \<le> s - ?b" "\<not> fc"
    | (collapse) "s \<noteq> ?b" "w \<le> s - ?b" "fc" | (near) "s \<noteq> ?b" "\<not> w \<le> s - ?b"
    by blast
  then show ?thesis
  proof cases
    case base
    then have pb: "prefix_base (sd_delivered_through st) = Some s"
      using b(1) by simp
    have "r = New" "st' = advance_contiguous st s"
      using assms(2,4) False base by (simp_all add: accept_slot_def)
    moreover have "slot_accepts w fc st s"
      using pb w by (simp add: slot_accepts_def)
    ultimately show ?thesis
      using advance_contiguous_spec [OF assms(1) pb] assms(3) by auto
  next
    case refuse
    then have "r = OutOfWindow" "st' = st"
      using assms(2,4) False by (simp_all add: accept_slot_def Let_def)
    then show ?thesis
      using assms(1) False refuse acc by auto
  next
    case collapse
    let ?c = "collapse_forward_until_fits st s w"
    note c = collapse_spec [OF assms(1) assms(3) [OF collapse(3)] assms(2) b collapse(2)]
    have "s \<notin> sd_ahead ?c"
      using c(3) by (auto simp: sd_seen_def taken_def)
    then have "r = New" "st' = SlotDedup_absorb_contiguous_run (?c\<lparr>sd_ahead := insert s (sd_ahead ?c)\<rparr>)"
      using assms(2,4) False collapse by (simp_all add: accept_slot_def Let_def)
    then show ?thesis
      using insert_ahead_spec [OF c(1,3)] c(2,4,5) c(3) collapse(3) acc by (auto dest: c(6))
  next
    case near
    show ?thesis
    proof (cases "s \<in> sd_ahead st")
      case True
      then have "r = Duplicate" "st' = st"
        using assms(2,4) False near by (simp_all add: accept_slot_def Let_def)
      then show ?thesis
        using assms(1,3) True near acc by (auto simp: sd_seen_def taken_def)
    next
      case notin: False
      then have "r = New" "st' = SlotDedup_absorb_contiguous_run (st\<lparr>sd_ahead := insert s (sd_ahead st)\<rparr>)"
        using assms(2,4) False near by (simp_all add: accept_slot_def Let_def)
      moreover have new: "s \<notin> sd_seen st"
        using notin False by (simp add: sd_seen_def taken_def)
      moreover have "unat s < unat b' + unat w" if "prefix_base (sd_delivered_through st) = Some b'" for b'
        using that b(1) near(2) far by simp
      ultimately show ?thesis
        using insert_ahead_spec [OF assms(1) new] assms(3) near acc by auto
    qed
  qed
qed

section \<open>The whole dedup state\<close>

definition dd_inv :: "Dedup \<Rightarrow> bool" where
  "dd_inv d \<longleftrightarrow> dd_window d \<noteq> 0 \<and> (\<forall>slot. sd_inv (slot_entry d slot)) \<and>
     (dd_forward_collapse d \<longrightarrow> (\<forall>slot. sd_window (unat (dd_window d)) (slot_entry d slot)))"

definition dedup_seen :: "Dedup \<Rightarrow> (SlotId \<times> u64) set" where
  "dedup_seen d = {(slot, s). s \<in> sd_seen (slot_entry d slot)}"

definition dedup_offer :: "Dedup \<Rightarrow> SlotId \<times> u64 \<Rightarrow> bool \<times> Dedup" where
  "dedup_offer d k = (fst (accept d (fst k) (snd k)) = New, snd (accept d (fst k) (snd k)))"

definition dedup_accepts :: "Dedup \<Rightarrow> SlotId \<times> u64 \<Rightarrow> bool" where
  "dedup_accepts d k = slot_accepts (dd_window d) (dd_forward_collapse d) (slot_entry d (fst k)) (snd k)"

definition strict_inv :: "Dedup \<Rightarrow> bool" where
  "strict_inv d \<longleftrightarrow> dd_inv d \<and> \<not> dd_forward_collapse d"

lemma slot_entry_set [simp]:
  "slot_entry (set_slot d slot st) slot' = (if slot' = slot then st else slot_entry d slot')"
  by (simp add: slot_entry_def set_slot_def)

lemma set_slot_fields [simp]:
  "dd_window (set_slot d slot st) = dd_window d"
  "dd_forward_collapse (set_slot d slot st) = dd_forward_collapse d"
  "dd_retired_through (set_slot d slot st) = dd_retired_through d"
  by (simp_all add: set_slot_def)

lemma accept_spec:
  assumes "dd_inv d" and "accept d slot s = (r, d')"
  shows "dd_inv d'" and "dedup_seen d \<subseteq> dedup_seen d'"
    and "dd_forward_collapse d' = dd_forward_collapse d" and "dd_window d' = dd_window d"
    and "r = New \<Longrightarrow> (slot, s) \<notin> dedup_seen d \<and> (slot, s) \<in> dedup_seen d'"
    and "r = Duplicate \<Longrightarrow> (slot, s) \<in> dedup_seen d"
    and "r = OutOfWindow \<Longrightarrow> \<not> dedup_accepts d (slot, s)"
    and "r \<noteq> New \<Longrightarrow> dedup_seen d' = dedup_seen d"
    and "\<not> dd_forward_collapse d \<Longrightarrow>
      dedup_seen d' = (if r = New then insert (slot, s) (dedup_seen d) else dedup_seen d)"
    and "dedup_accepts d (slot, s) \<Longrightarrow> (slot, s) \<notin> dedup_seen d \<Longrightarrow> r = New"
    and "(slot', x) \<in> dedup_seen d' \<Longrightarrow> (slot', x) \<in> dedup_seen d \<or>
      slot' = slot \<and> (x = s \<or> unat x + unat (dd_window d) \<le> unat s)"
proof -
  obtain st' where acc: "accept_slot (dd_window d) (dd_forward_collapse d) (slot_entry d slot) s = (r, st')"
    and d': "d' = set_slot d slot st'"
    using assms(2) by (auto simp: accept_def Let_def split: prod.splits)
  have "sd_inv (slot_entry d slot)" "dd_window d \<noteq> 0"
    and "dd_forward_collapse d \<Longrightarrow> sd_window (unat (dd_window d)) (slot_entry d slot)"
    using assms(1) by (simp_all add: dd_inv_def)
  note spec = accept_slot_spec [OF this(1,2,3) acc]
  have sd: "sd_inv st'" "dd_forward_collapse d \<Longrightarrow> sd_window (unat (dd_window d)) st'"
    and mono: "sd_seen (slot_entry d slot) \<subseteq> sd_seen st'"
    and r: "r = (if s \<in> sd_seen (slot_entry d slot) \<and>
                 (in_prefix (sd_delivered_through (slot_entry d slot)) s \<or> dedup_accepts d (slot, s)) then Duplicate
               else if dedup_accepts d (slot, s) then New else OutOfWindow)"
    and new: "r = New \<Longrightarrow> s \<in> sd_seen st'" and same: "r \<noteq> New \<Longrightarrow> st' = slot_entry d slot"
    and exact: "\<not> dd_forward_collapse d \<Longrightarrow> sd_seen st' =
      (if r = New then insert s (sd_seen (slot_entry d slot)) else sd_seen (slot_entry d slot))"
    and far: "\<And>x. x \<in> sd_seen st' \<Longrightarrow>
      x \<in> sd_seen (slot_entry d slot) \<or> x = s \<or> unat x + unat (dd_window d) \<le> unat s"
    using spec unfolding dedup_accepts_def fst_conv snd_conv by blast+
  show "dd_inv d'" "dd_forward_collapse d' = dd_forward_collapse d" "dd_window d' = dd_window d"
    using assms(1) sd by (simp_all add: dd_inv_def d')
  show "dedup_seen d \<subseteq> dedup_seen d'"
    using mono by (auto simp: dedup_seen_def d')
  show "r = New \<Longrightarrow> (slot, s) \<notin> dedup_seen d \<and> (slot, s) \<in> dedup_seen d'"
    using r new by (auto simp: dedup_seen_def d' split: if_splits)
  show "r = Duplicate \<Longrightarrow> (slot, s) \<in> dedup_seen d"
    using r by (auto simp: dedup_seen_def split: if_splits)
  show "r = OutOfWindow \<Longrightarrow> \<not> dedup_accepts d (slot, s)"
    using r by (auto split: if_splits)
  show "r \<noteq> New \<Longrightarrow> dedup_seen d' = dedup_seen d"
    using same by (auto simp: dedup_seen_def d' split: if_splits)
  show "\<not> dd_forward_collapse d \<Longrightarrow>
      dedup_seen d' = (if r = New then insert (slot, s) (dedup_seen d) else dedup_seen d)"
    using exact by (auto simp: dedup_seen_def d' split: if_splits)
  show "dedup_accepts d (slot, s) \<Longrightarrow> (slot, s) \<notin> dedup_seen d \<Longrightarrow> r = New"
    using r by (simp add: dedup_seen_def)
  show "(slot', x) \<in> dedup_seen d' \<Longrightarrow> (slot', x) \<in> dedup_seen d \<or>
      slot' = slot \<and> (x = s \<or> unat x + unat (dd_window d) \<le> unat s)"
    using far by (auto simp: dedup_seen_def d' split: if_splits)
qed

lemma dedup_offer_accept:
  "dedup_offer d k = (new, d') \<longleftrightarrow>
    (\<exists>r. accept d (fst k) (snd k) = (r, d') \<and> (new \<longleftrightarrow> r = New))"
  by (cases "accept d (fst k) (snd k)") (auto simp: dedup_offer_def)

interpretation dd: forward_once dedup_offer dedup_seen dd_inv
proof unfold_locales
  fix d k new d'
  assume inv: "dd_inv d" and "dedup_offer d k = (new, d')"
  then obtain r where acc: "accept d (fst k) (snd k) = (r, d')"
    by (auto simp: dedup_offer_accept)
  show "dd_inv d'" "dedup_seen d \<subseteq> dedup_seen d'"
    using accept_spec(1,2) [OF inv acc] by simp_all
next
  fix d k d'
  assume inv: "dd_inv d" and "dedup_offer d k = (True, d')"
  then have acc: "accept d (fst k) (snd k) = (New, d')"
    by (auto simp: dedup_offer_accept)
  show "k \<notin> dedup_seen d" "k \<in> dedup_seen d'"
    using accept_spec(5) [OF inv acc] by simp_all
qed

interpretation dds: lossless_once dedup_offer dedup_seen strict_inv dedup_accepts
proof unfold_locales
  fix d k new d'
  assume inv: "strict_inv d"
  then have dd: "dd_inv d" and strict: "\<not> dd_forward_collapse d"
    by (simp_all add: strict_inv_def)
  show "fst (dedup_offer d k)" if "dedup_accepts d k" "k \<notin> dedup_seen d"
    using that accept_spec(10) [OF dd, of "fst k" "snd k"]
    by (cases "accept d (fst k) (snd k)") (simp add: dedup_offer_def)
  assume "dedup_offer d k = (new, d')"
  then obtain r where acc: "accept d (fst k) (snd k) = (r, d')" and new: "new \<longleftrightarrow> r = New"
    by (auto simp: dedup_offer_accept)
  note spec = accept_spec [OF dd acc]
  show "strict_inv d'"
    using spec(1,3) strict by (simp add: strict_inv_def)
  show "dedup_seen d' = (if new then insert k (dedup_seen d) else dedup_seen d)"
    using spec(9) strict new by simp
  show "dedup_seen d \<subseteq> dedup_seen d'"
    by (rule spec(2))
next
  fix d k d'
  assume "strict_inv d" and "dedup_offer d k = (True, d')"
  then show "k \<notin> dedup_seen d" "k \<in> dedup_seen d'"
    using dd.new_unseen [of d k d'] dd.new_seen [of d k d'] by (simp_all add: strict_inv_def)
qed

lemma dd_inv_new:
  "w \<noteq> 0 \<Longrightarrow> strict_inv (Dedup_with_window w)" "strict_inv Dedup_new" "dd_inv Dedup_with_forward_collapse"
  "dedup_seen (Dedup_with_window w) = {}" "dedup_seen Dedup_new = {}" "dedup_seen Dedup_with_forward_collapse = {}"
  by (simp_all add: strict_inv_def dd_inv_def Dedup_new_def Dedup_with_window_def Dedup_with_forward_collapse_def
      slot_entry_def RECEIVE_WINDOW_def dedup_seen_def)

section \<open>Batches\<close>

lemma accept_slots_other:
  "accept d slot s = (r, d') \<Longrightarrow> dd_slots d' x = dd_slots d x \<or> x = slot"
  by (auto simp: accept_def set_slot_def Let_def split: prod.splits)

lemma accept_fields:
  "accept d slot s = (r, d') \<Longrightarrow> dd_retired_through d' = dd_retired_through d \<and> dd_window d' = dd_window d \<and>
    dd_forward_collapse d' = dd_forward_collapse d"
  by (auto simp: accept_def Let_def split: prod.splits)

lemma retain_loop_failed [simp]: "retain_loop d (Some e) ps = ([], Some e, d)"
  by (induction ps) simp_all

lemma retain_loop_Cons:
  assumes "retain_loop d None (p # ps) = (fresh, failure, d')"
  obtains (malformed) "slot_try_from (p_slot p) = None" "failure = Some (MalformedSlot (p_slot p))" "d' = d"
  | (new) slot d1 fresh1 where "slot_try_from (p_slot p) = Some slot" "accept d slot (p_seq p) = (New, d1)"
      "retain_loop d1 None ps = (fresh1, failure, d')" "fresh = p # fresh1"
  | (dup) slot d1 where "slot_try_from (p_slot p) = Some slot" "accept d slot (p_seq p) = (Duplicate, d1)"
      "retain_loop d1 None ps = (fresh, failure, d')"
  | (out) slot where "slot_try_from (p_slot p) = Some slot" "accept d slot (p_seq p) = (OutOfWindow, d')"
      "failure = Some (PayloadOutOfWindow slot (p_seq p))"
proof (cases "slot_try_from (p_slot p)")
  case None
  then show ?thesis
    using assms malformed by simp
next
  case (Some slot)
  obtain r d1 where acc: "accept d slot (p_seq p) = (r, d1)"
    by force
  show ?thesis
  proof (cases r)
    case New
    then show ?thesis
      using assms Some acc new by (auto split: prod.splits)
  next
    case Duplicate
    then show ?thesis
      using assms Some acc dup by simp
  next
    case OutOfWindow
    then show ?thesis
      using assms Some acc out by simp
  qed
qed

lemma retain_loop_touched:
  "retain_loop d None ps = (fresh, failure, d') \<Longrightarrow>
    (dd_slots d' x = dd_slots d x \<or> (\<exists>p \<in> set ps. slot_try_from (p_slot p) = Some x)) \<and>
    dd_retired_through d' = dd_retired_through d \<and> dd_window d' = dd_window d \<and>
    dd_forward_collapse d' = dd_forward_collapse d"
proof (induction ps arbitrary: d fresh)
  case (Cons p ps)
  from Cons.prems show ?case
  proof (cases rule: retain_loop_Cons)
    case (new slot d1 fresh1)
    then show ?thesis
      using Cons.IH [OF new(3)] accept_slots_other [OF new(2), of x] accept_fields [OF new(2)] by auto
  next
    case (dup slot d1)
    then show ?thesis
      using Cons.IH [OF dup(3)] accept_slots_other [OF dup(2), of x] accept_fields [OF dup(2)] by auto
  next
    case (out slot)
    then show ?thesis
      using accept_slots_other [OF out(2), of x] accept_fields [OF out(2)] by auto
  qed simp
qed simp

text \<open>A batch that does not fail offers its keys to the gate one by one.\<close>

lemma retain_loop_offers:
  "retain_loop d None ps = (fresh, None, d') \<Longrightarrow>
    offer_run dedup_offer d (List.map_filter payload_key ps) = (List.map_filter payload_key fresh, d') \<and>
    (\<forall>p \<in> set ps. payload_key p \<noteq> None) \<and> subseq fresh ps"
proof (induction ps arbitrary: d fresh)
  case (Cons p ps)
  from Cons.prems show ?case
  proof (cases rule: retain_loop_Cons)
    case (new slot d1 fresh1)
    then show ?thesis
      using Cons.IH [OF new(3)] by (simp add: map_filter_simps payload_key_def dedup_offer_def)
  next
    case (dup slot d1)
    then show ?thesis
      using Cons.IH [OF dup(3)] list_emb_Cons [of "(=)" fresh ps p]
      by (simp add: map_filter_simps payload_key_def dedup_offer_def)
  qed simp_all
qed (simp add: map_filter_simps)

lemma snapshot_entries:
  "(slot, st) \<in> set (snapshot_sorted_payload_slots d previous ps) \<Longrightarrow> st = dd_slots d slot"
  by (induction d previous ps rule: snapshot_sorted_payload_slots.induct)
    (auto split: option.splits if_splits)

lemma snapshot_complete:
  "p \<in> set ps \<Longrightarrow> slot_try_from (p_slot p) = Some slot \<Longrightarrow>
    previous = Some slot \<or> slot \<in> fst ` set (snapshot_sorted_payload_slots d previous ps)"
  by (induction d previous ps rule: snapshot_sorted_payload_slots.induct)
    (auto split: option.splits if_splits)

lemma restore_slots:
  "(\<And>slot st. (slot, st) \<in> set snap \<Longrightarrow> st = m slot) \<Longrightarrow>
    restore d snap = d\<lparr>dd_slots := (\<lambda>slot. if slot \<in> fst ` set snap then m slot else dd_slots d slot)\<rparr>"
proof (induction snap arbitrary: d)
  case (Cons a snap)
  obtain slot st where a: "a = (slot, st)"
    by force
  have "st = m slot"
    using Cons.prems a by simp
  moreover have "restore (d\<lparr>dd_slots := (dd_slots d)(slot := st)\<rparr>) snap =
      (d\<lparr>dd_slots := (dd_slots d)(slot := st)\<rparr>)
        \<lparr>dd_slots := (\<lambda>x. if x \<in> fst ` set snap then m x else ((dd_slots d)(slot := st)) x)\<rparr>"
    using Cons.IH [of "d\<lparr>dd_slots := (dd_slots d)(slot := st)\<rparr>"] Cons.prems a by (simp cong: if_cong)
  moreover have "(\<lambda>x. if x \<in> fst ` set snap then m x else ((dd_slots d)(slot := st)) x) =
      (\<lambda>x. if x \<in> fst ` set (a # snap) then m x else dd_slots d x)"
    using calculation(1) unfolding a by (auto simp: fun_eq_iff)
  ultimately show ?case
    unfolding a restore_def by simp
qed (simp add: restore_def)

lemma retain_rollback:
  assumes "retain_fresh_payloads d ps = (Inl e, d')"
  shows "d' = d"
proof -
  let ?s = "sort_key (\<lambda>p. (p_slot p, p_seq p)) ps"
  let ?snap = "snapshot_sorted_payload_slots d None ?s"
  obtain fresh d1 where loop: "retain_loop d None ?s = (fresh, Some e, d1)" and d': "d' = restore d1 ?snap"
    using assms by (auto simp: retain_fresh_payloads_def Let_def split: prod.splits option.splits)
  have touched: "dd_slots d1 x = dd_slots d x \<or> x \<in> fst ` set ?snap" for x
    using retain_loop_touched [OF loop, of x] snapshot_complete [of _ ?s x None d] by auto
  have fields: "dd_retired_through d1 = dd_retired_through d" "dd_window d1 = dd_window d"
      "dd_forward_collapse d1 = dd_forward_collapse d"
    using retain_loop_touched [OF loop] by auto
  have "d' = d1\<lparr>dd_slots := (\<lambda>slot. if slot \<in> fst ` set ?snap then dd_slots d slot else dd_slots d1 slot)\<rparr>"
    unfolding d' by (rule restore_slots) (rule snapshot_entries)
  also have "(\<lambda>slot. if slot \<in> fst ` set ?snap then dd_slots d slot else dd_slots d1 slot) = dd_slots d"
    using touched by (auto simp: fun_eq_iff)
  finally show ?thesis
    using fields by (cases d, cases d1) simp
qed

lemma retain_Inr:
  assumes "(retain_fresh_payloads d ps :: ('e LinkError + Payload list) \<times> Dedup) = (Inr fresh, d')"
  shows "offer_run dedup_offer d (List.map_filter payload_key (sort_key (\<lambda>p. (p_slot p, p_seq p)) ps)) =
      (List.map_filter payload_key fresh, d')"
    and "\<And>p. p \<in> set ps \<Longrightarrow> payload_key p \<noteq> None"
    and "subseq fresh (sort_key (\<lambda>p. (p_slot p, p_seq p)) ps)"
proof -
  have loop: "retain_loop d (None :: 'e LinkError option) (sort_key (\<lambda>p. (p_slot p, p_seq p)) ps) =
      (fresh, None, d')"
    using assms by (auto simp: retain_fresh_payloads_def Let_def split: prod.splits option.splits)
  show "offer_run dedup_offer d (List.map_filter payload_key (sort_key (\<lambda>p. (p_slot p, p_seq p)) ps)) =
      (List.map_filter payload_key fresh, d')"
    and "\<And>p. p \<in> set ps \<Longrightarrow> payload_key p \<noteq> None"
    and "subseq fresh (sort_key (\<lambda>p. (p_slot p, p_seq p)) ps)"
    using retain_loop_offers [OF loop] by auto
qed

text \<open>The keys of a batch, and a run of batches: a refused batch delivers nothing.\<close>

definition payload_keys :: "Payload list \<Rightarrow> (SlotId \<times> u64) list" where
  "payload_keys ps = List.map_filter payload_key ps"

primrec deliver_batches :: "Dedup \<Rightarrow> Payload list list \<Rightarrow> Payload list \<times> Dedup" where
  "deliver_batches d [] = ([], d)"
| "deliver_batches d (b # bs) =
     (case retain_fresh_payloads d b of
        (Inl (e :: unit LinkError), d') \<Rightarrow> deliver_batches d' bs
      | (Inr fresh, d') \<Rightarrow> (let (rest, d'') = deliver_batches d' bs in (fresh @ rest, d'')))"

lemma payload_keys_simps [simp]:
  "payload_keys [] = []" "payload_keys (xs @ ys) = payload_keys xs @ payload_keys ys"
  by (simp_all add: payload_keys_def map_filter_simps List.map_filter_def)

lemma set_payload_keys: "set (payload_keys ps) = {k. \<exists>p \<in> set ps. payload_key p = Some k}"
  by (force simp: payload_keys_def List.map_filter_def)

lemma offer_run_append:
  "offer_run offer s (xs @ ys) =
    (let (ds, s') = offer_run offer s xs; (es, s'') = offer_run offer s' ys in (ds @ es, s''))"
  by (induction xs arbitrary: s) (auto simp: Let_def split: prod.split)

lemma deliver_batches_offers:
  "deliver_batches d bs = (out, d') \<Longrightarrow>
    \<exists>ks. offer_run dedup_offer d ks = (payload_keys out, d') \<and> set ks \<subseteq> set (payload_keys (concat bs))"
proof (induction bs arbitrary: d out)
  case Nil
  then show ?case
    by (auto intro!: exI [of _ "[]"])
next
  case (Cons b bs)
  obtain r d1 where step: "(retain_fresh_payloads d b :: (unit LinkError + _) \<times> _) = (r, d1)"
    by force
  show ?case
  proof (cases r)
    case (Inl e)
    then have "deliver_batches d bs = (out, d')"
      using Cons.prems step retain_rollback [of d b e d1] by auto
    then show ?thesis
      using Cons.IH by fastforce
  next
    case (Inr fresh)
    obtain rest where rest: "deliver_batches d1 bs = (rest, d')" "out = fresh @ rest"
      using Cons.prems step Inr by (auto split: prod.splits)
    obtain ks where ks: "offer_run dedup_offer d1 ks = (payload_keys rest, d')"
        "set ks \<subseteq> set (payload_keys (concat bs))"
      using Cons.IH [OF rest(1)] by blast
    let ?ks = "payload_keys (sort_key (\<lambda>p. (p_slot p, p_seq p)) b) @ ks"
    have "offer_run dedup_offer d ?ks = (payload_keys out, d')"
      using retain_Inr(1) [OF step [unfolded Inr]] ks(1) rest(2)
      by (simp add: offer_run_append flip: payload_keys_def)
    moreover have "set ?ks \<subseteq> set (payload_keys (concat (b # bs)))"
      using ks(2) by (auto simp: set_payload_keys)
    ultimately show ?thesis
      by blast
  qed
qed

lemma retain_refused:
  assumes "dd_inv d" and "retain_loop d None ps = (fresh, Some e, d')"
  shows "(\<exists>p \<in> set ps. slot_try_from (p_slot p) = None \<and> e = MalformedSlot (p_slot p)) \<or>
    (\<exists>p \<in> set ps. \<exists>slot. slot_try_from (p_slot p) = Some slot \<and> e = PayloadOutOfWindow slot (p_seq p) \<and>
       \<not> dd_forward_collapse d)"
  using assms
proof (induction ps arbitrary: d fresh)
  case (Cons p ps)
  from Cons.prems(2) show ?case
  proof (cases rule: retain_loop_Cons)
    case (new slot d1 fresh1)
    then show ?thesis
      using Cons.IH [OF accept_spec(1) [OF Cons.prems(1) new(2)] new(3)] accept_fields [OF new(2)] by auto
  next
    case (dup slot d1)
    then show ?thesis
      using Cons.IH [OF accept_spec(1) [OF Cons.prems(1) dup(2)] dup(3)] accept_fields [OF dup(2)] by auto
  next
    case (out slot)
    then have "\<not> dd_forward_collapse d"
      using accept_spec(7) [OF Cons.prems(1) out(2)] by (auto simp: dedup_accepts_def slot_accepts_def)
    then show ?thesis
      using out by auto
  qed simp
qed simp

lemma retain_loop_error:
  "retain_loop d None ps = (fresh, Some e, d') \<Longrightarrow> (\<exists>s. e = MalformedSlot s) \<or> (\<exists>slot s. e = PayloadOutOfWindow slot s)"
proof (induction ps arbitrary: d fresh)
  case (Cons p ps)
  from Cons.prems show ?case
    by (cases rule: retain_loop_Cons) (auto dest: Cons.IH)
qed simp

lemma retain_error_kind:
  assumes "retain_fresh_payloads d ps = (Inl e, d')"
  shows "(\<exists>s. e = MalformedSlot s) \<or> (\<exists>slot s. e = PayloadOutOfWindow slot s)"
proof -
  obtain fresh d1 where "retain_loop d None (sort_key (\<lambda>p. (p_slot p, p_seq p)) ps) = (fresh, Some e, d1)"
    using assms by (auto simp: retain_fresh_payloads_def Let_def split: prod.splits option.splits)
  then show ?thesis
    by (rule retain_loop_error)
qed

text \<open>What a strict gate has taken after a batch it does not refuse.\<close>

lemma strict_run_takes:
  "strict_inv d \<Longrightarrow> retain_loop d None ps = (fresh, None, d') \<Longrightarrow>
    set (payload_keys ps) \<subseteq> dedup_seen d'"
proof (induction ps arbitrary: d fresh)
  case (Cons p ps)
  have inv: "dd_inv d" "\<not> dd_forward_collapse d"
    using Cons.prems(1) by (simp_all add: strict_inv_def)
  from Cons.prems(2) show ?case
  proof (cases rule: retain_loop_Cons)
    case (new slot d1 fresh1)
    then have "strict_inv d1"
      using inv accept_spec(1,3) [OF inv(1) new(2)] by (simp add: strict_inv_def)
    moreover have "dedup_seen d1 \<subseteq> dedup_seen d'"
      using dd.run_once [OF accept_spec(1) [OF inv(1) new(2)]] retain_loop_offers [of d1 ps fresh1 d'] new(3)
      by (metis Un_subset_iff)
    ultimately show ?thesis
      using Cons.IH [of d1 fresh1] new accept_spec(5) [OF inv(1) new(2)]
      by (auto simp: set_payload_keys payload_key_def)
  next
    case (dup slot d1)
    then have "strict_inv d1"
      using inv accept_spec(1,3) [OF inv(1) dup(2)] by (simp add: strict_inv_def)
    moreover have "dedup_seen d1 \<subseteq> dedup_seen d'"
      using dd.run_once [OF accept_spec(1) [OF inv(1) dup(2)]] retain_loop_offers [of d1 ps fresh d'] dup(3)
      by (metis Un_subset_iff)
    ultimately show ?thesis
      using Cons.IH [of d1 fresh] dup accept_spec(2,6) [OF inv(1) dup(2)]
      by (auto simp: set_payload_keys payload_key_def)
  qed simp_all
qed (simp add: payload_keys_def map_filter_simps)

lemma collapse_offers_skip:
  "dd_inv d \<Longrightarrow> offer_run dedup_offer d ks = (ds, d') \<Longrightarrow> (slot, x) \<in> dedup_seen d' \<Longrightarrow>
    (slot, x) \<in> dedup_seen d \<or> (slot, x) \<in> set ds \<or>
    (\<exists>s. (slot, s) \<in> set ds \<and> unat x + unat (dd_window d) \<le> unat s)"
proof (induction ks arbitrary: d ds)
  case (Cons k ks)
  obtain r d1 where acc: "accept d (fst k) (snd k) = (r, d1)"
    by force
  then have offer: "dedup_offer d k = (r = New, d1)"
    by (simp add: dedup_offer_def)
  obtain es where rest: "offer_run dedup_offer d1 ks = (es, d')" and ds: "ds = (if r = New then k # es else es)"
    using Cons.prems(2) offer by (auto simp: Let_def split: prod.splits)
  note spec = accept_spec [OF Cons.prems(1) acc]
  have "(slot, x) \<in> dedup_seen d1 \<or> (slot, x) \<in> set es \<or>
      (\<exists>s. (slot, s) \<in> set es \<and> unat x + unat (dd_window d) \<le> unat s)"
    using Cons.IH [OF spec(1) rest Cons.prems(3)] spec(4) by simp
  moreover have "(slot, x) \<in> dedup_seen d \<or> r = New \<and> slot = fst k \<and>
      (x = snd k \<or> unat x + unat (dd_window d) \<le> unat (snd k))" if "(slot, x) \<in> dedup_seen d1"
    using spec(8,11) that by blast
  ultimately show ?case
    unfolding ds by (cases k) auto
qed simp

end
