(* ===== verification/DedupProperties.thy ===== *)
theory DedupProperties
  imports Dedup
begin

text \<open>
  What \<open>transport/src/link/dedup.rs\<close> promises: exactly-once delivery over any run of batches in both
  modes, transactional batches, exactness of the strict mode, the bound on what the collapsing mode
  may skip, and the effect of the seeds a resumed link plants.
\<close>

section \<open>Seeding a resumed link\<close>

lemma strict_set_slot:
  assumes "strict_inv d" and "sd_inv st"
  shows "strict_inv (set_slot d slot st)"
  using assms by (simp add: strict_inv_def dd_inv_def)

lemma seen_set_slot:
  "dedup_seen (set_slot d slot st) = {k \<in> dedup_seen d. fst k \<noteq> slot} \<union> Pair slot ` sd_seen st"
  by (auto simp: dedup_seen_def split: if_splits)

lemma sd_inv_insert_far:
  assumes "sd_inv st" and "\<not> in_prefix (sd_delivered_through st) s"
    and "prefix_base (sd_delivered_through st) \<noteq> Some s"
  shows "sd_inv (st\<lparr>sd_ahead := insert s (sd_ahead st)\<rparr>)"
    and "sd_seen (st\<lparr>sd_ahead := insert s (sd_ahead st)\<rparr>) = insert s (sd_seen st)"
  using assms by (auto simp: sd_inv_def prefix_inv_insert prefix_tight_def sd_seen_def taken_insert)

lemma mark_delivered_cases:
  "mark_delivered d slot s = set_slot d slot
     (let st = slot_entry d slot
      in if in_prefix (sd_delivered_through st) s then st
         else if prefix_base (sd_delivered_through st) = Some s then advance_contiguous st s
         else st\<lparr>sd_ahead := insert s (sd_ahead st)\<rparr>)"
proof -
  have "checked_add t 1 = Some s \<longleftrightarrow> s = t + 1" if "\<not> s \<le> t" for t :: u64
    using that by (auto simp: checked_add_one)
  then show ?thesis
    by (auto simp: mark_delivered_def Let_def prefix_base_def split: option.split)
qed

lemma mark_delivered_spec:
  assumes "strict_inv d"
  shows "strict_inv (mark_delivered d slot s)"
    and "dedup_seen (mark_delivered d slot s) = insert (slot, s) (dedup_seen d)"
proof -
  define st where "st = slot_entry d slot"
  define st' where "st' = (if in_prefix (sd_delivered_through st) s then st
         else if prefix_base (sd_delivered_through st) = Some s then advance_contiguous st s
         else st\<lparr>sd_ahead := insert s (sd_ahead st)\<rparr>)"
  have inv: "sd_inv st"
    using assms by (simp add: st_def strict_inv_def dd_inv_def)
  have eq: "mark_delivered d slot s = set_slot d slot st'"
    by (simp add: mark_delivered_cases st'_def st_def Let_def)
  have st': "sd_inv st' \<and> sd_seen st' = insert s (sd_seen st)"
  proof (cases "in_prefix (sd_delivered_through st) s")
    case True
    then show ?thesis
      using inv by (auto simp: st'_def sd_seen_def taken_def)
  next
    case False
    then show ?thesis
      using inv sd_inv_insert_far [OF inv False] advance_contiguous_spec(1,2) [OF inv, of s]
      by (simp add: st'_def)
  qed
  then show "strict_inv (mark_delivered d slot s)"
    using assms by (simp add: eq strict_set_slot)
  show "dedup_seen (mark_delivered d slot s) = insert (slot, s) (dedup_seen d)"
    using st' by (auto simp: eq dedup_seen_def st_def split: if_splits)
qed

lemma mark_delivered_through_spec:
  assumes "strict_inv d"
  shows "strict_inv (mark_delivered_through d slot t)"
    and "dedup_seen (mark_delivered_through d slot t) = dedup_seen d \<union> {(slot, s) | s. s \<le> t}"
proof -
  define st where "st = slot_entry d slot"
  define st1 where "st1 = (if \<not> in_prefix (sd_delivered_through st) t
                    then st\<lparr>sd_delivered_through := Some t\<rparr> else st)"
  define st2 where "st2 = (case checked_add t 1 of
                      Some lower \<Rightarrow> st1\<lparr>sd_ahead := {a \<in> sd_ahead st1. lower \<le> a}\<rparr>
                    | None \<Rightarrow> st1\<lparr>sd_ahead := {}\<rparr>)"
  have inv: "prefix_inv (sd_delivered_through st) (sd_ahead st)"
    using assms by (simp add: st_def strict_inv_def dd_inv_def sd_inv_def)
  have lower: "lower \<le> a \<longleftrightarrow> t < a" if "checked_add t 1 = Some lower" for lower a
    using checked_add_one_less(3) [OF that, of a] by (auto simp: not_le)
  have none: "a \<le> t" if "checked_add t 1 = None" for a
    using checked_add_one_None that by blast
  have ahead: "sd_ahead st2 = {a \<in> sd_ahead st. t < a}"
    using lower none by (auto simp: st2_def st1_def not_less split: option.split)
  have through: "sd_delivered_through st2 =
      (if in_prefix (sd_delivered_through st) t then sd_delivered_through st else Some t)"
    by (simp add: st2_def st1_def split: option.split)
  have mono: "in_prefix (sd_delivered_through st) t \<Longrightarrow> s \<le> t \<Longrightarrow> in_prefix (sd_delivered_through st) s"
    and old: "\<not> in_prefix (sd_delivered_through st) t \<Longrightarrow> in_prefix (sd_delivered_through st) s \<Longrightarrow> s \<le> t" for s
    by (auto simp: in_prefix_def split: option.splits)
  have inv2: "prefix_inv (sd_delivered_through st2) (sd_ahead st2)"
    using inv unfolding ahead through by (auto simp: prefix_inv_def)
  have seen: "sd_seen st2 = sd_seen st \<union> {s. s \<le> t}"
  proof (cases "in_prefix (sd_delivered_through st) t")
    case True
    then have "t < s" if "\<not> in_prefix (sd_delivered_through st) s" for s
      using mono [OF True, of s] that linorder_not_le [of s t] by blast
    then show ?thesis
      using True mono [OF True] unfolding sd_seen_def taken_def ahead through by auto
  next
    case False
    then show ?thesis
      using old [OF False] unfolding sd_seen_def taken_def ahead through by auto
  qed
  have eq: "mark_delivered_through d slot t = set_slot d slot (SlotDedup_absorb_contiguous_run st2)"
    unfolding mark_delivered_through_def st2_def st1_def st_def Let_def by (rule refl)
  show "strict_inv (mark_delivered_through d slot t)"
    unfolding eq by (rule strict_set_slot [OF assms sd_absorb(1) [OF inv2]])
  show "dedup_seen (mark_delivered_through d slot t) = dedup_seen d \<union> {(slot, s) | s. s \<le> t}"
    using sd_absorb(2) [OF inv2] seen by (auto simp: eq dedup_seen_def st_def split: if_splits)
qed

lemma Dedup_anchor_spec:
  assumes "dd_inv d"
  shows "dd_inv (Dedup_anchor d slot a)"
    and "dedup_seen (Dedup_anchor d slot a) = dedup_seen d \<union>
      (if sd_seen (slot_entry d slot) = {} then {(slot, s) | s. s < a} else {})"
proof -
  let ?st = "slot_entry d slot"
  have empty: "sd_seen ?st = {} \<longleftrightarrow> sd_delivered_through ?st = None \<and> sd_ahead ?st = {}"
    by (cases "sd_delivered_through ?st") (auto simp: sd_seen_def taken_def)
  show "dd_inv (Dedup_anchor d slot a)"
    using assms by (auto simp: Dedup_anchor_def Let_def dd_inv_def sd_inv_def sd_window_def prefix_inv_def
        prefix_tight_def prefix_window_def split: option.split)
  have zero: "checked_sub a 1 = None \<longleftrightarrow> a = 0"
    by (simp add: checked_sub_None unat_eq_zero)
  have le: "s \<le> a - 1 \<longleftrightarrow> s < a" if "a \<noteq> 0" for s
    using unat_minus_one [OF that] that by (auto simp: word_arith unat_eq_zero [symmetric])
  show "dedup_seen (Dedup_anchor d slot a) = dedup_seen d \<union>
      (if sd_seen ?st = {} then {(slot, s) | s. s < a} else {})"
  proof (cases "checked_sub a 1")
    case None
    then show ?thesis
      using zero by (simp add: Dedup_anchor_def)
  next
    case (Some p)
    then have a: "a \<noteq> 0"
      using zero by auto
    have p: "p = a - 1"
      using Some by (simp add: checked_sub_def split: if_splits)
    show ?thesis
    proof (cases "sd_seen ?st = {}")
      case True
      then have "sd_seen (?st\<lparr>sd_delivered_through := Some p\<rparr>) = {s. s < a}"
        unfolding sd_seen_def taken_def using empty le [OF a] p by auto
      moreover have "Dedup_anchor d slot a = set_slot d slot (?st\<lparr>sd_delivered_through := Some p\<rparr>)"
        using Some True empty by (simp add: Dedup_anchor_def Let_def)
      ultimately show ?thesis
        using True by (auto simp: dedup_seen_def split: if_splits)
    next
      case False
      then have "Dedup_anchor d slot a = set_slot d slot ?st"
        using Some empty by (auto simp: Dedup_anchor_def Let_def)
      then show ?thesis
        using False by (auto simp: dedup_seen_def split: if_splits)
    qed
  qed
qed

lemma strict_loop_exact:
  assumes "strict_inv d" and "(retain_fresh_payloads d ps :: ('e LinkError + _) \<times> _) = (Inr fresh, d')"
  shows "dedup_seen d' = dedup_seen d \<union> set (payload_keys ps) \<and>
    set (payload_keys fresh) = set (payload_keys ps) - dedup_seen d \<and> strict_inv d'"
proof -
  let ?s = "sort_key (\<lambda>p. (p_slot p, p_seq p)) ps"
  have loop: "retain_loop d (None :: 'e LinkError option) ?s = (fresh, None, d')"
    using assms(2) by (auto simp: retain_fresh_payloads_def Let_def split: prod.splits option.splits)
  have offers: "offer_run dedup_offer d (payload_keys ?s) = (payload_keys fresh, d')"
    using retain_Inr(1) [OF assms(2)] by (simp add: payload_keys_def)
  have keys: "set (payload_keys ?s) = set (payload_keys ps)"
    by (simp add: set_payload_keys)
  show ?thesis
    using dds.run_once [OF assms(1) offers] dds.run_exact [OF assms(1) offers]
      strict_run_takes [OF assms(1) loop] unfolding keys by blast
qed

section \<open>Properties\<close>

definition probe_payload :: "u32 \<Rightarrow> u64 \<Rightarrow> Payload" where
  "probe_payload slot s =
     \<lparr>p_seq = s, p_slot = slot, p_commands = [], p_game_frame_count = None, p_sync_generation = None,
      p_buffer_directive = None, p_state_hash = None\<rparr>"

definition probe_batches :: "Payload list list" where
  "probe_batches = [[probe_payload 1 2, probe_payload 1 0, probe_payload 1 2],
     [probe_payload 1 0, probe_payload 300 0], [probe_payload 1 1]]"

text \<open>C2: Over any run of datagram batches, refused ones included, in the strict and in the collapsing
  mode, no payload key is delivered twice, none that was delivered or seeded before is delivered again,
  and everything delivered is recorded as delivered.\<close>

theorem dedup_exactly_once:
  assumes "dd_inv d" and "deliver_batches d bs = (out, d')"
  shows "distinct (payload_keys out) \<and> set (payload_keys out) \<inter> dedup_seen d = {} \<and>
    set (payload_keys out) \<subseteq> set (payload_keys (concat bs)) \<and>
    dedup_seen d \<union> set (payload_keys out) \<subseteq> dedup_seen d' \<and> dd_inv d'"
proof -
  obtain ks where ks: "offer_run dedup_offer d ks = (payload_keys out, d')"
      "set ks \<subseteq> set (payload_keys (concat bs))"
    using deliver_batches_offers [OF assms(2)] by (elim exE conjE)
  show ?thesis
    using dd.run_once [OF assms(1) ks(1)] ks(2) by auto
qed

theorem dedup_exactly_once_witness:
  "distinct (payload_keys (fst (deliver_batches Dedup_new probe_batches))) \<and>
   payload_keys (fst (deliver_batches Dedup_new probe_batches)) = [(1, 0), (1, 2), (1, 1)]"
proof
  have inv: "dd_inv Dedup_new"
    using dd_inv_new(2) by (simp add: strict_inv_def)
  show "distinct (payload_keys (fst (deliver_batches Dedup_new probe_batches)))"
    using dedup_exactly_once [OF inv prod.collapse [symmetric], of probe_batches] by blast
  show "payload_keys (fst (deliver_batches Dedup_new probe_batches)) = [(1, 0), (1, 2), (1, 1)]"
    by code_simp
qed

text \<open>C20: A batch is transactional.  When it is refused the dedup state is left exactly as it was, and the
  error names a payload of the batch: one with a malformed slot, or, only in the strict mode, one beyond
  the receive window.  When it is taken, the fresh payloads are a subsequence of the batch in
  slot-and-sequence order.\<close>

theorem retain_fresh_payloads_transactional:
  assumes "dd_inv d" and "retain_fresh_payloads d ps = (r, d')"
  shows "case r of
    Inl e \<Rightarrow> d' = d \<and>
      (\<exists>p \<in> set ps. payload_key p = None \<and> e = MalformedSlot (p_slot p) \<or>
        \<not> dd_forward_collapse d \<and> (\<exists>slot. payload_key p = Some (slot, p_seq p) \<and>
           e = PayloadOutOfWindow slot (p_seq p)))
  | Inr fresh \<Rightarrow> subseq fresh (sort_key (\<lambda>p. (p_slot p, p_seq p)) ps) \<and>
      (\<forall>p \<in> set ps. payload_key p \<noteq> None)"
proof (cases r)
  case (Inl e)
  then obtain fresh d1 where loop:
      "retain_loop d None (sort_key (\<lambda>p. (p_slot p, p_seq p)) ps) = (fresh, Some e, d1)"
    using assms(2) by (auto simp: retain_fresh_payloads_def Let_def split: prod.splits option.splits)
  have "\<exists>p \<in> set ps. payload_key p = None \<and> e = MalformedSlot (p_slot p) \<or>
        \<not> dd_forward_collapse d \<and> (\<exists>slot. payload_key p = Some (slot, p_seq p) \<and>
           e = PayloadOutOfWindow slot (p_seq p))"
    using retain_refused [OF assms(1) loop] by (auto simp: payload_key_def)
  then show ?thesis
    using retain_rollback [OF assms(2) [unfolded Inl]] Inl by simp
next
  case (Inr fresh)
  then show ?thesis
    using retain_Inr(2,3) [OF assms(2) [unfolded Inr]] by simp
qed

theorem retain_fresh_payloads_transactional_witness:
  "case fst (retain_fresh_payloads Dedup_new [probe_payload 1 0, probe_payload 300 0] :: (unit LinkError + _) \<times> _) of
     Inl e \<Rightarrow> snd (retain_fresh_payloads Dedup_new [probe_payload 1 0, probe_payload 300 0] :: (unit LinkError + _) \<times> _)
       = Dedup_new
   | Inr fresh \<Rightarrow> subseq fresh (sort_key (\<lambda>p. (p_slot p, p_seq p)) [probe_payload 1 0, probe_payload 300 0])"
  using retain_fresh_payloads_transactional
    [of Dedup_new "[probe_payload 1 0, probe_payload 300 0]", OF _ prod.collapse [symmetric], where 'a = unit]
    dd_inv_new(2)
  by (auto simp: strict_inv_def split: sum.splits)

text \<open>The strict mode is exact: a batch it takes leaves as delivered precisely what was delivered
  before together with the keys of the batch, and the fresh payloads are precisely the keys of the batch
  not delivered before.\<close>

theorem strict_retain_exact:
  assumes "strict_inv d" and "(retain_fresh_payloads d ps :: ('e LinkError + _) \<times> _) = (Inr fresh, d')"
  shows "dedup_seen d' = dedup_seen d \<union> set (payload_keys ps) \<and>
    set (payload_keys fresh) = set (payload_keys ps) - dedup_seen d \<and> strict_inv d'"
  using assms by (rule strict_loop_exact)

theorem strict_retain_exact_witness:
  "dedup_seen (snd (retain_fresh_payloads Dedup_new [probe_payload 1 0, probe_payload 1 2] :: (unit LinkError + _) \<times> _)) =
     dedup_seen Dedup_new \<union> set (payload_keys [probe_payload 1 0, probe_payload 1 2])"
proof -
  let ?r = "retain_fresh_payloads Dedup_new [probe_payload 1 0, probe_payload 1 2] :: (unit LinkError + _) \<times> _"
  have "fst ?r = Inr [probe_payload 1 0, probe_payload 1 2]"
    by code_simp
  then have eq: "?r = (Inr [probe_payload 1 0, probe_payload 1 2], snd ?r)"
    by (simp add: prod_eq_iff)
  show ?thesis
    using strict_retain_exact [OF dd_inv_new(2) eq] by blast
qed

text \<open>The collapsing mode never refuses a well-formed batch, and a number it counts as delivered
  without having delivered it lies at least a whole receive window behind a number of the same slot that
  was delivered in the run.\<close>

theorem collapse_mode_total:
  assumes "dd_inv d" and "dd_forward_collapse d"
  shows "((\<forall>p \<in> set ps. payload_key p \<noteq> None) \<longrightarrow>
      (\<exists>fresh d'. (retain_fresh_payloads d ps :: ('e LinkError + _) \<times> _) = (Inr fresh, d'))) \<and>
    (deliver_batches d bs = (out, d') \<and> (slot, x) \<in> dedup_seen d' - dedup_seen d - set (payload_keys out) \<longrightarrow>
      (\<exists>s. (slot, s) \<in> set (payload_keys out) \<and> unat x + unat (dd_window d) \<le> unat s))"
proof (intro conjI impI)
  assume ok: "\<forall>p \<in> set ps. payload_key p \<noteq> None"
  obtain r d' where r: "(retain_fresh_payloads d ps :: ('e LinkError + _) \<times> _) = (r, d')"
    by force
  show "\<exists>fresh d'. (retain_fresh_payloads d ps :: ('e LinkError + _) \<times> _) = (Inr fresh, d')"
  proof (cases r)
    case (Inl e)
    then obtain fresh d1 where
      "retain_loop d None (sort_key (\<lambda>p. (p_slot p, p_seq p)) ps) = (fresh, Some e, d1)"
      using r by (auto simp: retain_fresh_payloads_def Let_def split: prod.splits option.splits)
    from retain_refused [OF assms(1) this] show ?thesis
      using ok assms(2) by (auto simp: payload_key_def)
  qed (use r in blast)
next
  assume "deliver_batches d bs = (out, d') \<and> (slot, x) \<in> dedup_seen d' - dedup_seen d - set (payload_keys out)"
  then have run: "deliver_batches d bs = (out, d')"
    and x: "(slot, x) \<in> dedup_seen d' - dedup_seen d - set (payload_keys out)"
    by blast+
  obtain ks where "offer_run dedup_offer d ks = (payload_keys out, d')"
    using deliver_batches_offers [OF run] by blast
  from collapse_offers_skip [OF assms(1) this, of slot x] x
  show "\<exists>s. (slot, s) \<in> set (payload_keys out) \<and> unat x + unat (dd_window d) \<le> unat s"
    by blast
qed

theorem collapse_mode_total_witness:
  "\<exists>fresh d'. (retain_fresh_payloads Dedup_with_forward_collapse [probe_payload 1 9000, probe_payload 1 3]
      :: (unit LinkError + _) \<times> _) = (Inr fresh, d')"
  using collapse_mode_total [of Dedup_with_forward_collapse "[probe_payload 1 9000, probe_payload 1 3]",
      where 'e = unit] dd_inv_new(3)
  by (simp add: Dedup_with_forward_collapse_def probe_payload_def payload_key_def slot_try_from_def)

text \<open>The seeds a resumed strict link plants add exactly the numbers they name: one number, every
  number through a cursor, or, for a slot with no history, every number below an anchor.\<close>

theorem dedup_seeds_exact:
  assumes "strict_inv d"
  shows "strict_inv (mark_delivered d slot s) \<and> strict_inv (mark_delivered_through d slot s) \<and>
    strict_inv (Dedup_anchor d slot s) \<and>
    dedup_seen (mark_delivered d slot s) = insert (slot, s) (dedup_seen d) \<and>
    dedup_seen (mark_delivered_through d slot s) = dedup_seen d \<union> {(slot, x) | x. x \<le> s} \<and>
    dedup_seen (Dedup_anchor d slot s) = dedup_seen d \<union>
      (if slot \<in> fst ` dedup_seen d then {} else {(slot, x) | x. x < s})"
proof -
  have "dd_inv d"
    using assms by (simp add: strict_inv_def)
  moreover have "dd_forward_collapse (Dedup_anchor d slot s) = dd_forward_collapse d"
    by (simp add: Dedup_anchor_def Let_def split: option.split)
  moreover have "sd_seen (slot_entry d slot) = {} \<longleftrightarrow> slot \<notin> fst ` dedup_seen d"
    by (force simp: dedup_seen_def)
  ultimately show ?thesis
    using assms mark_delivered_spec [OF assms] mark_delivered_through_spec [OF assms]
      Dedup_anchor_spec [of d slot s]
    by (simp add: strict_inv_def)
qed

theorem dedup_seeds_exact_witness:
  "dedup_seen (mark_delivered Dedup_new 1 5) = {(1, 5)} \<and>
   dedup_seen (Dedup_anchor Dedup_new 1 5) = {(1, x) | x. x < 5}"
  using dedup_seeds_exact [OF dd_inv_new(2), of 1 5] by (simp add: dd_inv_new)

end
