(* ===== verification/AckWindow.thy ===== *)
theory AckWindow
  imports AckManager
begin

text \<open>
  The invariant of the ack manager and its receive side: what an incoming packet and a reliable cursor
  retire from the unacked window.
\<close>

definition window_len :: "AckManager \<Rightarrow> nat" where
  "window_len m = bm_sum sp_wire_len (am_unacked_payloads m)"

definition window_entry_ok :: "codec \<Rightarrow> (SlotId \<times> u64) \<times> SentPayload \<Rightarrow> bool" where
  "window_entry_ok c e \<longleftrightarrow>
     payload_key (sp_payload (snd e)) = Some (fst e) \<and>
     sp_wire_len (snd e) = element_len c (sp_payload (snd e))"

definition am_wf :: "codec \<Rightarrow> AckManager \<Rightarrow> bool" where
  "am_wf c m \<longleftrightarrow>
     bm_wf (am_unacked_payloads m) \<and>
     (\<forall>e \<in> set (am_unacked_payloads m). window_entry_ok c e) \<and>
     window_len m \<le> usize_max \<and>
     (\<forall>t. am_unacked_payload_wire_len m = Some t \<longrightarrow> t = window_len m) \<and>
     sb_wf (am_sent_packets m) \<and> sb_cap (am_sent_packets m) = SENT_PACKETS_SIZE \<and>
     unat (sb_sequence (am_sent_packets m)) \<le> unat (am_packet_seq m)"

lemma am_wfD:
  assumes "am_wf c m"
  shows "bm_wf (am_unacked_payloads m)"
    and "e \<in> set (am_unacked_payloads m) \<Longrightarrow> window_entry_ok c e"
    and "window_len m \<le> usize_max"
    and "am_unacked_payload_wire_len m = Some t \<Longrightarrow> t = window_len m"
    and "sb_wf (am_sent_packets m)"
    and "sb_cap (am_sent_packets m) = SENT_PACKETS_SIZE"
    and "unat (sb_sequence (am_sent_packets m)) \<le> unat (am_packet_seq m)"
  using assms by (auto simp: am_wf_def)

lemma am_wf_with_policy: "am_wf c (AckManager_with_policy policy)"
  by (auto simp: am_wf_def AckManager_with_policy_def window_len_def SENT_PACKETS_SIZE_def
      with_capacity_wf)
    (auto simp: SequenceBuffer_with_capacity_def sb_cap_def)

section \<open>Single-entry changes of the window\<close>

lemma insert_unacked_window:
  "am_unacked_payloads (insert_unacked m k sp) = bm_insert k sp (am_unacked_payloads m)"
  by (simp add: insert_unacked_def Let_def)

lemma insert_unacked_frame [simp]:
  "am_packet_seq (insert_unacked m k sp) = am_packet_seq m"
  "am_sent_packets (insert_unacked m k sp) = am_sent_packets m"
  "am_received_packets (insert_unacked m k sp) = am_received_packets m"
  "am_policy (insert_unacked m k sp) = am_policy m"
  "am_turns_complete (insert_unacked m k sp) = am_turns_complete m"
  by (simp_all add: insert_unacked_def Let_def)

lemma window_len_insert:
  assumes "bm_wf (am_unacked_payloads m)"
  shows "window_len (insert_unacked m k sp) +
      (case map_of (am_unacked_payloads m) k of None \<Rightarrow> 0 | Some old \<Rightarrow> sp_wire_len old) =
    sp_wire_len sp + window_len m"
  using assms
  by (simp add: window_len_def insert_unacked_window bm_sum_insert_new bm_sum_insert_replace
      split: option.split)

lemma am_wf_insert_unacked:
  assumes "am_wf c m" and "window_entry_ok c (k, sp)"
    and "window_len m + sp_wire_len sp \<le> usize_max"
  shows "am_wf c (insert_unacked m k sp)"
proof -
  note wf = am_wfD [OF assms(1)]
  note len = window_len_insert [OF wf(1), of k sp]
  have "sp_wire_len old \<le> window_len m" if "map_of (am_unacked_payloads m) k = Some old" for old
    unfolding window_len_def using that by (intro bm_sum_member) (auto dest: map_of_SomeD)
  then have "\<forall>t. am_unacked_payload_wire_len (insert_unacked m k sp) = Some t \<longrightarrow>
      t = window_len (insert_unacked m k sp)"
    using len wf(4) assms(3)
    by (auto simp: insert_unacked_def Let_def usize_saturating_add_def split: option.splits)
  then show ?thesis
    using wf assms(2,3) len
    by (auto simp: am_wf_def insert_unacked_window set_bm_insert)
qed

lemma remove_unacked_window:
  "am_unacked_payloads (remove_unacked m k) = bm_remove k (am_unacked_payloads m)"
  by (simp add: remove_unacked_def bm_remove_absent split: option.split)

lemma remove_unacked_frame [simp]:
  "am_packet_seq (remove_unacked m k) = am_packet_seq m"
  "am_sent_packets (remove_unacked m k) = am_sent_packets m"
  "am_received_packets (remove_unacked m k) = am_received_packets m"
  "am_policy (remove_unacked m k) = am_policy m"
  "am_turns_complete (remove_unacked m k) = am_turns_complete m"
  by (simp_all add: remove_unacked_def split: option.split)

lemma am_wf_remove_unacked:
  assumes "am_wf c m"
  shows "am_wf c (remove_unacked m k)"
proof (cases "map_of (am_unacked_payloads m) k")
  case None
  then show ?thesis
    using assms by (simp add: remove_unacked_def)
next
  case (Some sp)
  note wf = am_wfD [OF assms]
  have "window_len (remove_unacked m k) + sp_wire_len sp = window_len m"
    unfolding window_len_def remove_unacked_window by (rule bm_sum_remove [OF wf(1) Some])
  then show ?thesis
    using wf Some
    by (auto simp: am_wf_def remove_unacked_window bm_wf_remove)
      (auto simp: remove_unacked_def bm_remove_def)
qed

lemma fold_remove_unacked:
  "am_unacked_payloads (fold (\<lambda>k m. remove_unacked m k) ks m) =
     filter (\<lambda>e. fst e \<notin> set ks) (am_unacked_payloads m)"
  "am_wf c m \<Longrightarrow> am_wf c (fold (\<lambda>k m. remove_unacked m k) ks m)"
  "am_packet_seq (fold (\<lambda>k m. remove_unacked m k) ks m) = am_packet_seq m"
  "am_sent_packets (fold (\<lambda>k m. remove_unacked m k) ks m) = am_sent_packets m"
  "am_received_packets (fold (\<lambda>k m. remove_unacked m k) ks m) = am_received_packets m"
  "am_policy (fold (\<lambda>k m. remove_unacked m k) ks m) = am_policy m"
  "am_turns_complete (fold (\<lambda>k m. remove_unacked m k) ks m) = am_turns_complete m"
proof (induction ks arbitrary: m)
  case (Cons k ks)
  {
    case 1
    have "filter (\<lambda>e. fst e \<notin> set ks) (bm_remove k w) = filter (\<lambda>e. fst e \<notin> set (k # ks)) w" for w :: window
      by (induction w) (auto simp: bm_remove_def)
    then show ?case
      by (simp add: Cons remove_unacked_window)
  next
    case 2
    then show ?case
      by (simp add: Cons am_wf_remove_unacked)
  }
qed (simp_all)

section \<open>Retiring acked packets\<close>

definition carried :: "AckManager \<Rightarrow> u64 \<Rightarrow> (SlotId \<times> u64) set" where
  "carried m s =
     (case sb_lookup (am_sent_packets m) s of
        None \<Rightarrow> {}
      | Some packet \<Rightarrow> set (payload_slots_seqs packet))"

definition retired_by :: "codec \<Rightarrow> u64 set \<Rightarrow> AckManager \<Rightarrow> AckManager \<Rightarrow> bool" where
  "retired_by c S m m' \<longleftrightarrow>
     am_wf c m' \<and>
     am_unacked_payloads m' =
       filter (\<lambda>e. fst e \<notin> (\<Union>s \<in> S. carried m s)) (am_unacked_payloads m) \<and>
     sb_lookup (am_sent_packets m') = (\<lambda>s. if s \<in> S then None else sb_lookup (am_sent_packets m) s) \<and>
     am_packet_seq m' = am_packet_seq m \<and> am_received_packets m' = am_received_packets m \<and>
     am_policy m' = am_policy m \<and> am_turns_complete m' = am_turns_complete m"

lemma retired_by_empty: "am_wf c m \<Longrightarrow> retired_by c {} m m"
  by (simp add: retired_by_def)

lemma retired_by_trans:
  assumes "retired_by c S m m'" and "retired_by c T m' m''"
  shows "retired_by c (S \<union> T) m m''"
proof -
  have "carried m' s = (if s \<in> S then {} else carried m s)" for s
    using assms(1) by (simp add: retired_by_def carried_def)
  then have un: "(\<Union>s \<in> S. carried m s) \<union> (\<Union>s \<in> T. carried m' s) = (\<Union>s \<in> S \<union> T. carried m s)"
    by (auto split: if_splits)
  have "fst e \<notin> (\<Union>s \<in> S \<union> T. carried m s) \<longleftrightarrow>
      fst e \<notin> (\<Union>s \<in> S. carried m s) \<and> fst e \<notin> (\<Union>s \<in> T. carried m' s)"
    for e :: "(SlotId \<times> u64) \<times> SentPayload"
    unfolding un [symmetric] by (simp only: Un_iff de_Morgan_disj)
  then show ?thesis
    using assms by (auto simp: retired_by_def fun_eq_iff conj_commute intro!: filter_cong)
qed

lemma retire_packet_spec:
  assumes "am_wf c m" and "unat s < 2 ^ 63"
  obtains m' where "retire_packet m s = Some m'" and "retired_by c {s} m m'"
proof -
  note wf = am_wfD [OF assms(1)]
  obtain sb where sb: "SequenceBuffer_remove SentPacket_default (am_sent_packets m) s =
      Some (sb_lookup (am_sent_packets m) s, sb)"
    "sb_wf sb" "sb_lookup sb = (sb_lookup (am_sent_packets m))(s := None)"
    "sb_sequence sb = sb_sequence (am_sent_packets m)" "sb_cap sb = sb_cap (am_sent_packets m)"
    by (rule remove_spec [OF wf(5) assms(2)])
  define m1 where "m1 = m\<lparr>am_sent_packets := sb\<rparr>"
  have m1: "am_wf c m1"
    using wf sb by (simp add: am_wf_def m1_def window_len_def)
  show ?thesis
  proof (cases "sb_lookup (am_sent_packets m) s")
    case None
    then have "retire_packet m s = Some m1"
      by (simp add: retire_packet_def sb(1) m1_def)
    moreover have "retired_by c {s} m m1"
      using m1 sb(3) None by (auto simp: retired_by_def m1_def carried_def fun_eq_iff)
    ultimately show ?thesis
      by (rule that)
  next
    case (Some packet)
    let ?m' = "fold (\<lambda>k m. remove_unacked m k) (payload_slots_seqs packet) m1"
    have "retire_packet m s = Some ?m'"
      by (simp add: retire_packet_def sb(1) m1_def Some)
    moreover have "retired_by c {s} m ?m'"
      using m1 sb(3) Some
      by (auto simp: retired_by_def fold_remove_unacked carried_def fun_eq_iff)
        (auto simp: m1_def)
    ultimately show ?thesis
      by (rule that)
  qed
qed

definition bit_acked :: "u64 \<Rightarrow> u32 \<Rightarrow> nat \<Rightarrow> u64 set" where
  "bit_acked ack bits i = {s. \<exists>j. i \<le> j \<and> j < 33 \<and> unat s + j = unat ack \<and> bit bits (j - i)}"

lemma ex_from_step: "(\<exists>j. i \<le> j \<and> P j) \<longleftrightarrow> P i \<or> (\<exists>j. Suc i \<le> j \<and> P j)"
  by (metis Suc_leD Suc_leI le_eq_less_or_eq order_refl)

lemma bit_acked_step:
  assumes "i < 33" and "i \<le> unat ack"
  shows "bit_acked ack bits i =
    (if bit bits 0 then {ack - of_nat i} else {}) \<union> bit_acked ack (drop_bit 1 bits) (Suc i)"
proof (rule set_eqI)
  fix s :: u64
  have i: "unat (of_nat i :: u64) = i"
    using assms(1) by (simp add: unat_of_nat)
  then have d: "unat (ack - of_nat i) = unat ack - i"
    using assms(2) by (simp add: unat_sub word_arith)
  then have s: "s = ack - of_nat i \<longleftrightarrow> unat s + i = unat ack"
    using assms(2) by (auto simp: word_unat_eq_iff)
  have "s \<in> bit_acked ack bits i \<longleftrightarrow>
      i < 33 \<and> unat s + i = unat ack \<and> bit bits (i - i) \<or>
      (\<exists>j. Suc i \<le> j \<and> j < 33 \<and> unat s + j = unat ack \<and> bit bits (j - i))"
    unfolding bit_acked_def mem_Collect_eq by (rule ex_from_step)
  also have "(\<exists>j. Suc i \<le> j \<and> j < 33 \<and> unat s + j = unat ack \<and> bit bits (j - i)) \<longleftrightarrow>
      s \<in> bit_acked ack (drop_bit 1 bits) (Suc i)"
    unfolding bit_acked_def mem_Collect_eq
    by (intro ex_cong1) (auto simp: bit_drop_bit_eq Suc_diff_Suc less_eq_Suc_le)
  finally show "s \<in> bit_acked ack bits i \<longleftrightarrow>
      s \<in> (if bit bits 0 then {ack - of_nat i} else {}) \<union> bit_acked ack (drop_bit 1 bits) (Suc i)"
    using assms(1) s by auto
qed

lemma bit_acked_break:
  assumes "unat ack < i"
  shows "bit_acked ack bits i = {}"
  using assms by (auto simp: bit_acked_def)

lemma retire_acked_bits_spec:
  assumes "am_wf c m" and "i \<le> 33" and "unat ack < 2 ^ 63"
  obtains m' where "retire_acked_bits m ack bits (map of_nat [i..<33]) = Some m'"
    and "retired_by c (bit_acked ack bits i) m m'"
proof -
  have "\<exists>m'. retire_acked_bits m ack bits (map of_nat [i..<33]) = Some m' \<and>
      retired_by c (bit_acked ack bits i) m m'"
    using assms
  proof (induction "33 - i" arbitrary: i m bits)
    case 0
    then have "bit_acked ack bits i = {}"
      by (auto simp: bit_acked_def)
    with 0 show ?case
      by (auto intro!: retired_by_empty)
  next
    case (Suc n)
    then have upt: "[i..<33] = i # [Suc i..<33]" and i: "i < 33"
      by (auto simp: upt_conv_Cons)
    have ui: "unat (of_nat i :: u64) = i"
      using i by (simp add: unat_of_nat)
    show ?case
    proof (cases "unat ack < i")
      case True
      then show ?thesis
        using Suc.prems by (auto simp: upt word_arith ui bit_acked_break intro!: retired_by_empty)
    next
      case False
      have b0: "bits AND 1 = 1 \<longleftrightarrow> bit bits 0"
        by (simp add: and_one_eq mod2_eq_if bit_0)
      let ?S = "if bit bits 0 then {ack - of_nat i} else {}"
      have small: "unat (ack - of_nat i) < 2 ^ 63"
        using False Suc.prems(3) by (simp add: unat_sub word_arith ui)
      obtain m1 where m1: "retired_by c ?S m m1"
        "(if bits AND 1 = 1 then retire_packet m (ack - of_nat i) else Some m) = Some m1"
      proof (cases "bit bits 0")
        case True
        obtain m1 where "retire_packet m (ack - of_nat i) = Some m1"
          "retired_by c {ack - of_nat i} m m1"
          by (rule retire_packet_spec [OF Suc.prems(1) small])
        then show ?thesis
          using that True b0 by simp
      next
        case False
        then show ?thesis
          using that [of m] b0 retired_by_empty [OF Suc.prems(1)] by simp
      qed
      then have wf1: "am_wf c m1"
        by (simp add: retired_by_def)
      have n: "n = 33 - Suc i" and si: "Suc i \<le> 33"
        using Suc.hyps(2) i by simp_all
      obtain m2 where m2: "retire_acked_bits m1 ack (drop_bit 1 bits) (map of_nat [Suc i..<33]) = Some m2"
        "retired_by c (bit_acked ack (drop_bit 1 bits) (Suc i)) m1 m2"
        using Suc.hyps(1) [OF n wf1 si Suc.prems(3), of "drop_bit 1 bits"] by blast
      have "retired_by c (bit_acked ack bits i) m m2"
        using retired_by_trans [OF m1(1) m2(2)] bit_acked_step [OF i] False by simp
      moreover have "retire_acked_bits m ack bits (map of_nat [i..<33]) = Some m2"
        using False m1(2) m2(1) by (simp add: upt word_arith ui)
      ultimately show ?thesis
        by blast
    qed
  qed
  then show ?thesis
    using that by blast
qed

section \<open>Incoming packets\<close>

definition acked_packets :: "Packet \<Rightarrow> u64 set" where
  "acked_packets pk =
     (case pk_ack pk of
        None \<Rightarrow> {}
      | Some ack \<Rightarrow> insert (ucast ack) (bit_acked (ucast ack) (pk_ack_bits pk) 1))"

lemma unat_u32_less_63: "unat (ucast (x :: u32) :: u64) < 2 ^ 63"
proof -
  have "unat (ucast x :: u64) = unat x"
    by (simp add: unat_ucast_up)
  also have "\<dots> < 2 ^ 32"
    using unat_less [of x] by simp
  finally show ?thesis
    by simp
qed

lemma am_wf_record:
  "am_wf c m \<Longrightarrow> am_wf c (m\<lparr>am_received_packets := h\<rparr>)"
  by (simp add: am_wf_def window_len_def)

lemma retired_by_record:
  assumes "retired_by c S (m\<lparr>am_received_packets := h\<rparr>) m'"
  shows "am_wf c m'"
    and "am_unacked_payloads m' =
       filter (\<lambda>e. fst e \<notin> (\<Union>s \<in> S. carried m s)) (am_unacked_payloads m)"
    and "sb_lookup (am_sent_packets m') = (\<lambda>s. if s \<in> S then None else sb_lookup (am_sent_packets m) s)"
    and "am_received_packets m' = h" and "am_packet_seq m' = am_packet_seq m"
    and "am_policy m' = am_policy m" and "am_turns_complete m' = am_turns_complete m"
proof -
  have "carried (m\<lparr>am_received_packets := h\<rparr>) s = carried m s" for s
    by (simp add: carried_def)
  with assms show "am_wf c m'"
    and "am_unacked_payloads m' =
       filter (\<lambda>e. fst e \<notin> (\<Union>s \<in> S. carried m s)) (am_unacked_payloads m)"
    and "sb_lookup (am_sent_packets m') = (\<lambda>s. if s \<in> S then None else sb_lookup (am_sent_packets m) s)"
    and "am_received_packets m' = h" and "am_packet_seq m' = am_packet_seq m"
    and "am_policy m' = am_policy m" and "am_turns_complete m' = am_turns_complete m"
    by (simp_all add: retired_by_def cong: if_cong)
qed

lemma handle_incoming_error:
  assumes "check_acks m pk = Inl e"
  shows "handle_incoming m pk = Some (Inl e, m)"
  using assms by (simp add: handle_incoming_def)

lemma handle_incoming_ok:
  assumes "am_wf c m" and "check_acks m pk = Inr ()"
  obtains m' where "handle_incoming m pk = Some (Inr (), m')"
    and "retired_by c (acked_packets pk)
      (m\<lparr>am_received_packets := ReceivedPacketHistory_record (am_received_packets m) (pk_seq pk)\<rparr>) m'"
proof -
  define m1 where
    "m1 = m\<lparr>am_received_packets := ReceivedPacketHistory_record (am_received_packets m) (pk_seq pk)\<rparr>"
  have wf: "am_wf c m1"
    unfolding m1_def by (rule am_wf_record [OF assms(1)])
  show ?thesis
  proof (cases "pk_ack pk")
    case None
    then have "handle_incoming m pk = Some (Inr (), m1)"
      using assms(2) by (simp add: handle_incoming_def m1_def)
    moreover have "retired_by c (acked_packets pk) m1 m1"
      using None retired_by_empty [OF wf] by (simp add: acked_packets_def)
    ultimately show ?thesis
      using that by (simp add: m1_def)
  next
    case (Some ack)
    obtain m2 where m2: "retire_packet m1 (ucast ack) = Some m2" "retired_by c {ucast ack} m1 m2"
      by (rule retire_packet_spec [OF wf unat_u32_less_63])
    then have wf2: "am_wf c m2"
      by (simp add: retired_by_def)
    have one: "(1 :: nat) \<le> 33"
      by simp
    obtain m3 where
      m3: "retire_acked_bits m2 (ucast ack) (pk_ack_bits pk) (map of_nat [1..<33]) = Some m3"
        "retired_by c (bit_acked (ucast ack) (pk_ack_bits pk) 1) m2 m3"
      by (rule retire_acked_bits_spec [OF wf2 one unat_u32_less_63])
    have "handle_incoming m pk = Some (Inr (), m3)"
      using assms(2) Some m2(1) m3(1)
      by (simp add: handle_incoming_def m1_def [symmetric] del: upt.simps upt_rec_numeral)
    moreover have "retired_by c (acked_packets pk) m1 m3"
      using retired_by_trans [OF m2(2) m3(2)] Some by (simp add: acked_packets_def)
    ultimately show ?thesis
      using that by (simp add: m1_def)
  qed
qed

lemma check_acks_ok_iff:
  "check_acks m pk = Inr () \<longleftrightarrow>
    (case pk_ack pk of
       None \<Rightarrow> pk_ack_bits pk = 0
     | Some ack \<Rightarrow> ack < am_packet_seq m \<and> (ack < 32 \<longrightarrow> drop_bit (unat ack) (pk_ack_bits pk) = 0))"
  by (auto simp: check_acks_def split: option.split)

section \<open>Reliable cursors\<close>

lemma retire_payloads_through_window:
  "am_unacked_payloads (snd (retire_payloads_through m slot through_seq)) =
     filter (\<lambda>e. \<not> (fst (fst e) = slot \<and> snd (fst e) \<le> through_seq)) (am_unacked_payloads m)"
  by (auto simp: retire_payloads_through_def Let_def not_le case_prod_beta intro!: filter_cong)

lemma filter_all_kept: "length (filter P xs) = length xs \<Longrightarrow> filter P xs = xs"
  by (metis filter_id_conv length_filter_less less_irrefl)

lemma am_wf_retire_payloads_through:
  assumes "am_wf c m"
  shows "am_wf c (snd (retire_payloads_through m slot through_seq))"
proof -
  let ?m = "snd (retire_payloads_through m slot through_seq)"
  let ?w = "filter (\<lambda>((s, q), _). s \<noteq> slot \<or> through_seq < q) (am_unacked_payloads m)"
  note wf = am_wfD [OF assms]
  have le: "bm_sum sp_wire_len ?w \<le> window_len m"
    unfolding window_len_def by (rule bm_sum_filter_le)
  show ?thesis
  proof (cases "length ?w = length (am_unacked_payloads m)")
    case True
    then have "?m = m"
      using filter_all_kept [OF True] by (simp add: retire_payloads_through_def Let_def)
    then show ?thesis
      using assms by simp
  next
    case False
    then have "0 < length (am_unacked_payloads m) - length ?w"
      using length_filter_le [of _ "am_unacked_payloads m"] by (simp add: le_neq_implies_less)
    then have "?m = m\<lparr>am_unacked_payloads := ?w, am_unacked_payload_wire_len := None\<rparr>"
      by (simp add: retire_payloads_through_def Let_def)
    then show ?thesis
      using wf le by (auto simp: am_wf_def window_len_def bm_wf_filter)
  qed
qed

end
