(* ===== verification/AckSend.thy ===== *)
theory AckSend
  imports AckWindow "HOL-Library.Sublist" "HOL-Library.Multiset"
begin

text \<open>
  The send side of the ack manager: which payloads a built packet carries, how large it gets, and what
  building and recording do to the window.
\<close>

section \<open>The cached wire length\<close>

lemma fold_saturating_add:
  "t \<le> usize_max \<Longrightarrow>
    fold (\<lambda>x t. usize_saturating_add t (f x)) xs t = min (t + sum_list (map f xs)) usize_max"
  by (induction xs arbitrary: t) (auto simp: usize_saturating_add_def)

lemma refresh_wire_len_spec:
  assumes "am_wf c m"
  obtains m' where "refresh_wire_len m = (window_len m, m')" and "am_wf c m'"
    and "am_unacked_payloads m' = am_unacked_payloads m" and "am_sent_packets m' = am_sent_packets m"
    and "am_received_packets m' = am_received_packets m" and "am_policy m' = am_policy m"
    and "am_turns_complete m' = am_turns_complete m" and "am_packet_seq m' = am_packet_seq m"
proof (cases "am_unacked_payload_wire_len m")
  case None
  have "fold (\<lambda>sp t. usize_saturating_add t (sp_wire_len sp)) (bm_values (am_unacked_payloads m)) 0
      = window_len m"
    using am_wfD(3) [OF assms] by (simp add: fold_saturating_add window_len_def bm_sum_def)
  moreover have "am_wf c (m\<lparr>am_unacked_payload_wire_len := Some (window_len m)\<rparr>)"
    using assms by (simp add: am_wf_def window_len_def)
  ultimately show ?thesis
    using None by (intro that [of "m\<lparr>am_unacked_payload_wire_len := Some (window_len m)\<rparr>"])
      (simp_all add: refresh_wire_len_def Let_def)
next
  case (Some t)
  then show ?thesis
    using assms am_wfD(4) [OF assms Some] by (intro that [of m]) (simp_all add: refresh_wire_len_def)
qed

section \<open>Choosing the redundancy\<close>

definition due_payloads :: "window \<Rightarrow> CarrySpacing option \<Rightarrow> u32 \<Rightarrow> SentPayload list" where
  "due_payloads w spacing building_seq =
     filter (\<lambda>sp. is_due sp spacing building_seq) (bm_values w)"

definition redundancy_reference ::
    "window \<Rightarrow> CarrySpacing option \<Rightarrow> u32 \<Rightarrow> nat \<Rightarrow> nat \<Rightarrow> nat \<Rightarrow> Payload list" where
  "redundancy_reference w spacing building_seq max_packet_len cap used =
     (let due = due_payloads w spacing building_seq
      in if used + sum_list (map sp_wire_len due) \<le> cap then map sp_payload due
         else refill max_packet_len cap False used (ranked building_seq due))"

lemma fits_remaining_iff: "fits_remaining cap used len \<longleftrightarrow> used + len \<le> cap"
  by (auto simp: fits_remaining_def)

lemma due_payloads_None [simp]: "due_payloads w None b = bm_values w"
  by (simp add: due_payloads_def is_due_def)

lemma choose_redundancy_eq:
  "choose_redundancy w (bm_sum sp_wire_len w) spacing b mx cap used =
     redundancy_reference w spacing b mx cap used"
  by (cases spacing)
    (auto simp: choose_redundancy_def redundancy_reference_def fits_remaining_iff Let_def
      bm_sum_def due_payloads_def [symmetric])

lemma set_ranked [simp]: "set (ranked b sps) = set sps"
  by (simp add: ranked_def)

lemma mset_ranked [simp]: "mset (ranked b sps) = mset sps"
  by (simp add: ranked_def)

lemma ranked_head_longest:
  assumes "ranked b sps = sp # rest" and "sp' \<in> set sps"
  shows "waiting_age sp' b \<le> waiting_age sp b"
proof -
  have "sorted (map (\<lambda>sp. - int (unat (waiting_age sp b))) (sp # rest))"
    unfolding assms(1) [symmetric] ranked_def by (rule sorted_sort_key)
  moreover have "sp' \<in> set (sp # rest)"
    using assms set_ranked by metis
  ultimately show ?thesis
    by (auto simp: word_le_def)
qed

lemma refill_selects:
  obtains sel where "refill mx cap packed used sps = map sp_payload sel" and "subseq sel sps"
    and "packed \<Longrightarrow> used + sum_list (map sp_wire_len sel) \<le> max used cap"
proof -
  have "\<exists>sel. refill mx cap packed used sps = map sp_payload sel \<and> subseq sel sps \<and>
      (packed \<longrightarrow> used + sum_list (map sp_wire_len sel) \<le> max used cap)"
  proof (induction sps arbitrary: packed used)
    case (Cons sp sps)
    obtain sel where sel: "refill mx cap True (used + sp_wire_len sp) sps = map sp_payload sel"
      "subseq sel sps"
      "used + sp_wire_len sp + sum_list (map sp_wire_len sel) \<le> max (used + sp_wire_len sp) cap"
      using Cons.IH [of True "used + sp_wire_len sp"] by auto
    obtain skip where skip: "refill mx cap True used sps = map sp_payload skip" "subseq skip sps"
      "used + sum_list (map sp_wire_len skip) \<le> max used cap"
      using Cons.IH [of True used] by auto
    consider "\<not> packed" "mx < used + sp_wire_len sp" | "\<not> packed" "used + sp_wire_len sp \<le> mx"
      | "packed" "cap < used + sp_wire_len sp" | "packed" "used + sp_wire_len sp \<le> cap"
      by linarith
    then show ?case
    proof cases
      case 1
      then show ?thesis
        by (intro exI [of _ "[]"]) auto
    next
      case 2
      then show ?thesis
        using sel by (intro exI [of _ "sp # sel"]) auto
    next
      case 3
      then show ?thesis
        using skip by (intro exI [of _ skip]) auto
    next
      case 4
      then show ?thesis
        using sel by (intro exI [of _ "sp # sel"]) auto
    qed
  qed (auto intro: exI [of _ "[]"])
  then show ?thesis
    using that by blast
qed

lemma refill_bounded:
  assumes "cap \<le> mx" and "\<And>sp. sp \<in> set sps \<Longrightarrow> 0 < sp_wire_len sp"
  obtains sel where "refill mx cap False used sps = map sp_payload sel" and "subseq sel sps"
    and "used + sum_list (map sp_wire_len sel) \<le> max used mx"
    and "used + sum_list (map sp_wire_len sel) \<le> max used cap \<or> length sel = 1"
proof (cases "sps = [] \<or> mx < used + sp_wire_len (hd sps)")
  case True
  then have "refill mx cap False used sps = map sp_payload []"
    by (cases sps) auto
  then show ?thesis
    by (rule that) auto
next
  case False
  then obtain sp rest where sps: "sps = sp # rest"
    by (cases sps) auto
  obtain sel where sel: "refill mx cap True (used + sp_wire_len sp) rest = map sp_payload sel"
    "subseq sel rest"
    "used + sp_wire_len sp + sum_list (map sp_wire_len sel) \<le> max (used + sp_wire_len sp) cap"
    by (rule refill_selects [of mx cap True "used + sp_wire_len sp" rest]) auto
  have fit: "used + sp_wire_len sp \<le> mx"
    using False sps by simp
  have sub: "set sel \<subseteq> set sps"
    using sel(2) sps by (auto dest: list_emb_set)
  have "sel = []" if "cap < used + sp_wire_len sp"
  proof (rule ccontr)
    assume "sel \<noteq> []"
    then obtain x xs where "sel = x # xs"
      by (cases sel) auto
    then show False
      using that sel(3) sub assms(2) [of x] by auto
  qed
  then have "used + sum_list (map sp_wire_len (sp # sel)) \<le> max used mx"
    and "used + sum_list (map sp_wire_len (sp # sel)) \<le> max used cap \<or> length (sp # sel) = 1"
    using sel(3) fit assms(1) by (cases "cap < used + sp_wire_len sp"; simp add: max_def split: if_splits)+
  then show ?thesis
    using sel(1,2) fit sps by (intro that [of "sp # sel"]) auto
qed

lemma subseq_mset: "subseq xs ys \<Longrightarrow> mset xs \<subseteq># mset ys"
  by (induction rule: list_emb.induct) (auto intro: subset_mset.order_trans)

lemma redundancy_reference_spec:
  assumes "cap \<le> mx" and "\<And>sp. sp \<in> set (bm_values w) \<Longrightarrow> 0 < sp_wire_len sp"
  obtains sel where "redundancy_reference w spacing b mx cap used = map sp_payload sel"
    and "mset sel \<subseteq># mset (due_payloads w spacing b)"
    and "used + sum_list (map sp_wire_len sel) \<le> max used mx"
    and "used + sum_list (map sp_wire_len sel) \<le> max used cap \<or> length sel = 1"
    and "used + sum_list (map sp_wire_len (due_payloads w spacing b)) \<le> cap \<Longrightarrow>
      sel = due_payloads w spacing b"
proof (cases "used + sum_list (map sp_wire_len (due_payloads w spacing b)) \<le> cap")
  case True
  then show ?thesis
    using assms(1) by (intro that [of "due_payloads w spacing b"])
      (auto simp: redundancy_reference_def Let_def)
next
  case False
  obtain sel where "refill mx cap False used (ranked b (due_payloads w spacing b)) = map sp_payload sel"
    and sub: "subseq sel (ranked b (due_payloads w spacing b))"
    and "used + sum_list (map sp_wire_len sel) \<le> max used mx"
    and "used + sum_list (map sp_wire_len sel) \<le> max used cap \<or> length sel = 1"
    by (rule refill_bounded [OF assms(1), of "ranked b (due_payloads w spacing b)" used])
      (auto simp: due_payloads_def assms(2))
  moreover have "mset sel \<subseteq># mset (due_payloads w spacing b)"
    using subseq_mset [OF sub] by simp
  ultimately show ?thesis
    using False by (intro that [of sel]) (auto simp: redundancy_reference_def Let_def)
qed

lemma redundancy_serves_longest:
  assumes "due_payloads w spacing b \<noteq> []"
    and "\<And>sp. sp \<in> set (due_payloads w spacing b) \<Longrightarrow> used + sp_wire_len sp \<le> mx"
  obtains sp where "sp \<in> set (due_payloads w spacing b)"
    and "sp_payload sp \<in> set (redundancy_reference w spacing b mx cap used)"
    and "\<And>sp'. sp' \<in> set (due_payloads w spacing b) \<Longrightarrow> waiting_age sp' b \<le> waiting_age sp b"
proof -
  let ?due = "due_payloads w spacing b"
  have "set (ranked b ?due) \<noteq> {}"
    using assms(1) by simp
  then obtain sp rest where r: "ranked b ?due = sp # rest"
    by (cases "ranked b ?due") auto
  then have "sp \<in> set (ranked b ?due)"
    by simp
  then have sp: "sp \<in> set ?due"
    by simp
  moreover have "sp_payload sp \<in> set (redundancy_reference w spacing b mx cap used)"
    using r sp assms(2) [OF sp] by (auto simp: redundancy_reference_def Let_def not_less [symmetric])
  ultimately show ?thesis
    using ranked_head_longest [OF r] by (rule that)
qed

section \<open>Building a packet\<close>

definition fresh_list :: "(SlotId \<times> Payload) option \<Rightarrow> Payload list" where
  "fresh_list fresh = (case fresh of None \<Rightarrow> [] | Some (_, p) \<Rightarrow> [p])"

definition outgoing_used :: "codec \<Rightarrow> AckManager \<Rightarrow> Payload option \<Rightarrow> nat" where
  "outgoing_used c m payload =
     c_packet_len c (outgoing_header m) +
     sum_list (map (element_len c) (fresh_list (fresh_payload payload)))"

definition outgoing_spacing :: "AckManager \<Rightarrow> Payload option \<Rightarrow> CarrySpacing option" where
  "outgoing_spacing m payload =
     (if fresh_payload payload \<noteq> None then rp_spacing (am_policy m) else None)"

definition outgoing_redundancy :: "codec \<Rightarrow> AckManager \<Rightarrow> Payload option \<Rightarrow> nat \<Rightarrow> Payload list" where
  "outgoing_redundancy c m payload mx =
     redundancy_reference (am_unacked_payloads m) (outgoing_spacing m payload) (am_packet_seq m) mx
       (redundancy_cap (am_policy m) mx (outgoing_used c m payload)) (outgoing_used c m payload)"

definition registered :: "codec \<Rightarrow> u32 \<Rightarrow> Payload \<Rightarrow> SentPayload" where
  "registered c b p =
     \<lparr>sp_send_count = 0, sp_last_carried_packet_seq = None, sp_registered_at_packet_seq = b,
      sp_wire_len = element_len c p, sp_payload = p\<rparr>"

definition window_with_fresh :: "codec \<Rightarrow> AckManager \<Rightarrow> Payload option \<Rightarrow> window" where
  "window_with_fresh c m payload =
     (case fresh_payload payload of
        None \<Rightarrow> am_unacked_payloads m
      | Some (slot, p) \<Rightarrow>
          bm_insert (slot, p_seq p) (registered c (am_packet_seq m) p) (am_unacked_payloads m))"

lemma fresh_payload_key:
  "fresh_payload payload = Some (slot, p) \<longleftrightarrow>
     payload = Some p \<and> payload_key p = Some (slot, p_seq p)"
  by (cases payload)
    (auto simp: fresh_payload_def payload_key_def split: Option.bind_split)

lemma build_outgoing_exhausted:
  "am_packet_seq m = - 1 \<Longrightarrow> build_outgoing c m payload mx = (Inl PacketSeqExhausted, m)"
  by (simp add: build_outgoing_def checked_add_def)

lemma build_outgoing_spec:
  assumes "am_wf c m" and "am_packet_seq m \<noteq> - 1"
  obtains m' where
    "build_outgoing c m payload mx =
       (Inr ((outgoing_header m)\<lparr>pk_payloads :=
          fresh_list (fresh_payload payload) @ outgoing_redundancy c m payload mx\<rparr>), m')"
    and "am_packet_seq m' = am_packet_seq m + 1"
    and "am_unacked_payloads m' = window_with_fresh c m payload"
    and "am_sent_packets m' = am_sent_packets m" and "am_received_packets m' = am_received_packets m"
    and "am_policy m' = am_policy m" and "am_turns_complete m' = am_turns_complete m"
    and "window_len m + sum_list (map (element_len c) (fresh_list (fresh_payload payload))) \<le> usize_max
      \<Longrightarrow> am_wf c m'"
proof -
  have next_seq: "unat (am_packet_seq m + 1) = unat (am_packet_seq m) + 1"
    by (rule unat_not_max(2) [OF assms(2)])
  have wf0: "am_wf c (m\<lparr>am_packet_seq := am_packet_seq m + 1\<rparr>)"
    using assms(1) next_seq by (simp add: am_wf_def window_len_def)
  obtain m1 where m1: "refresh_wire_len (m\<lparr>am_packet_seq := am_packet_seq m + 1\<rparr>) =
      (window_len (m\<lparr>am_packet_seq := am_packet_seq m + 1\<rparr>), m1)" "am_wf c m1"
    "am_unacked_payloads m1 = am_unacked_payloads m" "am_sent_packets m1 = am_sent_packets m"
    "am_received_packets m1 = am_received_packets m" "am_policy m1 = am_policy m"
    "am_turns_complete m1 = am_turns_complete m" "am_packet_seq m1 = am_packet_seq m + 1"
    by (rule refresh_wire_len_spec [OF wf0]) (rule that, simp_all)
  have len: "window_len (m\<lparr>am_packet_seq := am_packet_seq m + 1\<rparr>) = bm_sum sp_wire_len (am_unacked_payloads m)"
    "window_len m1 = window_len m"
    using m1(3) by (simp_all add: window_len_def)
  have used: "c_packet_len c (outgoing_header m) +
      (case fresh_payload payload of None \<Rightarrow> 0 | Some (_, p) \<Rightarrow> payload_element_len c (c_payload_len c p)) =
      outgoing_used c m payload"
    by (simp add: outgoing_used_def fresh_list_def element_len_def split: option.split)
  have seq: "pk_seq (outgoing_header m) = am_packet_seq m"
    by (simp add: outgoing_header_def)
  define m2 where "m2 = (case fresh_payload payload of None \<Rightarrow> m1
    | Some (slot, p) \<Rightarrow> insert_unacked m1 (slot, p_seq p) (registered c (am_packet_seq m) p))"
  have eq: "build_outgoing c m payload mx =
       (Inr ((outgoing_header m)\<lparr>pk_payloads :=
          fresh_list (fresh_payload payload) @ outgoing_redundancy c m payload mx\<rparr>), m2)"
    unfolding build_outgoing_def checked_add_one if_not_P [OF assms(2)] option.case Let_def m1(1)
      case_prod_conv m1(3) len(1) choose_redundancy_eq used seq
    unfolding outgoing_redundancy_def outgoing_spacing_def fresh_list_def m2_def registered_def
      element_len_def ..
  have wf2: "am_wf c m2"
    if "window_len m + sum_list (map (element_len c) (fresh_list (fresh_payload payload))) \<le> usize_max"
  proof (cases "fresh_payload payload")
    case None
    then show ?thesis
      using m1(2) by (simp add: m2_def)
  next
    case (Some sp)
    obtain slot p where sp: "sp = (slot, p)"
      by (cases sp)
    have "window_entry_ok c ((slot, p_seq p), registered c (am_packet_seq m) p)"
      using Some by (simp add: sp fresh_payload_key window_entry_ok_def registered_def)
    then have "am_wf c (insert_unacked m1 (slot, p_seq p) (registered c (am_packet_seq m) p))"
      using that Some sp len(2)
      by (intro am_wf_insert_unacked m1(2)) (auto simp: registered_def fresh_list_def)
    then show ?thesis
      using Some sp by (simp add: m2_def)
  qed
  show ?thesis
  proof (rule that [OF eq])
    show "am_wf c m2"
      if "window_len m + sum_list (map (element_len c) (fresh_list (fresh_payload payload))) \<le> usize_max"
      using wf2 [OF that] .
  qed (auto simp: m2_def m1 window_with_fresh_def insert_unacked_window split: option.split)
qed

section \<open>Recording a sent packet\<close>

definition win_view :: "window \<Rightarrow> ((SlotId \<times> u64) \<times> Payload \<times> nat) list" where
  "win_view w = map (\<lambda>(k, sp). (k, sp_payload sp, sp_wire_len sp)) w"

lemma win_view_determines:
  assumes "win_view w' = win_view w"
  shows "map fst w' = map fst w" and "bm_sum sp_wire_len w' = bm_sum sp_wire_len w"
    and "(\<forall>e \<in> set w'. window_entry_ok c e) \<longleftrightarrow> (\<forall>e \<in> set w. window_entry_ok c e)"
proof -
  have "map fst (win_view w) = map fst w" for w
    by (simp add: win_view_def comp_def case_prod_beta)
  then show "map fst w' = map fst w"
    using assms by metis
  have "sum_list (map (\<lambda>x. snd (snd x)) (win_view w)) = bm_sum sp_wire_len w" for w
    by (simp add: win_view_def bm_sum_def bm_values_def comp_def case_prod_beta)
  then show "bm_sum sp_wire_len w' = bm_sum sp_wire_len w"
    using assms by metis
  have ok: "(\<forall>e \<in> set w. window_entry_ok c e) \<longleftrightarrow>
      (\<forall>(k, p, n) \<in> set (win_view w). payload_key p = Some k \<and> n = element_len c p)" for w
    by (auto simp: win_view_def window_entry_ok_def)
  show "(\<forall>e \<in> set w'. window_entry_ok c e) \<longleftrightarrow> (\<forall>e \<in> set w. window_entry_ok c e)"
    unfolding ok assms ..
qed

lemma win_view_bm_update:
  "(\<And>sp. sp_payload (f sp) = sp_payload sp \<and> sp_wire_len (f sp) = sp_wire_len sp) \<Longrightarrow>
    win_view (bm_update k f w) = win_view w"
  by (auto simp: win_view_def bm_update_def)

definition record_carry :: "u32 \<Rightarrow> SlotId \<times> u64 \<Rightarrow> window \<Rightarrow> window option" where
  "record_carry s key w =
     (case map_of w key of
        None \<Rightarrow> Some w
      | Some sent \<Rightarrow> do {
          n \<leftarrow> checked_add (sp_send_count sent) 1;
          Some (bm_update key (\<lambda>sp. sp\<lparr>sp_send_count := n, sp_last_carried_packet_seq := Some s\<rparr>) w)
        })"

lemma record_carry_view: "record_carry s key w = Some w' \<Longrightarrow> win_view w' = win_view w"
  by (auto simp: record_carry_def win_view_bm_update split: option.splits Option.bind_splits)

lemma record_carries_Cons:
  "record_carries s w (p # ps) =
     (case payload_key p of
        None \<Rightarrow> record_carries s w ps
      | Some key \<Rightarrow> do {
          w' \<leftarrow> record_carry s key w;
          (w'', keys) \<leftarrow> record_carries s w' ps;
          Some (w'', key # keys)
        })"
  by (simp add: record_carry_def payload_key_def Let_def split: option.split)

declare record_carries.simps(2) [simp del]

lemma record_carries_result:
  "record_carries s w ps = Some (w', ks) \<Longrightarrow>
    ks = List.map_filter payload_key ps \<and> win_view w' = win_view w"
proof (induction ps arbitrary: w w' ks)
  case (Cons p ps)
  show ?case
  proof (cases "payload_key p")
    case None
    then show ?thesis
      using Cons by (simp add: record_carries_Cons)
  next
    case (Some key)
    then obtain w1 ks1 where "record_carry s key w = Some w1"
      "record_carries s w1 ps = Some (w', ks1)" "ks = key # ks1"
      using Cons.prems by (auto simp: record_carries_Cons split: Option.bind_splits)
    then show ?thesis
      using Cons.IH record_carry_view Some by fastforce
  qed
qed simp

lemma record_carry_total:
  assumes "\<And>k sp. (k, sp) \<in> set w \<Longrightarrow> unat (sp_send_count sp) + Suc n < 2 ^ 32"
  shows "\<exists>w'. record_carry s key w = Some w' \<and>
    (\<forall>k sp. (k, sp) \<in> set w' \<longrightarrow> unat (sp_send_count sp) + n < 2 ^ 32)"
proof (cases "map_of w key")
  case None
  then show ?thesis
    using assms by (fastforce simp: record_carry_def)
next
  case (Some sent)
  have count: "unat (sp_send_count sent) + Suc n < 2 ^ 32"
    using assms Some by (blast dest: map_of_SomeD)
  then have "sp_send_count sent \<noteq> - 1"
    by (auto simp: unsigned_minus_1_eq_mask mask_eq_exp_minus_1)
  then have c: "checked_add (sp_send_count sent) 1 = Some (sp_send_count sent + 1)"
    "unat (sp_send_count sent + 1) = unat (sp_send_count sent) + 1"
    by (simp_all add: checked_add_one unat_not_max)
  let ?w = "bm_update key (\<lambda>sp. sp\<lparr>sp_send_count := sp_send_count sent + 1,
    sp_last_carried_packet_seq := Some s\<rparr>) w"
  have "unat (sp_send_count sp) + n < 2 ^ 32" if "(k, sp) \<in> set ?w" for k sp
  proof -
    have "(k, sp) \<in> set w \<or> sp_send_count sp = sp_send_count sent + 1"
      using that by (auto simp: bm_update_def split: if_splits)
    then show ?thesis
      using assms [of k sp] count c(2) by auto
  qed
  then show ?thesis
    using Some c(1) by (auto simp: record_carry_def)
qed

lemma record_carries_total:
  "(\<And>k sp. (k, sp) \<in> set w \<Longrightarrow> unat (sp_send_count sp) + length ps < 2 ^ 32) \<Longrightarrow>
    record_carries s w ps \<noteq> None"
proof (induction ps arbitrary: w)
  case (Cons p ps)
  have shorter: "unat (sp_send_count sp) + length ps < 2 ^ 32" if "(k, sp) \<in> set w" for k sp
    using Cons.prems [OF that] by simp
  show ?case
  proof (cases "payload_key p")
    case None
    then show ?thesis
      using Cons.IH [OF shorter] by (simp add: record_carries_Cons)
  next
    case (Some key)
    obtain w1 where w1: "record_carry s key w = Some w1"
      "\<And>k sp. (k, sp) \<in> set w1 \<Longrightarrow> unat (sp_send_count sp) + length ps < 2 ^ 32"
      using record_carry_total [of w "length ps" s key] Cons.prems by auto
    have "record_carries s w1 ps \<noteq> None"
      by (rule Cons.IH) (rule w1(2))
    then show ?thesis
      using Some w1(1) by (auto simp: record_carries_Cons)
  qed
qed simp

lemma record_sent_spec:
  assumes "am_wf c m" and "pk_seq pk < am_packet_seq m"
    and "record_carries (pk_seq pk) (am_unacked_payloads m) (pk_payloads pk) \<noteq> None"
  obtains m' where "record_sent m pk = Some m'" and "am_wf c m'"
    and "win_view (am_unacked_payloads m') = win_view (am_unacked_payloads m)"
    and "am_packet_seq m' = am_packet_seq m" and "am_received_packets m' = am_received_packets m"
    and "am_policy m' = am_policy m" and "am_turns_complete m' = am_turns_complete m"
    and "\<And>s. carried m' s \<subseteq> carried m s \<or>
      s = ucast (pk_seq pk) \<and> carried m' s = set (List.map_filter payload_key (pk_payloads pk))"
    and "unat (sb_sequence (am_sent_packets m)) < unat (pk_seq pk) + SENT_PACKETS_SIZE \<Longrightarrow>
      carried m' (ucast (pk_seq pk)) = set (List.map_filter payload_key (pk_payloads pk))"
proof -
  note wf = am_wfD [OF assms(1)]
  define keys where "keys = List.map_filter payload_key (pk_payloads pk)"
  obtain w where w: "record_carries (pk_seq pk) (am_unacked_payloads m) (pk_payloads pk) = Some (w, keys)"
    and view: "win_view w = win_view (am_unacked_payloads m)"
    using assms(3) record_carries_result unfolding keys_def by fastforce
  have seq: "unat (ucast (pk_seq pk) :: u64) = unat (pk_seq pk)"
    by (simp add: unat_ucast_up)
  have "unat (pk_seq pk) < 2 ^ 32"
    using unat_less [of "pk_seq pk"] by simp
  then have small: "unat (ucast (pk_seq pk) :: u64) < 2 ^ 63 - 1"
    using seq by simp
  obtain r sb where sb: "SequenceBuffer_insert SentPacket_default (am_sent_packets m)
      (ucast (pk_seq pk)) \<lparr>payload_slots_seqs = keys\<rparr> = Some (r, sb)" "sb_wf sb"
    "sb_cap sb = sb_cap (am_sent_packets m)"
    "sb_sequence sb = max (sb_sequence (am_sent_packets m)) (ucast (pk_seq pk) + 1) \<or>
     sb_sequence sb = sb_sequence (am_sent_packets m)"
    "\<And>t. sb_lookup sb t = None \<or> sb_lookup sb t = sb_lookup (am_sent_packets m) t \<or>
      t = ucast (pk_seq pk) \<and> sb_lookup sb t = Some \<lparr>payload_slots_seqs = keys\<rparr>"
    "unat (sb_sequence (am_sent_packets m)) < unat (pk_seq pk) + SENT_PACKETS_SIZE \<Longrightarrow>
      sb_lookup sb (ucast (pk_seq pk)) = Some \<lparr>payload_slots_seqs = keys\<rparr>"
  proof (cases "unat (sb_sequence (am_sent_packets m)) < unat (pk_seq pk) + SENT_PACKETS_SIZE")
    case True
    show ?thesis
      by (rule insert_spec [OF wf(5) small, of SentPacket_default "\<lparr>payload_slots_seqs = keys\<rparr>"])
        (use True in \<open>auto simp: seq wf(6) intro!: that split: if_splits\<close>)
  next
    case False
    then have "SequenceBuffer_insert SentPacket_default (am_sent_packets m)
        (ucast (pk_seq pk)) \<lparr>payload_slots_seqs = keys\<rparr> = Some (None, am_sent_packets m)"
      using small by (intro insert_stale wf(5)) (auto simp: seq wf(6))
    then show ?thesis
      using that wf(5) False by auto
  qed
  have "unat (ucast (pk_seq pk) + 1 :: u64) \<le> unat (am_packet_seq m)"
  proof -
    have "unat (ucast (pk_seq pk) + 1 :: u64) = unat (pk_seq pk) + 1"
      using small seq by (simp add: unat_word_ariths)
    then show ?thesis
      using assms(2) by (simp add: word_arith)
  qed
  then have "unat (sb_sequence sb) \<le> unat (am_packet_seq m)"
    using sb(4) wf(7) by (auto simp: max_def)
  then have "am_wf c (m\<lparr>am_unacked_payloads := w, am_sent_packets := sb\<rparr>)"
    using wf win_view_determines(1,2) [OF view] win_view_determines(3) [OF view, of c] sb(2,3)
    by (auto simp: am_wf_def window_len_def bm_wf_def)
  moreover have "record_sent m pk = Some (m\<lparr>am_unacked_payloads := w, am_sent_packets := sb\<rparr>)"
    by (simp add: record_sent_def w sb(1))
  moreover have "carried (m\<lparr>am_unacked_payloads := w, am_sent_packets := sb\<rparr>) s \<subseteq> carried m s \<or>
      s = ucast (pk_seq pk) \<and>
      carried (m\<lparr>am_unacked_payloads := w, am_sent_packets := sb\<rparr>) s = set keys" for s
    using sb(5) [of s] by (auto simp: carried_def)
  moreover have "carried (m\<lparr>am_unacked_payloads := w, am_sent_packets := sb\<rparr>) (ucast (pk_seq pk)) = set keys"
    if "unat (sb_sequence (am_sent_packets m)) < unat (pk_seq pk) + SENT_PACKETS_SIZE"
    using sb(6) [OF that] by (simp add: carried_def)
  ultimately show ?thesis
    using view unfolding keys_def
    by (intro that [of "m\<lparr>am_unacked_payloads := w, am_sent_packets := sb\<rparr>"]) simp_all
qed

lemma record_sent_carries:
  "record_sent m pk = Some m' \<Longrightarrow>
    record_carries (pk_seq pk) (am_unacked_payloads m) (pk_payloads pk) \<noteq> None"
  by (auto simp: record_sent_def split: Option.bind_splits)

end
