(* ===== verification/AckProperties.thy ===== *)
theory AckProperties
  imports AckSend
begin

text \<open>
  What the ack manager promises its callers, stated over its operations: the contents, the size and
  the redundancy of a built packet, the service of the longest-waiting payload, the exact effect of an
  incoming packet, and that the window only shrinks through acks and cursors.
\<close>

section \<open>The manager as a transition system\<close>

datatype am_op =
  Build "Payload option" nat
| Sent Packet
| Incoming Packet
| CursorThrough SlotId u64
| Reinject Payload
| ResetConnection
| SetTurnsComplete "u64 option"

fun op_fits :: "codec \<Rightarrow> AckManager \<Rightarrow> am_op \<Rightarrow> bool" where
  "op_fits c m (Build payload mx) =
     (window_len m + sum_list (map (element_len c) (fresh_list (fresh_payload payload))) \<le> usize_max)"
| "op_fits c m (Sent pk) = (pk_seq pk < am_packet_seq m)"
| "op_fits c m (Reinject p) = (window_len m + element_len c p \<le> usize_max)"
| "op_fits c m _ = True"

fun am_apply :: "codec \<Rightarrow> AckManager \<Rightarrow> am_op \<Rightarrow> AckManager option" where
  "am_apply c m (Build payload mx) = Some (snd (build_outgoing c m payload mx))"
| "am_apply c m (Sent pk) = record_sent m pk"
| "am_apply c m (Incoming pk) = map_option snd (handle_incoming m pk)"
| "am_apply c m (CursorThrough slot q) = Some (snd (retire_payloads_through m slot q))"
| "am_apply c m (Reinject p) = Some (reinject_unacked c m p)"
| "am_apply c m ResetConnection = Some (reset_connection m)"
| "am_apply c m (SetTurnsComplete n) = Some (set_turns_complete m n)"

definition in_window :: "AckManager \<Rightarrow> SlotId \<times> u64 \<Rightarrow> bool" where
  "in_window m k \<longleftrightarrow> k \<in> fst ` set (am_unacked_payloads m)"

lemma in_window_view: "win_view (am_unacked_payloads m') = win_view (am_unacked_payloads m) \<Longrightarrow>
    in_window m' k \<longleftrightarrow> in_window m k"
  using win_view_determines(1) by (metis in_window_def list.set_map)

lemma in_window_insert: "in_window (insert_unacked m k' sp) k \<longleftrightarrow> k = k' \<or> in_window m k"
  by (simp add: in_window_def insert_unacked_window)

lemma reset_connection_view:
  "win_view (am_unacked_payloads (reset_connection m)) = win_view (am_unacked_payloads m)"
  by (auto simp: reset_connection_def win_view_def)

lemma am_wf_reset_connection:
  assumes "am_wf c m"
  shows "am_wf c (reset_connection m)"
proof -
  note view = win_view_determines(1,2) [OF reset_connection_view [of m]]
    win_view_determines(3) [OF reset_connection_view [of m], of c]
  have "am_sent_packets (reset_connection m) =
      SequenceBuffer_with_capacity SentPacket_default SENT_PACKETS_SIZE"
    "am_unacked_payload_wire_len (reset_connection m) = am_unacked_payload_wire_len m"
    by (simp_all add: reset_connection_def)
  with view am_wfD(1-4) [OF assms] show ?thesis
    by (auto simp: am_wf_def window_len_def bm_wf_def with_capacity_wf SENT_PACKETS_SIZE_def)
      (auto simp: SequenceBuffer_with_capacity_def sb_cap_def)
qed

lemma am_wf_reinject:
  assumes "am_wf c m" and "window_len m + element_len c p \<le> usize_max"
  shows "am_wf c (reinject_unacked c m p)"
proof (cases "slot_try_from (p_slot p)")
  case None
  then show ?thesis
    using assms(1) by (simp add: reinject_unacked_def)
next
  case (Some raw)
  then have "window_entry_ok c ((raw, p_seq p), registered c (am_packet_seq m) p)"
    by (simp add: window_entry_ok_def registered_def payload_key_def)
  then have "am_wf c (insert_unacked m (raw, p_seq p) (registered c (am_packet_seq m) p))"
    using assms by (intro am_wf_insert_unacked) (auto simp: registered_def)
  then show ?thesis
    using assms(1) Some
    by (simp add: reinject_unacked_def Let_def registered_def element_len_def)
qed

lemma am_wf_set_turns_complete: "am_wf c m \<Longrightarrow> am_wf c (set_turns_complete m n)"
  by (simp add: set_turns_complete_def am_wf_def window_len_def)

lemma am_wf_build:
  assumes "am_wf c m" and "op_fits c m (Build payload mx)"
  shows "am_wf c (snd (build_outgoing c m payload mx))"
proof (cases "am_packet_seq m = - 1")
  case True
  then show ?thesis
    using assms(1) by (simp add: build_outgoing_exhausted)
next
  case False
  show ?thesis
    by (rule build_outgoing_spec [OF assms(1) False, of payload mx]) (use assms(2) in simp)
qed

lemma am_apply_wf:
  assumes "am_wf c m" and "op_fits c m a" and "am_apply c m a = Some m'"
  shows "am_wf c m'"
proof (cases a)
  case (Build payload mx)
  then show ?thesis
    using assms am_wf_build by auto
next
  case (Sent pk)
  then have rc: "record_carries (pk_seq pk) (am_unacked_payloads m) (pk_payloads pk) \<noteq> None"
    using assms(3) record_sent_carries by simp
  have lt: "pk_seq pk < am_packet_seq m"
    using assms(2) Sent by simp
  obtain m2 where "record_sent m pk = Some m2" and "am_wf c m2"
    by (rule record_sent_spec [OF assms(1) lt rc]) (rule that)
  then show ?thesis
    using assms(3) Sent by simp
next
  case (Incoming pk)
  show ?thesis
  proof (cases "check_acks m pk")
    case (Inl e)
    then show ?thesis
      using assms Incoming by (auto simp: handle_incoming_error)
  next
    case (Inr u)
    then have ok: "check_acks m pk = Inr ()"
      by simp
    obtain m2 where "handle_incoming m pk = Some (Inr (), m2)" and "retired_by c (acked_packets pk)
      (m\<lparr>am_received_packets := ReceivedPacketHistory_record (am_received_packets m) (pk_seq pk)\<rparr>) m2"
      by (rule handle_incoming_ok [OF assms(1) ok])
    then show ?thesis
      using assms(3) Incoming by (simp add: retired_by_def)
  qed
qed (use assms in \<open>auto simp: am_wf_retire_payloads_through am_wf_reinject am_wf_reset_connection
      am_wf_set_turns_complete\<close>)

lemma am_apply_keeps_window:
  assumes "am_wf c m" and "op_fits c m a" and "am_apply c m a = Some m'"
    and "in_window m k" and "\<not> in_window m' k"
  shows "(\<exists>pk. a = Incoming pk \<and> check_acks m pk = Inr () \<and> (\<exists>s \<in> acked_packets pk. k \<in> carried m s)) \<or>
    (\<exists>through. a = CursorThrough (fst k) through \<and> snd k \<le> through)"
proof (cases a)
  case (Build payload mx)
  show ?thesis
  proof (cases "am_packet_seq m = - 1")
    case True
    then show ?thesis
      using assms(3-5) Build by (simp add: build_outgoing_exhausted)
  next
    case False
    have "in_window m' k"
      by (rule build_outgoing_spec [OF assms(1) False, of payload mx])
        (use assms(3,4) Build in \<open>simp add: in_window_def window_with_fresh_def
          split: option.splits prod.splits\<close>)
    then show ?thesis
      using assms(5) by simp
  qed
next
  case (Sent pk)
  then have rc: "record_carries (pk_seq pk) (am_unacked_payloads m) (pk_payloads pk) \<noteq> None"
    using assms(3) record_sent_carries by simp
  have lt: "pk_seq pk < am_packet_seq m"
    using assms(2) Sent by simp
  obtain m2 where "record_sent m pk = Some m2"
    and "win_view (am_unacked_payloads m2) = win_view (am_unacked_payloads m)"
    by (rule record_sent_spec [OF assms(1) lt rc]) (rule that)
  then have "win_view (am_unacked_payloads m') = win_view (am_unacked_payloads m)"
    using assms(3) Sent by simp
  then show ?thesis
    using assms(4,5) in_window_view by blast
next
  case (Incoming pk)
  show ?thesis
  proof (cases "check_acks m pk")
    case (Inl e)
    then show ?thesis
      using assms Incoming by (auto simp: handle_incoming_error)
  next
    case (Inr u)
    then have ok: "check_acks m pk = Inr ()"
      by simp
    obtain m2 where "handle_incoming m pk = Some (Inr (), m2)" and "retired_by c (acked_packets pk)
      (m\<lparr>am_received_packets := ReceivedPacketHistory_record (am_received_packets m) (pk_seq pk)\<rparr>) m2"
      by (rule handle_incoming_ok [OF assms(1) ok])
    then have "am_unacked_payloads m' =
       filter (\<lambda>e. fst e \<notin> (\<Union>s \<in> acked_packets pk. carried m s)) (am_unacked_payloads m)"
      using assms(3) Incoming retired_by_record(2) by fastforce
    then have "k \<in> (\<Union>s \<in> acked_packets pk. carried m s)"
      using assms(4,5) by (auto simp: in_window_def)
    then show ?thesis
      using Incoming ok by blast
  qed
next
  case (CursorThrough slot through)
  then have "am_unacked_payloads m' = filter (\<lambda>e. \<not> (fst (fst e) = slot \<and> snd (fst e) \<le> through))
      (am_unacked_payloads m)"
    using assms(3) by (auto simp: retire_payloads_through_window)
  then have "fst k = slot \<and> snd k \<le> through"
    using assms(4,5) by (auto simp: in_window_def)
  then show ?thesis
    using CursorThrough by blast
next
  case (Reinject p)
  then have "in_window m' k"
    using assms(3,4)
    by (auto simp: reinject_unacked_def Let_def in_window_insert split: option.splits if_splits)
  then show ?thesis
    using assms(5) by simp
next
  case ResetConnection
  then have "in_window m' k"
    using assms(3,4) in_window_view [OF reset_connection_view, of m k] by simp
  then show ?thesis
    using assms(5) by simp
next
  case (SetTurnsComplete n)
  then show ?thesis
    using assms(3-5) by (auto simp: set_turns_complete_def in_window_def)
qed

lemma redundancy_cap_le: "redundancy_cap policy mx used \<le> mx"
  by (simp add: redundancy_cap_def split: option.split)

lemma redundancy_cap_budget:
  "rp_redundancy_byte_budget policy = Some budget \<Longrightarrow> redundancy_cap policy mx used \<le> used + budget"
  by (simp add: redundancy_cap_def usize_saturating_add_def)

lemma window_wire_len:
  assumes "am_wf c m" and "sp \<in> set (bm_values (am_unacked_payloads m))"
  shows "sp_wire_len sp = element_len c (sp_payload sp)"
  using am_wfD(2) [OF assms(1)] assms(2) by (auto simp: bm_values_def window_entry_ok_def)

lemma window_positive:
  assumes "am_wf c m" and "sp \<in> set (bm_values (am_unacked_payloads m))"
  shows "0 < sp_wire_len sp"
  using window_wire_len [OF assms] by (simp add: element_len_def payload_element_len_def)

lemma selected_wire_len:
  assumes "am_wf c m" and "mset sel \<subseteq># mset (due_payloads (am_unacked_payloads m) spacing b)"
    and "sp \<in> set sel"
  shows "sp_wire_len sp = element_len c (sp_payload sp)"
proof (rule window_wire_len [OF assms(1)])
  have "sp \<in> set (due_payloads (am_unacked_payloads m) spacing b)"
    using set_mset_mono [OF assms(2)] assms(3) by auto
  then show "sp \<in> set (bm_values (am_unacked_payloads m))"
    by (simp add: due_payloads_def)
qed

lemma outgoing_redundancy_spec:
  assumes "am_wf c m"
  obtains sel where "outgoing_redundancy c m payload mx = map sp_payload sel"
    and "mset sel \<subseteq># mset (due_payloads (am_unacked_payloads m) (outgoing_spacing m payload)
      (am_packet_seq m))"
    and "outgoing_used c m payload + sum_list (map sp_wire_len sel) \<le> max (outgoing_used c m payload) mx"
    and "outgoing_used c m payload + sum_list (map sp_wire_len sel) \<le>
      max (outgoing_used c m payload) (redundancy_cap (am_policy m) mx (outgoing_used c m payload)) \<or>
      length sel = 1"
  unfolding outgoing_redundancy_def
  by (rule redundancy_reference_spec [of "redundancy_cap (am_policy m) mx (outgoing_used c m payload)"
        mx "am_unacked_payloads m" "outgoing_spacing m payload" "am_packet_seq m"
        "outgoing_used c m payload"])
    (auto simp: redundancy_cap_le intro: window_positive [OF assms] that)

fun am_run :: "codec \<Rightarrow> AckManager \<Rightarrow> am_op list \<Rightarrow> AckManager option" where
  "am_run c m [] = Some m"
| "am_run c m (a # as) =
     (if op_fits c m a then do { m' \<leftarrow> am_apply c m a; am_run c m' as } else None)"

definition retires :: "AckManager \<Rightarrow> am_op \<Rightarrow> SlotId \<times> u64 \<Rightarrow> bool" where
  "retires m a k \<longleftrightarrow>
     (\<exists>pk. a = Incoming pk \<and> check_acks m pk = Inr () \<and> (\<exists>s \<in> acked_packets pk. k \<in> carried m s)) \<or>
     (\<exists>through. a = CursorThrough (fst k) through \<and> snd k \<le> through)"

lemma am_run_wf:
  "am_run c m as = Some m' \<Longrightarrow> am_wf c m \<Longrightarrow> am_wf c m'"
  by (induction as arbitrary: m) (auto split: if_splits Option.bind_splits intro: am_apply_wf)

lemma drop_bit_nonzero_iff: "drop_bit n w \<noteq> 0 \<longleftrightarrow> (\<exists>b \<ge> n. bit w b)" for w :: "'a::len word"
proof -
  have "drop_bit n w \<noteq> 0 \<longleftrightarrow> (\<exists>b. bit w (n + b))"
    using bit_imp_le_length [of w] by (fastforce simp: bit_eq_iff bit_drop_bit_eq)
  then show ?thesis
    by (metis le_add1 le_Suc_ex)
qed

lemma slot_seqs_sorted:
  assumes "bm_wf w"
  shows "sorted_wrt (<) (slot_seqs w slot)"
  using assms
  by (induction w) (auto simp: slot_seqs_def bm_wf_Cons less_prod_def' case_prod_beta)

lemma set_slot_seqs: "set (slot_seqs w slot) = {q. (slot, q) \<in> fst ` set w}"
  by (force simp: slot_seqs_def)

lemma word_less_succ_iff: "s < a \<Longrightarrow> s + 1 = a \<Longrightarrow> q < a \<longleftrightarrow> q \<le> s" for s :: "'a::len word"
  by (metis inc_le leD le_less_trans not_le)

lemma descend_contiguous_spec:
  assumes "sorted_wrt (>) ss" and "\<forall>q \<in> set ss. q < anchor"
  shows "descend_contiguous anchor ss \<le> anchor \<and>
    (\<forall>q. descend_contiguous anchor ss \<le> q \<and> q < anchor \<longrightarrow> q \<in> set ss) \<and>
    (\<forall>q \<in> set ss. q + 1 \<noteq> descend_contiguous anchor ss)"
  using assms
proof (induction anchor ss rule: descend_contiguous.induct)
  case (2 anchor s ss)
  show ?case
  proof (cases "s + 1 = anchor")
    case True
    let ?a = "descend_contiguous s ss"
    have IH: "?a \<le> s \<and> (\<forall>q. ?a \<le> q \<and> q < s \<longrightarrow> q \<in> set ss) \<and> (\<forall>q \<in> set ss. q + 1 \<noteq> ?a)"
      using 2(2,3) True by (intro 2(1)) auto
    have less: "s < anchor"
      using 2(3) by simp
    then have "?a \<le> anchor" and "s + 1 \<noteq> ?a"
      using IH True by auto
    moreover have "q \<in> set (s # ss)" if "?a \<le> q" and "q < anchor" for q
      using IH that word_less_succ_iff [OF less True, of q] by (auto simp: le_less)
    ultimately show ?thesis
      using IH True by simp
  next
    case False
    have "q + 1 \<noteq> anchor" if "q \<in> set ss" for q
    proof -
      have "q < s"
        using 2(2) that by simp
      then have "q + 1 \<le> s"
        by (rule inc_le)
      then show ?thesis
        using 2(3) by auto
    qed
    with False show ?thesis
      by auto
  qed
qed auto

section \<open>Properties\<close>

text \<open>A built packet takes the next packet number, carries the fresh payload first (unless its slot
  is out of range) and then distinct, due payloads of the unacked window; nothing leaves the window,
  the fresh payload enters it, and nothing is recorded as sent.\<close>

theorem build_outgoing_carries:
  assumes "am_wf c m" and "am_packet_seq m \<noteq> - 1"
    and "window_len m + sum_list (map (element_len c) (fresh_list (fresh_payload payload))) \<le> usize_max"
  shows "\<exists>packet m' sel. build_outgoing c m payload mx = (Inr packet, m') \<and>
    pk_seq packet = am_packet_seq m \<and>
    pk_payloads packet = fresh_list (fresh_payload payload) @ map sp_payload sel \<and>
    mset sel \<subseteq># mset (due_payloads (am_unacked_payloads m) (outgoing_spacing m payload) (am_packet_seq m)) \<and>
    am_wf c m' \<and> am_packet_seq m' = am_packet_seq m + 1 \<and>
    am_unacked_payloads m' = window_with_fresh c m payload \<and>
    am_sent_packets m' = am_sent_packets m"
proof -
  obtain sel where sel: "outgoing_redundancy c m payload mx = map sp_payload sel"
    "mset sel \<subseteq># mset (due_payloads (am_unacked_payloads m) (outgoing_spacing m payload) (am_packet_seq m))"
    by (rule outgoing_redundancy_spec [OF assms(1)])
  show ?thesis
    by (rule build_outgoing_spec [OF assms(1,2), of payload mx])
      (use sel assms(3) in \<open>auto simp: outgoing_header_def intro!: exI [of _ sel]\<close>)
qed

text \<open>C23: The size of a built packet is at most the datagram budget, or what the header and the fresh
  payload alone take when that is more; and its redundancy stays within the policy's byte budget
  unless it is a single payload.\<close>

theorem build_outgoing_size:
  assumes "codec_ok c" and "am_wf c m" and "build_outgoing c m payload mx = (Inr packet, m')"
  shows "c_packet_len c packet \<le> max (outgoing_used c m payload) mx \<and>
    (\<forall>budget. rp_redundancy_byte_budget (am_policy m) = Some budget \<longrightarrow>
       sum_list (map (element_len c) (outgoing_redundancy c m payload mx)) \<le> budget \<or>
       length (outgoing_redundancy c m payload mx) = 1) \<and>
    pk_payloads packet = fresh_list (fresh_payload payload) @ outgoing_redundancy c m payload mx"
proof -
  have seq: "am_packet_seq m \<noteq> - 1"
    using assms(3) build_outgoing_exhausted by fastforce
  let ?used = "outgoing_used c m payload"
  let ?cap = "redundancy_cap (am_policy m) mx ?used"
  have packet: "packet = (outgoing_header m)\<lparr>pk_payloads :=
      fresh_list (fresh_payload payload) @ outgoing_redundancy c m payload mx\<rparr>"
    by (rule build_outgoing_spec [OF assms(2) seq, of payload mx]) (use assms(3) in simp)
  obtain sel where sel: "outgoing_redundancy c m payload mx = map sp_payload sel"
    "mset sel \<subseteq># mset (due_payloads (am_unacked_payloads m) (outgoing_spacing m payload) (am_packet_seq m))"
    "?used + sum_list (map sp_wire_len sel) \<le> max ?used mx"
    "?used + sum_list (map sp_wire_len sel) \<le> max ?used ?cap \<or> length sel = 1"
    by (rule outgoing_redundancy_spec [OF assms(2)])
  have len: "sum_list (map sp_wire_len sel) = sum_list (map (element_len c) (map sp_payload sel))"
    using selected_wire_len [OF assms(2) sel(2)] by (simp add: comp_def cong: map_cong)
  have "c_packet_len c packet = ?used + sum_list (map sp_wire_len sel)"
    unfolding packet by (subst codec_okD(1) [OF assms(1)])
      (simp add: outgoing_used_def len sel(1) outgoing_header_def)
  moreover have "sum_list (map sp_wire_len sel) \<le> budget \<or> length sel = 1"
    if "rp_redundancy_byte_budget (am_policy m) = Some budget" for budget
    using sel(4) redundancy_cap_budget [OF that, of mx ?used] by linarith
  ultimately show ?thesis
    using sel(1,3) len packet by simp
qed

text \<open>C21: A maintenance flush (a packet with no fresh payload) carries the payload that has waited
  longest, whatever the policy, as long as every registered payload was admitted against the
  guaranteed datagram budget and the connection offers at least that budget.\<close>

theorem flush_serves_longest_waiting:
  assumes "codec_ok c" and "am_wf c m" and "am_unacked_payloads m \<noteq> []"
    and "\<forall>sp \<in> set (bm_values (am_unacked_payloads m)). fits_guaranteed_datagram c (sp_payload sp)"
    and "GUARANTEED_DATAGRAM_BUDGET \<le> mx"
    and "build_outgoing c m None mx = (Inr packet, m')"
  shows "\<exists>sp \<in> set (bm_values (am_unacked_payloads m)). sp_payload sp \<in> set (pk_payloads packet) \<and>
    (\<forall>sp' \<in> set (bm_values (am_unacked_payloads m)).
       waiting_age sp' (am_packet_seq m) \<le> waiting_age sp (am_packet_seq m))"
proof -
  have seq: "am_packet_seq m \<noteq> - 1"
    using assms(6) build_outgoing_exhausted by fastforce
  have none: "fresh_payload None = None" "outgoing_spacing m None = None"
    by (simp_all add: fresh_payload_def outgoing_spacing_def)
  have packet: "pk_payloads packet = outgoing_redundancy c m None mx"
    by (rule build_outgoing_spec [OF assms(2) seq, of None mx])
      (use assms(6) none in \<open>simp add: fresh_list_def\<close>)
  have "outgoing_used c m None \<le> c_packet_len c widest_header"
    using codec_okD(2) [OF assms(1), of "outgoing_header m"]
    by (simp add: outgoing_used_def none fresh_list_def outgoing_header_def)
  then have fit: "outgoing_used c m None + sp_wire_len sp \<le> mx"
    if "sp \<in> set (bm_values (am_unacked_payloads m))" for sp
    using assms(4,5) that window_wire_len [OF assms(2) that]
    by (fastforce simp: fits_guaranteed_datagram_def lone_packet_len_def element_len_def)
  show ?thesis
    by (rule redundancy_serves_longest [of "am_unacked_payloads m" None "am_packet_seq m"
          "outgoing_used c m None" mx "redundancy_cap (am_policy m) mx (outgoing_used c m None)"])
      (use assms(3) fit packet none in \<open>auto simp: outgoing_redundancy_def bm_values_def\<close>)
qed


text \<open>C22: Handling an incoming packet never panics.  An inconsistent packet changes nothing; a
  consistent one is recorded, removes exactly the payloads carried by the sent packets it acks, and
  forgets those packets.\<close>

theorem handle_incoming_exact:
  assumes "am_wf c m"
  shows "case check_acks m pk of
      Inl e \<Rightarrow> handle_incoming m pk = Some (Inl e, m)
    | Inr _ \<Rightarrow> \<exists>m'. handle_incoming m pk = Some (Inr (), m') \<and> am_wf c m' \<and>
        am_unacked_payloads m' =
          filter (\<lambda>e. fst e \<notin> (\<Union>s \<in> acked_packets pk. carried m s)) (am_unacked_payloads m) \<and>
        sb_lookup (am_sent_packets m') =
          (\<lambda>s. if s \<in> acked_packets pk then None else sb_lookup (am_sent_packets m) s) \<and>
        am_received_packets m' = ReceivedPacketHistory_record (am_received_packets m) (pk_seq pk) \<and>
        am_packet_seq m' = am_packet_seq m"
proof (cases "check_acks m pk")
  case (Inl e)
  then show ?thesis
    by (simp add: handle_incoming_error)
next
  case (Inr u)
  then have ok: "check_acks m pk = Inr ()"
    by simp
  obtain m2 where m2: "handle_incoming m pk = Some (Inr (), m2)" and "retired_by c (acked_packets pk)
      (m\<lparr>am_received_packets := ReceivedPacketHistory_record (am_received_packets m) (pk_seq pk)\<rparr>) m2"
    by (rule handle_incoming_ok [OF assms ok])
  note r = retired_by_record [OF this(2)]
  show ?thesis
    unfolding ok sum.case using m2 r(1-5) by blast
qed

text \<open>The error an incoming packet is refused with names its inconsistency: an ack of a packet not
  sent yet, ack bits without an ack, or an ack bit that reaches below packet zero.\<close>

theorem check_acks_errors:
  "check_acks m pk =
     (case pk_ack pk of
        None \<Rightarrow> if pk_ack_bits pk = 0 then Inr () else Inl AckBitsWithoutAck
      | Some ack \<Rightarrow>
          if am_packet_seq m \<le> ack then Inl (AckAheadOfSent ack (am_packet_seq m))
          else if \<exists>b \<ge> unat ack. bit (pk_ack_bits pk) b
          then Inl (AckBitsOutOfRange ack (pk_ack_bits pk)) else Inr ())"
proof -
  have "ack < 32 \<and> drop_bit (unat ack) bits \<noteq> 0 \<longleftrightarrow> (\<exists>b \<ge> unat ack. bit bits b)" for ack bits :: u32
    using bit_imp_le_length [of bits] by (auto simp: drop_bit_nonzero_iff word_arith dest: le_less_trans)
  then show ?thesis
    by (auto simp: check_acks_def split: option.split)
qed


text \<open>The anchor a re-home resume advertises is the lowest one the unacked window can honour: every
  number of the slot from the anchor up to the retention front is unacked, and the number just below
  the anchor is not.\<close>

theorem contiguous_replayable_anchor_maximal:
  assumes "am_wf c m"
  shows "contiguous_replayable_anchor m slot front \<le> front \<and>
    (\<forall>q. contiguous_replayable_anchor m slot front \<le> q \<and> q < front \<longrightarrow> in_window m (slot, q)) \<and>
    (\<forall>q. q < front \<and> q + 1 = contiguous_replayable_anchor m slot front \<longrightarrow> \<not> in_window m (slot, q))"
proof -
  let ?ss = "rev (filter (\<lambda>s. s < front) (slot_seqs (am_unacked_payloads m) slot))"
  have "sorted_wrt (>) ?ss"
    using slot_seqs_sorted [OF am_wfD(1) [OF assms], of slot]
    by (simp add: sorted_wrt_rev sorted_wrt_filter)
  moreover have "\<forall>q \<in> set ?ss. q < front"
    by simp
  ultimately have D: "descend_contiguous front ?ss \<le> front"
    "\<And>q. descend_contiguous front ?ss \<le> q \<Longrightarrow> q < front \<Longrightarrow> q \<in> set ?ss"
    "\<And>q. q \<in> set ?ss \<Longrightarrow> q + 1 \<noteq> descend_contiguous front ?ss"
    using descend_contiguous_spec [of ?ss front] by blast+
  have mem: "q \<in> set ?ss \<longleftrightarrow> q < front \<and> in_window m (slot, q)" for q
    unfolding in_window_def set_rev set_filter set_slot_seqs by blast
  show ?thesis
    unfolding contiguous_replayable_anchor_def using D(1) D(2,3) [unfolded mem] by metis
qed

section \<open>Witnesses\<close>

text \<open>A manager that has built one packet carrying one payload, and the peer's ack of it.\<close>

definition demo_payload :: "u64 \<Rightarrow> Payload" where
  "demo_payload s =
     \<lparr>p_seq = s, p_slot = 1, p_commands = [5], p_game_frame_count = None, p_sync_generation = None,
      p_buffer_directive = None, p_state_hash = None\<rparr>"

definition demo_build :: "(PacketSeqExhausted + Packet) \<times> AckManager" where
  "demo_build = build_outgoing proto3_codec AckManager_new (Some (demo_payload 7)) 1200"

definition demo_manager :: AckManager where
  "demo_manager = snd demo_build"

definition demo_packet :: Packet where
  "demo_packet = (case fst demo_build of Inr pk \<Rightarrow> pk | Inl _ \<Rightarrow> widest_header)"

definition demo_ack :: Packet where
  "demo_ack =
     \<lparr>pk_seq = 0, pk_ack = Some 0, pk_ack_bits = 0, pk_payloads = [], pk_turns_complete = None\<rparr>"

lemma demo_element_len: "element_len proto3_codec (demo_payload 7) = 9"
  by code_simp

lemma demo_fresh: "fresh_list (fresh_payload (Some (demo_payload 7))) = [demo_payload 7]"
  by code_simp

lemma demo_new: "am_wf proto3_codec AckManager_new" "window_len AckManager_new = 0"
  "am_packet_seq AckManager_new \<noteq> - 1"
  by (simp_all add: AckManager_new_def am_wf_with_policy)
    (simp_all add: AckManager_with_policy_def window_len_def)

lemma demo_fits:
  "window_len AckManager_new +
     sum_list (map (element_len proto3_codec) (fresh_list (fresh_payload (Some (demo_payload 7)))))
   \<le> usize_max"
  unfolding demo_fresh by (simp add: demo_element_len demo_new usize_max_def)

lemma demo_manager_wf: "am_wf proto3_codec demo_manager"
  unfolding demo_manager_def demo_build_def
  by (intro am_wf_build demo_new(1)) (simp add: demo_fits)

lemma demo_build_eq: "demo_build = (Inr demo_packet, demo_manager)"
proof -
  obtain pk m where E: "demo_build = (Inr pk, m)"
    using build_outgoing_spec [OF demo_new(1,3)] unfolding demo_build_def by metis
  show ?thesis
    unfolding demo_packet_def demo_manager_def by (subst (1 2 3) E) simp
qed

lemma demo_window: "bm_values (am_unacked_payloads demo_manager) =
    [registered proto3_codec 0 (demo_payload 7)]"
  by code_simp

theorem build_outgoing_carries_witness:
  "\<exists>packet m' (sel :: SentPayload list).
     build_outgoing proto3_codec AckManager_new (Some (demo_payload 7)) 1200 = (Inr packet, m') \<and>
     pk_payloads packet = [demo_payload 7] @ map sp_payload sel"
  using build_outgoing_carries [OF demo_new(1,3) demo_fits, of 1200] unfolding demo_fresh
  by (elim exE conjE, intro exI conjI)

theorem build_outgoing_size_witness:
  "c_packet_len proto3_codec demo_packet \<le>
     max (outgoing_used proto3_codec AckManager_new (Some (demo_payload 7))) 1200"
  using build_outgoing_size [OF proto3_codec_ok demo_new(1) demo_build_eq [unfolded demo_build_def]]
  by blast

theorem flush_serves_longest_waiting_witness:
  "\<exists>packet m'. build_outgoing proto3_codec demo_manager None 1200 = (Inr packet, m') \<and>
     demo_payload 7 \<in> set (pk_payloads packet)"
proof -
  have seq: "am_packet_seq demo_manager \<noteq> - 1"
    by code_simp
  have fits: "fits_guaranteed_datagram proto3_codec (demo_payload 7)"
    using demo_element_len
    by (simp add: fits_guaranteed_datagram_def lone_packet_len_def proto3_widest_header
        element_len_def GUARANTEED_DATAGRAM_BUDGET_def)
  have reg: "sp_payload (registered proto3_codec 0 (demo_payload 7)) = demo_payload 7"
    by (simp add: registered_def)
  have ne: "am_unacked_payloads demo_manager \<noteq> []"
    using demo_window by (auto simp: bm_values_def)
  obtain packet m' where "build_outgoing proto3_codec demo_manager None 1200 = (Inr packet, m')"
    using build_outgoing_spec [OF demo_manager_wf seq] by metis
  then show ?thesis
    using flush_serves_longest_waiting [OF proto3_codec_ok demo_manager_wf ne, of 1200 packet m'] fits
    by (auto simp: demo_window reg GUARANTEED_DATAGRAM_BUDGET_def)
qed

theorem handle_incoming_exact_witness:
  "case check_acks demo_manager demo_ack of
     Inl e \<Rightarrow> handle_incoming demo_manager demo_ack = Some (Inl e, demo_manager)
   | Inr _ \<Rightarrow> \<exists>m'. handle_incoming demo_manager demo_ack = Some (Inr (), m') \<and> am_wf proto3_codec m'"
  using handle_incoming_exact [OF demo_manager_wf, of demo_ack]
  by (auto split: sum.splits)

theorem check_acks_errors_witness:
  "check_acks AckManager_new demo_ack = Inl (AckAheadOfSent 0 0)"
proof -
  have "am_packet_seq AckManager_new = 0" "pk_ack demo_ack = Some 0"
    by (simp_all add: AckManager_new_def AckManager_with_policy_def demo_ack_def)
  then show ?thesis
    using check_acks_errors [of AckManager_new demo_ack] by simp
qed


theorem contiguous_replayable_anchor_maximal_witness:
  "contiguous_replayable_anchor demo_manager 1 8 \<le> 8 \<and> in_window demo_manager (1, 7)"
proof -
  have "contiguous_replayable_anchor demo_manager 1 8 = 7"
    by code_simp
  then show ?thesis
    using contiguous_replayable_anchor_maximal [OF demo_manager_wf, of 1 8] by simp
qed

end
