(* ===== verification/Link.thy ===== *)
theory Link
  imports DedupProperties AckProperties
begin

text \<open>
  A transport link over one QUIC connection, \<open>transport/src/link/mod.rs\<close>: the composition of the ack
  manager and the receive-side dedup.  The QUIC connection is not part of the model's state; what the
  code reads from it is an argument of the operation that reads it: \<open>max_datagram_size\<close> (absent when the
  peer does not support datagrams) and the outcome of \<open>send_datagram\<close>.  An \<open>option\<close> result is \<open>None\<close>
  where the code would panic.
\<close>

datatype 'e SendDatagramError = TooLarge | OtherSendError 'e

record Link =
  lk_acks :: AckManager
  lk_dedup :: Dedup
  lk_ingress_slot :: "SlotId option"

record Received =
  rc_fresh :: "Payload list"
  rc_carried_payloads :: bool
  rc_turns_complete :: "u64 option"

definition Link_new :: Link where
  "Link_new = \<lparr>lk_acks = AckManager_new, lk_dedup = Dedup_new, lk_ingress_slot = None\<rparr>"

definition Link_with_ingress_slot :: "SlotId \<Rightarrow> Link" where
  "Link_with_ingress_slot slot =
     \<lparr>lk_acks = AckManager_new, lk_dedup = Dedup_new, lk_ingress_slot = Some slot\<rparr>"

definition Link_rebind :: "Link \<Rightarrow> Link" where
  "Link_rebind lk = lk\<lparr>lk_acks := reset_connection (lk_acks lk)\<rparr>"

definition Link_seed_delivered :: "Link \<Rightarrow> SlotId \<Rightarrow> u64 \<Rightarrow> Link" where
  "Link_seed_delivered lk slot s = lk\<lparr>lk_dedup := mark_delivered (lk_dedup lk) slot s\<rparr>"

definition Link_seed_delivered_through :: "Link \<Rightarrow> SlotId \<Rightarrow> u64 \<Rightarrow> Link" where
  "Link_seed_delivered_through lk slot through =
     lk\<lparr>lk_dedup := mark_delivered_through (lk_dedup lk) slot through\<rparr>"

definition Link_delivered_through :: "Link \<Rightarrow> SlotId \<Rightarrow> u64 option" where
  "Link_delivered_through lk slot = Dedup_delivered_through (lk_dedup lk) slot"

definition Link_retire_through :: "Link \<Rightarrow> SlotId \<Rightarrow> u64 \<Rightarrow> nat \<times> Link" where
  "Link_retire_through lk slot through_seq =
     (let (advanced, d) = advance_retired_through (lk_dedup lk) slot through_seq;
          lk' = lk\<lparr>lk_dedup := d\<rparr>
      in if advanced then
           (let (n, m) = retire_payloads_through (lk_acks lk') slot through_seq
            in (n, lk'\<lparr>lk_acks := m\<rparr>))
         else (0, lk'))"

definition Link_reinject_unacked :: "codec \<Rightarrow> Link \<Rightarrow> Payload \<Rightarrow> Link" where
  "Link_reinject_unacked c lk p = lk\<lparr>lk_acks := reinject_unacked c (lk_acks lk) p\<rparr>"

definition datagram_admission_budget :: "nat option \<Rightarrow> 'e LinkError + nat" where
  "datagram_admission_budget max_datagram_size =
     (case max_datagram_size of
        None \<Rightarrow> Inl DatagramsUnsupported
      | Some live \<Rightarrow> Inr (min live GUARANTEED_DATAGRAM_BUDGET))"

definition payload_fits :: "codec \<Rightarrow> nat option \<Rightarrow> Payload \<Rightarrow> 'e LinkError + bool" where
  "payload_fits c max_datagram_size p =
     (case datagram_admission_budget max_datagram_size of
        Inl e \<Rightarrow> Inl e
      | Inr budget \<Rightarrow> Inr (lone_packet_len c p \<le> budget))"

definition anchor_receive_window :: "Link \<Rightarrow> SlotId \<Rightarrow> u64 \<Rightarrow> Link" where
  "anchor_receive_window lk slot anchor = lk\<lparr>lk_dedup := Dedup_anchor (lk_dedup lk) slot anchor\<rparr>"

definition deliver_external :: "Link \<Rightarrow> SlotId \<Rightarrow> u64 \<Rightarrow> ('e LinkError + bool) \<times> Link" where
  "deliver_external lk slot s =
     (let (r, d) = accept (lk_dedup lk) slot s
      in (case r of
            New \<Rightarrow> Inr True
          | Duplicate \<Rightarrow> Inr False
          | OutOfWindow \<Rightarrow> Inl (PayloadOutOfWindow slot s),
          lk\<lparr>lk_dedup := d\<rparr>))"

definition admit :: "codec \<Rightarrow> nat option \<Rightarrow> Payload option \<Rightarrow> 'e LinkError + unit" where
  "admit c max_datagram_size payload =
     (case payload of
        None \<Rightarrow> Inr ()
      | Some p \<Rightarrow>
          if slot_try_from (p_slot p) = None then Inl (MalformedSlot (p_slot p))
          else
            (case datagram_admission_budget max_datagram_size of
               Inl e \<Rightarrow> Inl e
             | Inr admission \<Rightarrow>
                 if admission < lone_packet_len c p
                 then Inl (PayloadTooLarge (lone_packet_len c p) admission)
                 else Inr ()))"

definition Link_send ::
    "codec \<Rightarrow> nat option \<Rightarrow> (Packet \<Rightarrow> 'e SendDatagramError + unit) \<Rightarrow> Link \<Rightarrow> Payload option \<Rightarrow>
       (('e LinkError + nat) \<times> Link) option" where
  "Link_send c max_datagram_size send_datagram lk payload =
     (case max_datagram_size of
        None \<Rightarrow> Some (Inl DatagramsUnsupported, lk)
      | Some budget \<Rightarrow>
          (case admit c max_datagram_size payload of
             Inl e \<Rightarrow> Some (Inl e, lk)
           | Inr _ \<Rightarrow>
               (case build_outgoing c (lk_acks lk) payload budget of
                  (Inl e, m) \<Rightarrow> Some (Inl (SeqExhausted e), lk\<lparr>lk_acks := m\<rparr>)
                | (Inr packet, m) \<Rightarrow> do {
                    let had_fresh = (if payload \<noteq> None then 1 else 0);
                    rust_assert (had_fresh \<le> length (pk_payloads packet));
                    let redundant = length (pk_payloads packet) - had_fresh;
                    (case send_datagram packet of
                       Inr _ \<Rightarrow> do {
                         m' \<leftarrow> record_sent m packet;
                         Some (Inr redundant, lk\<lparr>lk_acks := m'\<rparr>)
                       }
                     | Inl TooLarge \<Rightarrow>
                         Some (Inl (PayloadTooLarge (c_packet_len c packet) budget), lk\<lparr>lk_acks := m\<rparr>)
                     | Inl (OtherSendError e) \<Rightarrow> Some (Inl (Send e), lk\<lparr>lk_acks := m\<rparr>))
                  })))"

definition Link_set_turns_complete :: "Link \<Rightarrow> u64 option \<Rightarrow> Link" where
  "Link_set_turns_complete lk n = lk\<lparr>lk_acks := set_turns_complete (lk_acks lk) n\<rparr>"

definition rewrite_slots :: "SlotId option \<Rightarrow> Payload list \<Rightarrow> Payload list" where
  "rewrite_slots ingress payloads =
     (case ingress of
        None \<Rightarrow> payloads
      | Some slot \<Rightarrow> map (\<lambda>p. p\<lparr>p_slot := ucast slot\<rparr>) payloads)"

definition process_incoming :: "Link \<Rightarrow> Packet \<Rightarrow> (('e LinkError + Received) \<times> Link) option" where
  "process_incoming lk packet =
     (case handle_incoming (lk_acks lk) packet of
        None \<Rightarrow> None
      | Some (Inl e, m) \<Rightarrow> Some (Inl (Ack e), lk\<lparr>lk_acks := m\<rparr>)
      | Some (Inr _, m) \<Rightarrow>
          let carried_payloads = (pk_payloads packet \<noteq> []);
              payloads = rewrite_slots (lk_ingress_slot lk) (pk_payloads packet);
              (r, d) = retain_fresh_payloads (lk_dedup lk) payloads;
              lk' = lk\<lparr>lk_acks := m, lk_dedup := d\<rparr>
          in Some (case r of
               Inl e \<Rightarrow> (Inl e, lk')
             | Inr fresh \<Rightarrow>
                 (Inr \<lparr>rc_fresh = fresh, rc_carried_payloads = carried_payloads,
                       rc_turns_complete = pk_turns_complete packet\<rparr>, lk')))"

definition Link_recv ::
    "('d \<Rightarrow> 'e + Packet) \<Rightarrow> ('e + 'd) \<Rightarrow> Link \<Rightarrow> (('e LinkError + Received) \<times> Link) option" where
  "Link_recv decode read lk =
     (case read of
        Inl e \<Rightarrow> Some (Inl (Connection e), lk)
      | Inr datagram \<Rightarrow>
          (case decode datagram of
             Inl e \<Rightarrow> Some (Inl (Decode e), lk)
           | Inr packet \<Rightarrow> process_incoming lk packet))"

section \<open>Well-formed links\<close>

definition link_wf :: "codec \<Rightarrow> Link \<Rightarrow> bool" where
  "link_wf c lk \<longleftrightarrow> am_wf c (lk_acks lk) \<and> strict_inv (lk_dedup lk)"

lemma link_wf_new: "link_wf c Link_new" "link_wf c (Link_with_ingress_slot slot)"
  by (simp_all add: link_wf_def Link_new_def Link_with_ingress_slot_def AckManager_new_def am_wf_with_policy
      dd_inv_new)

text \<open>The room a fresh payload needs, so that neither the byte total nor a carry count overflows.\<close>

definition send_room :: "codec \<Rightarrow> Link \<Rightarrow> Payload option \<Rightarrow> bool" where
  "send_room c lk payload \<longleftrightarrow>
     window_len (lk_acks lk) + sum_list (map (element_len c) (fresh_list (fresh_payload payload))) \<le> usize_max \<and>
     length (am_unacked_payloads (lk_acks lk)) + 2 < 2 ^ 32 \<and>
     (\<forall>(k, sp) \<in> set (am_unacked_payloads (lk_acks lk)).
        unat (sp_send_count sp) + length (am_unacked_payloads (lk_acks lk)) + 2 < 2 ^ 32)"

lemma admit_fresh:
  assumes "admit c mds payload = Inr u"
  shows "fresh_list (fresh_payload payload) = (case payload of None \<Rightarrow> [] | Some p \<Rightarrow> [p])"
  using assms
  by (auto simp: admit_def fresh_list_def fresh_payload_def split: option.splits if_splits)

lemma build_outgoing_counts:
  assumes "am_wf c m" and "am_packet_seq m \<noteq> - 1" and "build_outgoing c m payload mx = (Inr packet, m')"
  shows "length (pk_payloads packet) \<le> length (fresh_list (fresh_payload payload)) + length (am_unacked_payloads m)"
    and "length (fresh_list (fresh_payload payload)) \<le> length (pk_payloads packet)"
    and "set (pk_payloads packet) \<subseteq> set (fresh_list (fresh_payload payload)) \<union> sp_payload ` snd ` set (am_unacked_payloads m)"
proof -
  obtain sel where sel: "outgoing_redundancy c m payload mx = map sp_payload sel"
    "mset sel \<subseteq># mset (due_payloads (am_unacked_payloads m) (outgoing_spacing m payload) (am_packet_seq m))"
    by (rule outgoing_redundancy_spec [OF assms(1)])
  have packet: "pk_payloads packet = fresh_list (fresh_payload payload) @ map sp_payload sel"
    by (rule build_outgoing_spec [OF assms(1,2), of payload mx]) (use assms(3) sel(1) in simp)
  have "length sel \<le> length (due_payloads (am_unacked_payloads m) (outgoing_spacing m payload) (am_packet_seq m))"
    using size_mset_mono [OF sel(2)] by simp
  also have "\<dots> \<le> length (am_unacked_payloads m)"
    unfolding due_payloads_def bm_values_def by (rule order.trans [OF length_filter_le]) simp
  finally show "length (pk_payloads packet) \<le> length (fresh_list (fresh_payload payload)) + length (am_unacked_payloads m)"
    using packet by simp
  show "length (fresh_list (fresh_payload payload)) \<le> length (pk_payloads packet)"
    using packet by simp
  have "set sel \<subseteq> snd ` set (am_unacked_payloads m)"
    using set_mset_mono [OF sel(2)] by (auto simp: due_payloads_def bm_values_def)
  then show "set (pk_payloads packet) \<subseteq> set (fresh_list (fresh_payload payload)) \<union> sp_payload ` snd ` set (am_unacked_payloads m)"
    using packet by auto
qed

lemma build_record_carries:
  assumes "am_wf c m" and "am_packet_seq m \<noteq> - 1" and "build_outgoing c m payload mx = (Inr packet, m')"
    and "\<And>k sp. (k, sp) \<in> set (am_unacked_payloads m) \<Longrightarrow>
      unat (sp_send_count sp) + length (am_unacked_payloads m) + 2 < 2 ^ 32"
    and "length (am_unacked_payloads m) + 2 < 2 ^ 32"
  shows "record_carries (pk_seq packet) (am_unacked_payloads m') (pk_payloads packet) \<noteq> None"
proof (rule record_carries_total)
  fix k sp
  assume mem: "(k, sp) \<in> set (am_unacked_payloads m')"
  have w: "am_unacked_payloads m' = window_with_fresh c m payload"
    by (rule build_outgoing_spec [OF assms(1,2), of payload mx]) (use assms(3) in simp)
  have "length (fresh_list (fresh_payload payload)) \<le> 1"
    by (simp add: fresh_list_def split: option.split)
  then have len: "length (pk_payloads packet) \<le> 1 + length (am_unacked_payloads m)"
    using build_outgoing_counts(1) [OF assms(1-3)] by simp
  have "(k, sp) \<in> set (am_unacked_payloads m) \<or> sp_send_count sp = 0"
    using mem unfolding w
    by (auto simp: window_with_fresh_def registered_def dest!: subsetD [OF set_bm_insert_subset] split: option.splits)
  then show "unat (sp_send_count sp) + length (pk_payloads packet) < 2 ^ 32"
    using assms(4) [of k sp] assms(5) len by auto
qed

text \<open>A send that builds a packet, as a case rule: what was built, and what the transport answered.\<close>

lemma Link_send_built:
  assumes "link_wf c lk" and "send_room c lk payload" and "am_packet_seq (lk_acks lk) \<noteq> - 1"
    and "admit c (Some budget) payload = (Inr () :: 'e LinkError + unit)"
  obtains packet m m' where
    "build_outgoing c (lk_acks lk) payload budget = (Inr packet, m)" and "record_sent m packet = Some m'"
    and "am_wf c m" and "am_wf c m'"
    and "length (fresh_list (fresh_payload payload)) \<le> length (pk_payloads packet)"
    and "Link_send c (Some budget) send_datagram lk payload =
      Some (case send_datagram packet of
        Inr _ \<Rightarrow> (Inr (length (pk_payloads packet) - length (fresh_list (fresh_payload payload))), lk\<lparr>lk_acks := m'\<rparr>)
      | Inl TooLarge \<Rightarrow> (Inl (PayloadTooLarge (c_packet_len c packet) budget), lk\<lparr>lk_acks := m\<rparr>)
      | Inl (OtherSendError (e :: 'e)) \<Rightarrow> (Inl (Send e), lk\<lparr>lk_acks := m\<rparr>))"
    and "pk_seq packet = am_packet_seq (lk_acks lk)" and "am_packet_seq m = am_packet_seq (lk_acks lk) + 1"
    and "am_unacked_payloads m = window_with_fresh c (lk_acks lk) payload"
    and "am_sent_packets m = am_sent_packets (lk_acks lk)"
    and "am_received_packets m = am_received_packets (lk_acks lk)"
    and "pk_ack packet = rh_most_recent (am_received_packets (lk_acks lk))"
    and "pk_ack_bits packet = rh_ack_bits (am_received_packets (lk_acks lk))"
proof -
  have wf: "am_wf c (lk_acks lk)"
    using assms(1) by (simp add: link_wf_def)
  obtain m where build: "build_outgoing c (lk_acks lk) payload budget = (Inr ((outgoing_header (lk_acks lk))\<lparr>pk_payloads :=
          fresh_list (fresh_payload payload) @ outgoing_redundancy c (lk_acks lk) payload budget\<rparr>), m)"
    and m: "am_packet_seq m = am_packet_seq (lk_acks lk) + 1"
      "am_unacked_payloads m = window_with_fresh c (lk_acks lk) payload"
      "am_sent_packets m = am_sent_packets (lk_acks lk)" "am_received_packets m = am_received_packets (lk_acks lk)"
    by (rule build_outgoing_spec [OF wf assms(3), of payload budget]) (rule that)
  define packet where "packet = (outgoing_header (lk_acks lk))\<lparr>pk_payloads :=
          fresh_list (fresh_payload payload) @ outgoing_redundancy c (lk_acks lk) payload budget\<rparr>"
  note build = build [folded packet_def]
  have head: "pk_seq packet = am_packet_seq (lk_acks lk)"
    "pk_ack packet = rh_most_recent (am_received_packets (lk_acks lk))"
    "pk_ack_bits packet = rh_ack_bits (am_received_packets (lk_acks lk))"
    by (simp_all add: packet_def outgoing_header_def AckManager_ack_bits_def last_seen_remote_def
        option.map_comp comp_def ucast_up_ucast_id is_up option.map_ident)
  have "op_fits c (lk_acks lk) (Build payload budget)"
    using assms(2) by (simp add: send_room_def)
  from am_wf_build [OF wf this] have wfm: "am_wf c m"
    by (simp add: build)
  have rc: "record_carries (pk_seq packet) (am_unacked_payloads m) (pk_payloads packet) \<noteq> None"
    by (rule build_record_carries [OF wf assms(3) build]) (use assms(2) in \<open>auto simp: send_room_def\<close>)
  have lt: "pk_seq packet < am_packet_seq m"
    using assms(3) checked_add_one_less(1) [of "am_packet_seq (lk_acks lk)"]
    unfolding head m(1) by (simp add: checked_add_one)
  obtain m' where m': "record_sent m packet = Some m'" "am_wf c m'"
    by (rule record_sent_spec [OF wfm lt rc]) (rule that)
  have fresh: "length (fresh_list (fresh_payload payload)) = (if payload \<noteq> None then 1 else 0)"
    using admit_fresh [OF assms(4)] by (simp split: option.split)
  have len: "length (fresh_list (fresh_payload payload)) \<le> length (pk_payloads packet)"
    by (simp add: packet_def)
  have "Link_send c (Some budget) send_datagram lk payload =
      Some (case send_datagram packet of
        Inr _ \<Rightarrow> (Inr (length (pk_payloads packet) - length (fresh_list (fresh_payload payload))), lk\<lparr>lk_acks := m'\<rparr>)
      | Inl TooLarge \<Rightarrow> (Inl (PayloadTooLarge (c_packet_len c packet) budget), lk\<lparr>lk_acks := m\<rparr>)
      | Inl (OtherSendError e) \<Rightarrow> (Inl (Send e), lk\<lparr>lk_acks := m\<rparr>))"
    using len assms(4) unfolding fresh
    by (auto simp: Link_send_def build m'(1) Let_def split: sum.split SendDatagramError.split)
  then show ?thesis
    using that [OF build m'(1) wfm m'(2) len _ head(1) m head(2,3)] by blast
qed

lemma admit_iff:
  "admit c (Some budget) payload = (Inr () :: 'e LinkError + unit) \<longleftrightarrow>
    (\<forall>p. payload = Some p \<longrightarrow> payload_key p \<noteq> None \<and> payload_fits c (Some budget) p = (Inr True :: 'e LinkError + bool))"
  by (auto simp: admit_def payload_fits_def datagram_admission_budget_def payload_key_def split: option.splits)

lemma fresh_window:
  assumes "am_unacked_payloads m' = window_with_fresh c m payload"
  shows "in_window m' k \<longleftrightarrow> in_window m k \<or> (\<exists>p. payload = Some p \<and> payload_key p = Some k)"
proof (cases "fresh_payload payload")
  case None
  then have "\<nexists>p. payload = Some p \<and> payload_key p = Some k"
    using fresh_payload_key [of payload "fst k"] by (auto simp: payload_key_def fresh_payload_def split: option.splits)
  then show ?thesis
    using assms None by (auto simp: in_window_def window_with_fresh_def)
next
  case (Some f)
  obtain slot p where f: "f = (slot, p)"
    by force
  have "payload = Some p" "payload_key p = Some (slot, p_seq p)"
    using Some unfolding f fresh_payload_key by auto
  then show ?thesis
    using assms Some f by (auto simp: in_window_def window_with_fresh_def)
qed

lemma record_sent_window:
  assumes "am_wf c m" and "pk_seq pk < am_packet_seq m" and "record_sent m pk = Some m'"
  shows "in_window m' k \<longleftrightarrow> in_window m k" and "am_received_packets m' = am_received_packets m"
    and "am_packet_seq m' = am_packet_seq m" and "am_wf c m'"
    and "carried m' s \<subseteq> carried m s \<or>
      s = ucast (pk_seq pk) \<and> carried m' s = set (List.map_filter payload_key (pk_payloads pk))"
proof -
  note rc = record_sent_carries [OF assms(3)]
  obtain m2 where m2: "record_sent m pk = Some m2" "win_view (am_unacked_payloads m2) = win_view (am_unacked_payloads m)"
      "am_received_packets m2 = am_received_packets m" "am_packet_seq m2 = am_packet_seq m" "am_wf c m2"
      "\<And>s. carried m2 s \<subseteq> carried m s \<or>
      s = ucast (pk_seq pk) \<and> carried m2 s = set (List.map_filter payload_key (pk_payloads pk))"
    by (rule record_sent_spec [OF assms(1,2) rc]) (rule that)
  have "m2 = m'"
    using m2(1) assms(3) by simp
  then show "in_window m' k \<longleftrightarrow> in_window m k" and "am_received_packets m' = am_received_packets m"
    and "am_packet_seq m' = am_packet_seq m" and "am_wf c m'"
    and "carried m' s \<subseteq> carried m s \<or>
      s = ucast (pk_seq pk) \<and> carried m' s = set (List.map_filter payload_key (pk_payloads pk))"
    using m2 in_window_view by blast+
qed

lemma rewrite_slots_key:
  "ingress = Some slot \<Longrightarrow> p \<in> set (rewrite_slots ingress ps) \<Longrightarrow> payload_key p = Some (slot, p_seq p)"
proof -
  have "slot_try_from (ucast slot :: u32) = Some slot" for slot :: u8
  proof -
    have "unat (ucast slot :: u32) = unat slot"
      by (simp add: unat_ucast_up)
    then have "(ucast slot :: u32) < 256"
      using unat_less [of slot] by (simp add: word_arith)
    moreover have "(ucast (ucast slot :: u32) :: u8) = slot"
      by (simp add: ucast_up_ucast_id is_up)
    ultimately show ?thesis
      by (simp add: slot_try_from_def)
  qed
  then show "ingress = Some slot \<Longrightarrow> p \<in> set (rewrite_slots ingress ps) \<Longrightarrow> payload_key p = Some (slot, p_seq p)"
    by (auto simp: rewrite_slots_def payload_key_def)
qed

lemma process_incoming_cases:
  assumes "link_wf c lk"
  obtains (ack) e where "check_acks (lk_acks lk) pk = Inl e"
      and "process_incoming lk pk = Some (Inl (Ack e) :: 'e LinkError + Received, lk)"
  | (refused) e m where "check_acks (lk_acks lk) pk = Inr ()" and "handle_incoming (lk_acks lk) pk = Some (Inr (), m)"
      and "am_wf c m"
      and "(retain_fresh_payloads (lk_dedup lk) (rewrite_slots (lk_ingress_slot lk) (pk_payloads pk))
            :: ('e LinkError + _) \<times> _) = (Inl e, lk_dedup lk)"
      and "process_incoming lk pk = Some (Inl e :: 'e LinkError + Received, lk\<lparr>lk_acks := m\<rparr>)"
  | (taken) fresh m d where "check_acks (lk_acks lk) pk = Inr ()" and "handle_incoming (lk_acks lk) pk = Some (Inr (), m)"
      and "am_wf c m" and "strict_inv d"
      and "(retain_fresh_payloads (lk_dedup lk) (rewrite_slots (lk_ingress_slot lk) (pk_payloads pk))
            :: ('e LinkError + _) \<times> _) = (Inr fresh, d)"
      and "process_incoming lk pk =
        Some (Inr \<lparr>rc_fresh = fresh, rc_carried_payloads = (pk_payloads pk \<noteq> []), rc_turns_complete = pk_turns_complete pk\<rparr>
          :: 'e LinkError + Received, lk\<lparr>lk_acks := m, lk_dedup := d\<rparr>)"
      and "dedup_seen d = dedup_seen (lk_dedup lk) \<union> set (payload_keys (rewrite_slots (lk_ingress_slot lk) (pk_payloads pk)))"
      and "set (payload_keys fresh) =
        set (payload_keys (rewrite_slots (lk_ingress_slot lk) (pk_payloads pk))) - dedup_seen (lk_dedup lk)"
proof (cases "check_acks (lk_acks lk) pk")
  case (Inl e)
  then show ?thesis
    using ack by (simp add: process_incoming_def handle_incoming_error)
next
  case (Inr u)
  then have ok: "check_acks (lk_acks lk) pk = Inr ()"
    by simp
  have wf: "am_wf c (lk_acks lk)" and dd: "strict_inv (lk_dedup lk)"
    using assms by (simp_all add: link_wf_def)
  obtain m where m: "handle_incoming (lk_acks lk) pk = Some (Inr (), m)" and "retired_by c (acked_packets pk)
      ((lk_acks lk)\<lparr>am_received_packets := ReceivedPacketHistory_record (am_received_packets (lk_acks lk)) (pk_seq pk)\<rparr>) m"
    by (rule handle_incoming_ok [OF wf ok])
  then have wfm: "am_wf c m"
    by (simp add: retired_by_def)
  let ?ps = "rewrite_slots (lk_ingress_slot lk) (pk_payloads pk)"
  obtain r d where r: "(retain_fresh_payloads (lk_dedup lk) ?ps :: ('e LinkError + _) \<times> _) = (r, d)"
    by force
  show ?thesis
  proof (cases r)
    case (Inl e)
    then have d: "d = lk_dedup lk"
      using retain_rollback r by blast
    show ?thesis
      by (rule refused [OF ok m wfm]) (use r Inl d m in \<open>simp_all add: process_incoming_def Let_def\<close>)
  next
    case (Inr fresh)
    note exact = strict_loop_exact [OF dd r [unfolded Inr]]
    have "process_incoming lk pk =
        Some (Inr \<lparr>rc_fresh = fresh, rc_carried_payloads = (pk_payloads pk \<noteq> []), rc_turns_complete = pk_turns_complete pk\<rparr>
          :: 'e LinkError + Received, lk\<lparr>lk_acks := m, lk_dedup := d\<rparr>)"
      using r Inr m by (simp add: process_incoming_def Let_def)
    then show ?thesis
      using taken [OF ok m wfm _ r [unfolded Inr]] exact by blast
  qed
qed

section \<open>Properties\<close>

text \<open>Sending never panics and never touches the receive side.  It refuses up front, changing
  nothing, exactly when datagrams are unsupported, the packet numbers are used up, or the fresh payload
  has a malformed slot or is one \<open>payload_fits\<close> denies; otherwise the fresh payload joins the unacked
  window and nothing leaves it, whether or not the transport takes the datagram, and a refused datagram
  leaves no trace an acknowledgement could retire.\<close>

theorem link_send_outcome:
  assumes "link_wf c lk" and "send_room c lk payload"
  shows "\<exists>r lk'. Link_send c mds (send_datagram :: Packet \<Rightarrow> 'e SendDatagramError + unit) lk payload = Some (r, lk') \<and>
    link_wf c lk' \<and> lk_dedup lk' = lk_dedup lk \<and>
    (if mds = None \<or> am_packet_seq (lk_acks lk) = - 1 \<or>
        (\<exists>p. payload = Some p \<and> (payload_key p = None \<or> payload_fits c mds p \<noteq> (Inr True :: 'e LinkError + bool)))
     then lk' = lk \<and> (\<exists>e. r = Inl e)
     else (\<forall>k. in_window (lk_acks lk') k \<longleftrightarrow>
            in_window (lk_acks lk) k \<or> (\<exists>p. payload = Some p \<and> payload_key p = Some k)) \<and>
       ((\<exists>e. r = Inl e) \<longrightarrow> am_sent_packets (lk_acks lk') = am_sent_packets (lk_acks lk)))"
proof (cases mds)
  case None
  then show ?thesis
    using assms(1) by (simp add: Link_send_def)
next
  case (Some budget)
  show ?thesis
  proof (cases "admit c (Some budget) payload :: 'e LinkError + unit")
    case (Inl e)
    then have "\<exists>p. payload = Some p \<and> (payload_key p = None \<or> payload_fits c mds p \<noteq> (Inr True :: 'e LinkError + bool))"
      using admit_iff [of c budget payload, where 'e = 'e] Some by auto
    then show ?thesis
      using Some Inl assms(1) by (simp add: Link_send_def)
  next
    case (Inr u)
    then have ok: "admit c (Some budget) payload = (Inr () :: 'e LinkError + unit)"
      by simp
    then have adm: "\<nexists>p. payload = Some p \<and> (payload_key p = None \<or> payload_fits c mds p \<noteq> (Inr True :: 'e LinkError + bool))"
      using Some admit_iff [of c budget payload, where 'e = 'e] by blast
    show ?thesis
    proof (cases "am_packet_seq (lk_acks lk) = - 1")
      case True
      then show ?thesis
        using Some ok assms(1) by (simp add: Link_send_def build_outgoing_exhausted)
    next
      case False
      obtain packet m m' where sent: "record_sent m packet = Some m'" "am_wf c m" "am_wf c m'"
        and eq: "Link_send c (Some budget) send_datagram lk payload =
          Some (case send_datagram packet of
            Inr _ \<Rightarrow> (Inr (length (pk_payloads packet) - length (fresh_list (fresh_payload payload))), lk\<lparr>lk_acks := m'\<rparr>)
          | Inl TooLarge \<Rightarrow> (Inl (PayloadTooLarge (c_packet_len c packet) budget), lk\<lparr>lk_acks := m\<rparr>)
          | Inl (OtherSendError e) \<Rightarrow> (Inl (Send e), lk\<lparr>lk_acks := m\<rparr>))"
        and seq: "pk_seq packet = am_packet_seq (lk_acks lk)" "am_packet_seq m = am_packet_seq (lk_acks lk) + 1"
        and w: "am_unacked_payloads m = window_with_fresh c (lk_acks lk) payload"
        and sb: "am_sent_packets m = am_sent_packets (lk_acks lk)"
        by (rule Link_send_built [OF assms False ok]) (rule that)
      have lt: "pk_seq packet < am_packet_seq m"
        using False checked_add_one_less(1) [of "am_packet_seq (lk_acks lk)"] seq by (simp add: checked_add_one)
      note win = fresh_window [OF w] and win' = record_sent_window(1) [OF sent(2) lt sent(1)]
      have dd: "strict_inv (lk_dedup lk)"
        using assms(1) by (simp add: link_wf_def)
      have "\<not> (mds = None \<or> am_packet_seq (lk_acks lk) = - 1 \<or>
          (\<exists>p. payload = Some p \<and> (payload_key p = None \<or> payload_fits c mds p \<noteq> (Inr True :: 'e LinkError + bool))))"
        using Some False adm by blast
      note taken = if_not_P [OF this]
      show ?thesis
      proof (cases "send_datagram packet")
        case (Inl e)
        then show ?thesis
          unfolding taken using eq Some win sb sent dd by (cases e) (simp_all add: link_wf_def)
      next
        case (Inr u)
        then show ?thesis
          unfolding taken using eq Some win win' sent dd by (simp add: link_wf_def)
      qed
    qed
  qed
qed

theorem link_send_outcome_witness:
  "\<exists>r lk'. Link_send proto3_codec (Some 1200) (\<lambda>_. Inr () :: unit SendDatagramError + unit) Link_new (Some (demo_payload 7)) =
     Some (r, lk') \<and> link_wf proto3_codec lk' \<and> lk_dedup lk' = lk_dedup Link_new"
proof -
  have "send_room proto3_codec Link_new (Some (demo_payload 7))"
    using demo_fits by (simp add: send_room_def Link_new_def AckManager_new_def AckManager_with_policy_def)
  from link_send_outcome [OF link_wf_new(1) this] show ?thesis
    by blast
qed

text \<open>C31: A decoded packet is processed without panicking.  An inconsistent ack leaves the link as it was;
  a refused batch leaves the receive side as it was; otherwise the delivered keys are exactly the packet's
  keys not delivered before, and they are from then on recorded.  On a single-slot ingress edge every
  delivered payload carries the authorized slot, whatever the wire claimed.\<close>

theorem process_incoming_exact:
  assumes "link_wf c lk"
  shows "\<exists>r lk'. process_incoming lk pk = Some (r :: 'e LinkError + Received, lk') \<and> link_wf c lk' \<and>
    (case r of
       Inl e \<Rightarrow> lk_dedup lk' = lk_dedup lk \<and> ((\<exists>a. e = Ack a) \<longrightarrow> lk' = lk)
     | Inr rc \<Rightarrow>
         set (payload_keys (rc_fresh rc)) =
           set (payload_keys (rewrite_slots (lk_ingress_slot lk) (pk_payloads pk))) - dedup_seen (lk_dedup lk) \<and>
         dedup_seen (lk_dedup lk') = dedup_seen (lk_dedup lk) \<union>
           set (payload_keys (rewrite_slots (lk_ingress_slot lk) (pk_payloads pk))) \<and>
         (rc_carried_payloads rc \<longleftrightarrow> pk_payloads pk \<noteq> []) \<and>
         (\<forall>slot. lk_ingress_slot lk = Some slot \<longrightarrow> fst ` set (payload_keys (rc_fresh rc)) \<subseteq> {slot}))"
  using assms
proof (cases rule: process_incoming_cases [where 'e = 'e and pk = pk])
  case (ack e)
  then show ?thesis
    using assms by simp
next
  case (refused e m)
  have "e \<noteq> Ack a" for a
    using retain_error_kind [OF refused(4)] by auto
  then show ?thesis
    using refused assms by (simp add: link_wf_def)
next
  case (taken fresh m d)
  have "fst ` set (payload_keys fresh) \<subseteq> {slot}" if "lk_ingress_slot lk = Some slot" for slot
    using taken(8) rewrite_slots_key [OF that] by (auto simp: set_payload_keys)
  then show ?thesis
    using taken(6,7,8) taken(3,4) by (auto simp: link_wf_def)
qed

theorem process_incoming_exact_witness:
  "\<exists>r lk'. process_incoming (Link_with_ingress_slot 3)
       \<lparr>pk_seq = 0, pk_ack = None, pk_ack_bits = 0, pk_payloads = [probe_payload 0 0], pk_turns_complete = None\<rparr> =
     Some (r :: unit LinkError + Received, lk') \<and> link_wf proto3_codec lk'"
  using process_incoming_exact [OF link_wf_new(2) [of proto3_codec 3]] by blast

end
