(* ===== verification/LinkSystem.thy ===== *)
theory LinkSystem
  imports Link
begin

text \<open>
  Two links joined by a network that may lose, duplicate, delay and reorder datagrams, with a reliable
  side channel for delivery cursors (the beacons) and reconnects that rebind both ends.  Each step calls
  the link's own operations; the network is the set of packets handed to it.  An error of a receive
  operation takes the connection down until both ends are rebound, as the drivers do.

  The invariant ties the sender's window to the receiver's dedup: what a sent packet is recorded to
  carry is what some packet on the wire carries, what the receiver acknowledges it has delivered.
\<close>

section \<open>The system\<close>

record link_sys =
  sy_a :: Link
  sy_b :: Link
  sy_ab :: "Packet set"
  sy_ba :: "Packet set"
  sy_beacons :: "(SlotId \<times> u64) set"
  sy_up :: bool
  sy_sent :: "(SlotId \<times> u64) set"

text \<open>The key a payload has on the receiving side, where the wire slot may be rewritten.\<close>

definition rekey :: "SlotId option \<Rightarrow> SlotId \<times> u64 \<Rightarrow> SlotId \<times> u64" where
  "rekey ingress k = (case ingress of None \<Rightarrow> k | Some slot \<Rightarrow> (slot, snd k))"

definition window_keys :: "Link \<Rightarrow> (SlotId \<times> u64) set" where
  "window_keys lk = {k. in_window (lk_acks lk) k}"

definition on_wire :: "codec \<Rightarrow> Link \<Rightarrow> Payload option \<Rightarrow> nat option \<Rightarrow> 'e + nat \<Rightarrow> Packet set" where
  "on_wire c lk payload mds r =
     (case (mds, r) of
        (Some budget, Inr _) \<Rightarrow> {pk. \<exists>m. build_outgoing c (lk_acks lk) payload budget = (Inr pk, m)}
      | _ \<Rightarrow> {})"

inductive link_step :: "codec \<Rightarrow> link_sys \<Rightarrow> link_sys \<Rightarrow> bool" for c where
  a_send: "sy_up y \<Longrightarrow> send_room c (sy_a y) payload \<Longrightarrow>
    Link_send c mds (\<lambda>_. outcome :: unit SendDatagramError + unit) (sy_a y) payload = Some (r, a) \<Longrightarrow>
    link_step c y (y\<lparr>sy_a := a, sy_ab := sy_ab y \<union> on_wire c (sy_a y) payload mds r,
      sy_sent := sy_sent y \<union> window_keys a\<rparr>)"
| b_send: "sy_up y \<Longrightarrow> send_room c (sy_b y) payload \<Longrightarrow>
    Link_send c mds (\<lambda>_. outcome :: unit SendDatagramError + unit) (sy_b y) payload = Some (r, b) \<Longrightarrow>
    link_step c y (y\<lparr>sy_b := b, sy_ba := sy_ba y \<union> on_wire c (sy_b y) payload mds r\<rparr>)"
| a_recv: "sy_up y \<Longrightarrow> pk \<in> sy_ba y \<Longrightarrow>
    process_incoming (sy_a y) pk = Some (r :: unit LinkError + Received, a) \<Longrightarrow>
    link_step c y (y\<lparr>sy_a := a, sy_up := \<not> isl r\<rparr>)"
| b_recv: "sy_up y \<Longrightarrow> pk \<in> sy_ab y \<Longrightarrow>
    process_incoming (sy_b y) pk = Some (r :: unit LinkError + Received, b) \<Longrightarrow>
    link_step c y (y\<lparr>sy_b := b, sy_up := \<not> isl r\<rparr>)"
| b_external: "sy_up y \<Longrightarrow> deliver_external (sy_b y) slot s = (r :: unit LinkError + bool, b) \<Longrightarrow>
    link_step c y (y\<lparr>sy_b := b, sy_up := \<not> isl r\<rparr>)"
| b_beacon: "Link_delivered_through (sy_b y) (fst (rekey (lk_ingress_slot (sy_b y)) (slot, 0))) = Some q \<Longrightarrow>
    link_step c y (y\<lparr>sy_beacons := insert (slot, q) (sy_beacons y)\<rparr>)"
| a_cursor: "(slot, q) \<in> sy_beacons y \<Longrightarrow> Link_retire_through (sy_a y) slot q = (n, a) \<Longrightarrow>
    link_step c y (y\<lparr>sy_a := a\<rparr>)"
| a_reinject: "window_len (lk_acks (sy_a y)) + element_len c p \<le> usize_max \<Longrightarrow>
    link_step c y (y\<lparr>sy_a := Link_reinject_unacked c (sy_a y) p,
      sy_sent := sy_sent y \<union> window_keys (Link_reinject_unacked c (sy_a y) p)\<rparr>)"
| reconnect: "link_step c y
    (y\<lparr>sy_a := Link_rebind (sy_a y), sy_b := Link_rebind (sy_b y), sy_ab := {}, sy_ba := {}, sy_up := True\<rparr>)"

definition sys_init :: "SlotId option \<Rightarrow> SlotId option \<Rightarrow> link_sys" where
  "sys_init ia ib =
     \<lparr>sy_a = Link_new\<lparr>lk_ingress_slot := ia\<rparr>, sy_b = Link_new\<lparr>lk_ingress_slot := ib\<rparr>,
      sy_ab = {}, sy_ba = {}, sy_beacons = {}, sy_up = True, sy_sent = {}\<rparr>"

inductive link_reach :: "codec \<Rightarrow> SlotId option \<Rightarrow> SlotId option \<Rightarrow> link_sys \<Rightarrow> bool" for c ia ib where
  init: "link_reach c ia ib (sys_init ia ib)"
| step: "link_reach c ia ib y \<Longrightarrow> link_step c y y' \<Longrightarrow> link_reach c ia ib y'"

section \<open>Invariant\<close>

definition packet_keys :: "Packet \<Rightarrow> (SlotId \<times> u64) set" where
  "packet_keys pk = set (payload_keys (pk_payloads pk))"

definition delivered :: "link_sys \<Rightarrow> Packet \<Rightarrow> bool" where
  "delivered y pk \<longleftrightarrow> rekey (lk_ingress_slot (sy_b y)) ` packet_keys pk \<subseteq> dedup_seen (lk_dedup (sy_b y))"

definition seq_delivered :: "link_sys \<Rightarrow> nat \<Rightarrow> bool" where
  "seq_delivered y n \<longleftrightarrow> (\<exists>pk \<in> sy_ab y. unat (pk_seq pk) = n \<and> delivered y pk)"

definition wire_inv :: "link_sys \<Rightarrow> bool" where
  "wire_inv y \<longleftrightarrow>
     (\<forall>pk \<in> sy_ab y. unat (pk_seq pk) < unat (am_packet_seq (lk_acks (sy_a y)))) \<and>
     (\<forall>pk \<in> sy_ab y. \<forall>pk' \<in> sy_ab y. pk_seq pk = pk_seq pk' \<longrightarrow> pk = pk') \<and>
     (\<forall>s. \<forall>k \<in> carried (lk_acks (sy_a y)) s.
        \<exists>pk \<in> sy_ab y. unat (pk_seq pk) = unat s \<and> k \<in> packet_keys pk)"

definition ack_inv :: "link_sys \<Rightarrow> bool" where
  "ack_inv y \<longleftrightarrow> (sy_up y \<longrightarrow>
     (\<exists>R. rh_rel R (am_received_packets (lk_acks (sy_b y))) \<and> (\<forall>n \<in> R. seq_delivered y n)) \<and>
     (\<forall>pk \<in> sy_ba y. \<forall>s \<in> acked_packets pk. seq_delivered y (unat s)))"

definition beacon_inv :: "link_sys \<Rightarrow> bool" where
  "beacon_inv y \<longleftrightarrow> (\<forall>(slot, q) \<in> sy_beacons y. \<forall>s \<le> q.
     rekey (lk_ingress_slot (sy_b y)) (slot, s) \<in> dedup_seen (lk_dedup (sy_b y)))"

definition none_lost :: "link_sys \<Rightarrow> bool" where
  "none_lost y \<longleftrightarrow> (\<forall>k \<in> sy_sent y. in_window (lk_acks (sy_a y)) k \<or>
     rekey (lk_ingress_slot (sy_b y)) k \<in> dedup_seen (lk_dedup (sy_b y)))"

definition sys_inv :: "codec \<Rightarrow> link_sys \<Rightarrow> bool" where
  "sys_inv c y \<longleftrightarrow> link_wf c (sy_a y) \<and> link_wf c (sy_b y) \<and> wire_inv y \<and> ack_inv y \<and> beacon_inv y \<and> none_lost y"

lemma sys_init_inv: "sys_inv c (sys_init ia ib)"
proof -
  have "link_wf c (Link_new\<lparr>lk_ingress_slot := i\<rparr>)" for i
    using link_wf_new(1) [of c] by (simp add: link_wf_def)
  moreover have "carried (lk_acks Link_new) s = {}" for s
    by (simp add: Link_new_def AckManager_new_def AckManager_with_policy_def carried_def
        with_capacity_wf SENT_PACKETS_SIZE_def)
  moreover have "am_received_packets (lk_acks Link_new) = ReceivedPacketHistory_default"
    by (simp add: Link_new_def AckManager_new_def AckManager_with_policy_def)
  ultimately show ?thesis
    using rh_rel_default
    by (auto simp: sys_inv_def sys_init_def wire_inv_def ack_inv_def beacon_inv_def none_lost_def)
qed

section \<open>Sending\<close>

lemma Link_send_cases:
  assumes "link_wf c lk" and "send_room c lk payload"
    and "Link_send c mds (send_datagram :: Packet \<Rightarrow> 'e SendDatagramError + unit) lk payload = Some (r, lk')"
  obtains (refused) "lk' = lk" "on_wire c lk payload mds r = {}"
  | (built) packet where "lk_dedup lk' = lk_dedup lk" and "lk_ingress_slot lk' = lk_ingress_slot lk"
      and "am_wf c (lk_acks lk')"
      and "am_received_packets (lk_acks lk') = am_received_packets (lk_acks lk)"
      and "unat (am_packet_seq (lk_acks lk')) = unat (am_packet_seq (lk_acks lk)) + 1"
      and "window_keys lk \<subseteq> window_keys lk'"
      and "on_wire c lk payload mds r \<subseteq> {packet}"
      and "\<And>s k. k \<in> carried (lk_acks lk') s \<Longrightarrow> k \<in> carried (lk_acks lk) s \<or>
        on_wire c lk payload mds r = {packet} \<and> unat s = unat (pk_seq packet) \<and> k \<in> packet_keys packet"
      and "pk_seq packet = am_packet_seq (lk_acks lk)"
      and "pk_ack packet = rh_most_recent (am_received_packets (lk_acks lk))"
      and "pk_ack_bits packet = rh_ack_bits (am_received_packets (lk_acks lk))"
proof (cases mds)
  case None
  then show ?thesis
    using assms(3) refused by (simp add: Link_send_def on_wire_def)
next
  case (Some budget)
  show ?thesis
  proof (cases "admit c (Some budget) payload :: 'e LinkError + unit")
    case (Inl e)
    then show ?thesis
      using assms(3) Some refused by (auto simp: Link_send_def on_wire_def)
  next
    case (Inr u)
    then have ok: "admit c (Some budget) payload = (Inr () :: 'e LinkError + unit)"
      by simp
    show ?thesis
    proof (cases "am_packet_seq (lk_acks lk) = - 1")
      case True
      then show ?thesis
        using assms(3) Some ok refused by (auto simp: Link_send_def build_outgoing_exhausted on_wire_def)
    next
      case False
      obtain packet m m' where bld: "build_outgoing c (lk_acks lk) payload budget = (Inr packet, m)"
        and sent: "record_sent m packet = Some m'" "am_wf c m" "am_wf c m'"
        and eq: "Link_send c (Some budget) send_datagram lk payload =
          Some (case send_datagram packet of
            Inr _ \<Rightarrow> (Inr (length (pk_payloads packet) - length (fresh_list (fresh_payload payload))), lk\<lparr>lk_acks := m'\<rparr>)
          | Inl TooLarge \<Rightarrow> (Inl (PayloadTooLarge (c_packet_len c packet) budget), lk\<lparr>lk_acks := m\<rparr>)
          | Inl (OtherSendError e) \<Rightarrow> (Inl (Send e), lk\<lparr>lk_acks := m\<rparr>))"
        and m: "pk_seq packet = am_packet_seq (lk_acks lk)" "am_packet_seq m = am_packet_seq (lk_acks lk) + 1"
          "am_unacked_payloads m = window_with_fresh c (lk_acks lk) payload"
          "am_sent_packets m = am_sent_packets (lk_acks lk)"
          "am_received_packets m = am_received_packets (lk_acks lk)"
        and head: "pk_ack packet = rh_most_recent (am_received_packets (lk_acks lk))"
          "pk_ack_bits packet = rh_ack_bits (am_received_packets (lk_acks lk))"
        by (rule Link_send_built [OF assms(1,2) False ok]) (rule that)
      have adv: "checked_add (am_packet_seq (lk_acks lk)) 1 = Some (am_packet_seq m)"
        using False m(2) by (simp add: checked_add_one)
      then have lt: "pk_seq packet < am_packet_seq m"
        and nat: "unat (am_packet_seq m) = unat (am_packet_seq (lk_acks lk)) + 1"
        using checked_add_one_less(1) [OF adv] m(1) by (simp_all add: checked_add_Some)
      note rs = record_sent_window [OF sent(2) lt sent(1)]
      have car: "carried m = carried (lk_acks lk)"
        by (simp add: fun_eq_iff carried_def m(4))
      have win: "window_keys lk \<subseteq> {k. in_window m k}"
        using fresh_window [OF m(3)] by (auto simp: window_keys_def)
      have uc: "unat (ucast (pk_seq packet) :: u64) = unat (pk_seq packet)"
        by (simp add: unat_ucast_up)
      show ?thesis
      proof (cases "send_datagram packet")
        case (Inl e)
        then have lk': "lk' = lk\<lparr>lk_acks := m\<rparr>" and r: "on_wire c lk payload mds r = {}"
          using eq assms(3) Some by (cases e; auto simp: on_wire_def)+
        show ?thesis
          by (rule built [of packet]) (use lk' r sent m head nat car win in \<open>auto simp: window_keys_def\<close>)
      next
        case (Inr u)
        then have lk': "lk' = lk\<lparr>lk_acks := m'\<rparr>" and r: "on_wire c lk payload mds r = {packet}"
          using eq assms(3) Some bld by (auto simp: on_wire_def)
        have "k \<in> carried m' s \<Longrightarrow> k \<in> carried (lk_acks lk) s \<or> unat s = unat (pk_seq packet) \<and> k \<in> packet_keys packet" for s k
          using rs(5) [of s] car uc by (auto simp: packet_keys_def payload_keys_def)
        then show ?thesis
          by (intro built [of packet]) (use lk' r sent m head nat rs win in \<open>auto simp: window_keys_def\<close>)
      qed
    qed
  qed
qed

text \<open>A header acknowledges only packets of the receiver's history.\<close>

lemma header_acks:
  assumes "rh_rel R h" and "pk_ack pk = rh_most_recent h" and "pk_ack_bits pk = rh_ack_bits h"
    and "s \<in> acked_packets pk"
  shows "unat s \<in> R"
  using assms(1)
proof (cases rule: rh_rel_cases)
  case empty
  then show ?thesis
    using assms by (simp add: acked_packets_def)
next
  case (some mr first)
  have mr: "unat (ucast mr :: u64) = unat mr"
    by (simp add: unat_ucast_up)
  have "s = ucast mr \<or> s \<in> bit_acked (ucast mr) (rh_ack_bits h) 1"
    using assms some by (simp add: acked_packets_def)
  then show ?thesis
  proof
    assume "s \<in> bit_acked (ucast mr) (rh_ack_bits h) 1"
    then obtain j where j: "1 \<le> j" "j < 33" "unat s + j = unat mr" "bit (rh_ack_bits h) (j - 1)"
      by (auto simp: bit_acked_def mr)
    then have "j - 1 < 32"
      by simp
    from some(6) [OF this] obtain a where "a \<in> R" "a + (j - 1) + 1 = unat mr"
      using j(4) by blast
    then have "a = unat s"
      using j by simp
    then show ?thesis
      using \<open>a \<in> R\<close> by simp
  qed (use some mr in simp)
qed

section \<open>Preservation\<close>

lemma seq_delivered_mono:
  assumes "seq_delivered y n" and "sy_ab y \<subseteq> sy_ab y'"
    and "lk_ingress_slot (sy_b y') = lk_ingress_slot (sy_b y)"
    and "dedup_seen (lk_dedup (sy_b y)) \<subseteq> dedup_seen (lk_dedup (sy_b y'))"
  shows "seq_delivered y' n"
  using assms by (fastforce simp: seq_delivered_def delivered_def)

lemma beacon_inv_mono:
  assumes "beacon_inv y" and "sy_beacons y' = sy_beacons y"
    and "lk_ingress_slot (sy_b y') = lk_ingress_slot (sy_b y)"
    and "dedup_seen (lk_dedup (sy_b y)) \<subseteq> dedup_seen (lk_dedup (sy_b y'))"
  shows "beacon_inv y'"
  using assms by (fastforce simp: beacon_inv_def)

lemma none_lost_mono:
  assumes "none_lost y" and "sy_sent y' \<subseteq> sy_sent y \<union> window_keys (sy_a y')"
    and "window_keys (sy_a y) \<subseteq> window_keys (sy_a y')"
    and "lk_ingress_slot (sy_b y') = lk_ingress_slot (sy_b y)"
    and "dedup_seen (lk_dedup (sy_b y)) \<subseteq> dedup_seen (lk_dedup (sy_b y'))"
  shows "none_lost y'"
  using assms by (fastforce simp: none_lost_def window_keys_def)

lemma ack_inv_mono:
  assumes "ack_inv y" and "sy_ab y \<subseteq> sy_ab y'" and "sy_up y' \<Longrightarrow> sy_up y"
    and "lk_ingress_slot (sy_b y') = lk_ingress_slot (sy_b y)"
    and "dedup_seen (lk_dedup (sy_b y)) \<subseteq> dedup_seen (lk_dedup (sy_b y'))"
    and "am_received_packets (lk_acks (sy_b y')) = am_received_packets (lk_acks (sy_b y))"
    and "\<And>pk s. sy_up y \<Longrightarrow> pk \<in> sy_ba y' - sy_ba y \<Longrightarrow> s \<in> acked_packets pk \<Longrightarrow> seq_delivered y (unat s)"
  shows "ack_inv y'"
  unfolding ack_inv_def
proof (intro impI conjI ballI)
  note mono = seq_delivered_mono [OF _ assms(2,4,5)]
  assume "sy_up y'"
  then have up: "sy_up y"
    by (rule assms(3))
  then obtain R where "rh_rel R (am_received_packets (lk_acks (sy_b y)))" "\<forall>n \<in> R. seq_delivered y n"
    using assms(1) by (auto simp: ack_inv_def)
  then show "\<exists>R. rh_rel R (am_received_packets (lk_acks (sy_b y'))) \<and> (\<forall>n \<in> R. seq_delivered y' n)"
    using mono unfolding assms(6) by blast
  fix pk s
  assume pk: "pk \<in> sy_ba y'" and s: "s \<in> acked_packets pk"
  have "seq_delivered y (unat s)"
  proof (cases "pk \<in> sy_ba y")
    case True
    then show ?thesis
      using assms(1) up s by (auto simp: ack_inv_def)
  next
    case False
    then show ?thesis
      using assms(7) [OF up _ s] pk by blast
  qed
  then show "seq_delivered y' (unat s)"
    by (rule mono)
qed

lemma a_send_inv:
  assumes inv: "sys_inv c y" and room: "send_room c (sy_a y) payload"
    and send: "Link_send c mds (f :: Packet \<Rightarrow> 'e SendDatagramError + unit) (sy_a y) payload = Some (r, a)"
  shows "sys_inv c (y\<lparr>sy_a := a, sy_ab := sy_ab y \<union> on_wire c (sy_a y) payload mds r,
      sy_sent := sy_sent y \<union> window_keys a\<rparr>)"
proof -
  let ?y = "y\<lparr>sy_a := a, sy_ab := sy_ab y \<union> on_wire c (sy_a y) payload mds r, sy_sent := sy_sent y \<union> window_keys a\<rparr>"
  have wf: "link_wf c (sy_a y)" "link_wf c (sy_b y)" and wire: "wire_inv y"
    using inv by (simp_all add: sys_inv_def)
  have old: "ack_inv y" "beacon_inv y" "none_lost y"
    using inv by (simp_all add: sys_inv_def)
  have rest: "ack_inv ?y" "beacon_inv ?y"
    by (rule ack_inv_mono [OF old(1)], simp_all) (rule beacon_inv_mono [OF old(2)], simp_all)
  from wf(1) room send show ?thesis
  proof (cases rule: Link_send_cases)
    case refused
    then have "wire_inv ?y"
      using wire by (simp add: wire_inv_def)
    moreover have "none_lost ?y"
      using refused by (intro none_lost_mono [OF old(3)]) simp_all
    ultimately show ?thesis
      using rest wf refused by (simp add: sys_inv_def)
  next
    case (built packet)
    have seqs: "\<And>pk. pk \<in> sy_ab y \<Longrightarrow> unat (pk_seq pk) < unat (am_packet_seq (lk_acks (sy_a y)))"
      and unique: "\<And>pk pk'. pk \<in> sy_ab y \<Longrightarrow> pk' \<in> sy_ab y \<Longrightarrow> pk_seq pk = pk_seq pk' \<Longrightarrow> pk = pk'"
      and car: "\<And>s k. k \<in> carried (lk_acks (sy_a y)) s \<Longrightarrow> \<exists>pk \<in> sy_ab y. unat (pk_seq pk) = unat s \<and> k \<in> packet_keys pk"
      using wire unfolding wire_inv_def by blast+
    have new: "pk \<in> sy_ab ?y \<Longrightarrow> pk \<in> sy_ab y \<or> pk = packet" for pk
      using built(7) by auto
    have "unat (pk_seq pk) < unat (am_packet_seq (lk_acks a))" if "pk \<in> sy_ab ?y" for pk
      using new [OF that] seqs [of pk] built(5,9) by auto
    moreover have "pk = pk'" if "pk \<in> sy_ab ?y" "pk' \<in> sy_ab ?y" "pk_seq pk = pk_seq pk'" for pk pk'
    proof -
      have "pk \<notin> sy_ab y" if "pk_seq pk = am_packet_seq (lk_acks (sy_a y))" for pk
        using seqs [of pk] that by auto
      then show ?thesis
        using new [OF that(1)] new [OF that(2)] unique [OF _ _ that(3)] built(9) that(3) by metis
    qed
    moreover have "\<exists>pk \<in> sy_ab ?y. unat (pk_seq pk) = unat s \<and> k \<in> packet_keys pk"
      if "k \<in> carried (lk_acks a) s" for s k
      using built(8) [OF that] car [of k s] by auto
    ultimately have "wire_inv ?y"
      unfolding wire_inv_def by (intro conjI ballI allI impI) simp_all
    moreover have "none_lost ?y"
      using built(6) by (intro none_lost_mono [OF old(3)]) simp_all
    ultimately show ?thesis
      using rest wf built(1,3) by (simp add: sys_inv_def link_wf_def)
  qed
qed

lemma b_send_inv:
  assumes inv: "sys_inv c y" and room: "send_room c (sy_b y) payload"
    and send: "Link_send c mds (f :: Packet \<Rightarrow> 'e SendDatagramError + unit) (sy_b y) payload = Some (r, b)"
  shows "sys_inv c (y\<lparr>sy_b := b, sy_ba := sy_ba y \<union> on_wire c (sy_b y) payload mds r\<rparr>)"
proof -
  let ?y = "y\<lparr>sy_b := b, sy_ba := sy_ba y \<union> on_wire c (sy_b y) payload mds r\<rparr>"
  have wf: "link_wf c (sy_a y)" "link_wf c (sy_b y)" and ack: "ack_inv y"
    using inv by (simp_all add: sys_inv_def)
  have wire: "wire_inv ?y"
    using inv by (simp add: sys_inv_def wire_inv_def)
  from wf(2) room send show ?thesis
  proof (cases rule: Link_send_cases)
    case refused
    then have "?y = y"
      by simp
    then show ?thesis
      using inv by simp
  next
    case (built packet)
    have "ack_inv ?y"
    proof (rule ack_inv_mono [OF ack])
      fix pk s
      assume up: "sy_up y" and pk: "pk \<in> sy_ba ?y - sy_ba y" and s: "s \<in> acked_packets pk"
      then have "pk = packet"
        using built(7) by auto
      moreover obtain R where "rh_rel R (am_received_packets (lk_acks (sy_b y)))" "\<forall>n \<in> R. seq_delivered y n"
        using ack up by (auto simp: ack_inv_def)
      ultimately show "seq_delivered y (unat s)"
        using header_acks [of R _ packet s] built(10,11) s by blast
    qed (use built in simp_all)
    moreover have "beacon_inv ?y"
      by (rule beacon_inv_mono [of y]) (use inv built in \<open>simp_all add: sys_inv_def\<close>)
    moreover have "none_lost ?y"
      by (rule none_lost_mono [of y]) (use inv built in \<open>simp_all add: sys_inv_def\<close>)
    ultimately show ?thesis
      using wire wf built(1,3) by (simp add: sys_inv_def link_wf_def)
  qed
qed

text \<open>What the receiver of an ack forgets was delivered; its own wire obligations only shrink.\<close>

lemma a_recv_inv:
  assumes inv: "sys_inv c y" and up: "sy_up y" and pk: "pk \<in> sy_ba y"
    and recv: "process_incoming (sy_a y) pk = Some (r :: 'e LinkError + Received, a)"
  shows "sys_inv c (y\<lparr>sy_a := a, sy_up := u\<rparr>)"
proof -
  let ?y = "y\<lparr>sy_a := a, sy_up := u\<rparr>"
  have wf: "link_wf c (sy_a y)" "link_wf c (sy_b y)" and wire: "wire_inv y" and old: "ack_inv y" "beacon_inv y" "none_lost y"
    using inv by (simp_all add: sys_inv_def)
  have rest: "ack_inv ?y" "beacon_inv ?y"
    by (rule ack_inv_mono [OF old(1)], simp_all add: up) (rule beacon_inv_mono [OF old(2)], simp_all)
  have same: "wire_inv ?y \<and> none_lost ?y" if "lk_acks a = lk_acks (sy_a y)"
    using wire old(3) that by (simp add: wire_inv_def none_lost_def)
  have acked: "wire_inv ?y \<and> none_lost ?y"
    if ok: "check_acks (lk_acks (sy_a y)) pk = Inr ()" and "handle_incoming (lk_acks (sy_a y)) pk = Some (Inr (), lk_acks a)"
  proof -
    have wfa: "am_wf c (lk_acks (sy_a y))"
      using wf(1) by (simp add: link_wf_def)
    obtain m' where m': "handle_incoming (lk_acks (sy_a y)) pk = Some (Inr (), m')" and ret: "retired_by c (acked_packets pk)
        ((lk_acks (sy_a y))\<lparr>am_received_packets := ReceivedPacketHistory_record (am_received_packets (lk_acks (sy_a y))) (pk_seq pk)\<rparr>) m'"
      by (rule handle_incoming_ok [OF wfa ok])
    have [simp]: "m' = lk_acks a"
      using m' that(2) by simp
    note ret = retired_by_record [OF ret, simplified]
    have car: "carried (lk_acks a) s \<subseteq> carried (lk_acks (sy_a y)) s" for s
      using ret(3) by (simp add: carried_def)
    have "wire_inv ?y"
      using wire car ret(5) unfolding wire_inv_def by simp (meson subsetD)
    moreover have "none_lost ?y"
      unfolding none_lost_def
    proof
      fix k
      assume "k \<in> sy_sent ?y"
      then have k: "in_window (lk_acks (sy_a y)) k \<or> rekey (lk_ingress_slot (sy_b y)) k \<in> dedup_seen (lk_dedup (sy_b y))"
        using old(3) by (simp add: none_lost_def)
      have "rekey (lk_ingress_slot (sy_b y)) k \<in> dedup_seen (lk_dedup (sy_b y))"
        if gone: "in_window (lk_acks (sy_a y)) k" "\<not> in_window (lk_acks a) k"
      proof -
        obtain s where s: "s \<in> acked_packets pk" "k \<in> carried (lk_acks (sy_a y)) s"
          using gone ret(2) by (auto simp: in_window_def)
        obtain p1 where p1: "p1 \<in> sy_ab y" "unat (pk_seq p1) = unat s" "k \<in> packet_keys p1"
          using wire s(2) unfolding wire_inv_def by blast
        obtain p2 where p2: "p2 \<in> sy_ab y" "unat (pk_seq p2) = unat s" "delivered y p2"
          using old(1) up pk s(1) unfolding ack_inv_def seq_delivered_def by blast
        have "pk_seq p1 = pk_seq p2"
          using p1(2) p2(2) by (simp add: word_unat_eq_iff)
        then have "p1 = p2"
          using wire p1(1) p2(1) unfolding wire_inv_def by blast
        then show ?thesis
          using p1(3) p2(3) by (auto simp: delivered_def)
      qed
      then show "in_window (lk_acks (sy_a ?y)) k \<or>
          rekey (lk_ingress_slot (sy_b ?y)) k \<in> dedup_seen (lk_dedup (sy_b ?y))"
        using k by auto
    qed
    ultimately show ?thesis ..
  qed
  have "link_wf c a \<and> wire_inv ?y \<and> none_lost ?y"
    using wf(1)
  proof (cases rule: process_incoming_cases [where 'e = 'e and pk = pk])
    case (ack e)
    then show ?thesis
      using recv wf same by simp
  next
    case (refused e m)
    then show ?thesis
      using recv wf acked by (simp add: link_wf_def)
  next
    case (taken fresh m d)
    then have "a = (sy_a y)\<lparr>lk_acks := m, lk_dedup := d\<rparr>"
      using recv by simp
    then show ?thesis
      using taken(1-4) acked by (simp add: link_wf_def)
  qed
  then show ?thesis
    using rest wf by (simp add: sys_inv_def)
qed

lemma rewrite_slots_keys: "rekey ing ` set (payload_keys ps) \<subseteq> set (payload_keys (rewrite_slots ing ps))"
proof
  fix k'
  assume "k' \<in> rekey ing ` set (payload_keys ps)"
  then obtain p k where p: "p \<in> set ps" "payload_key p = Some k" "k' = rekey ing k"
    by (auto simp: set_payload_keys)
  show "k' \<in> set (payload_keys (rewrite_slots ing ps))"
  proof (cases ing)
    case None
    then show ?thesis
      using p by (auto simp: rekey_def rewrite_slots_def set_payload_keys)
  next
    case (Some slot)
    let ?q = "p\<lparr>p_slot := ucast slot\<rparr>"
    have "?q \<in> set (rewrite_slots ing ps)"
      using Some p(1) by (simp add: rewrite_slots_def)
    moreover from rewrite_slots_key [OF Some this] have "payload_key ?q = Some k'"
      using p Some by (auto simp: rekey_def payload_key_def)
    ultimately show ?thesis
      by (auto simp: set_payload_keys)
  qed
qed

lemma b_grow_inv:
  assumes inv: "sys_inv c y" and wf: "link_wf c b" and ing: "lk_ingress_slot b = lk_ingress_slot (sy_b y)"
    and seen: "dedup_seen (lk_dedup (sy_b y)) \<subseteq> dedup_seen (lk_dedup b)"
    and ack: "ack_inv (y\<lparr>sy_b := b, sy_up := u\<rparr>)"
  shows "sys_inv c (y\<lparr>sy_b := b, sy_up := u\<rparr>)"
proof -
  have "wire_inv (y\<lparr>sy_b := b, sy_up := u\<rparr>)"
    using inv by (simp add: sys_inv_def wire_inv_def)
  moreover have "beacon_inv (y\<lparr>sy_b := b, sy_up := u\<rparr>)"
    by (rule beacon_inv_mono [of y]) (use inv ing seen in \<open>simp_all add: sys_inv_def\<close>)
  moreover have "none_lost (y\<lparr>sy_b := b, sy_up := u\<rparr>)"
    by (rule none_lost_mono [of y]) (use inv ing seen in \<open>simp_all add: sys_inv_def\<close>)
  ultimately show ?thesis
    using inv wf ack by (simp add: sys_inv_def)
qed

lemma b_recv_inv:
  assumes inv: "sys_inv c y" and up: "sy_up y" and pk: "pk \<in> sy_ab y"
    and recv: "process_incoming (sy_b y) pk = Some (r :: 'e LinkError + Received, b)"
  shows "sys_inv c (y\<lparr>sy_b := b, sy_up := \<not> isl r\<rparr>)"
proof -
  have wf: "link_wf c (sy_b y)" and old: "ack_inv y"
    using inv by (simp_all add: sys_inv_def)
  from wf show ?thesis
  proof (cases rule: process_incoming_cases [where 'e = 'e and pk = pk])
    case (ack e)
    then show ?thesis
      using recv by (intro b_grow_inv [OF inv]) (simp_all add: wf ack_inv_def)
  next
    case (refused e m)
    then show ?thesis
      using recv wf by (intro b_grow_inv [OF inv]) (auto simp: link_wf_def ack_inv_def)
  next
    case (taken fresh m d)
    let ?y = "y\<lparr>sy_b := b, sy_up := \<not> isl r\<rparr>"
    have b: "b = (sy_b y)\<lparr>lk_acks := m, lk_dedup := d\<rparr>" and r: "\<not> isl r"
      using recv taken(6) by auto
    have wfa: "am_wf c (lk_acks (sy_b y))"
      using wf by (simp add: link_wf_def)
    obtain m' where "handle_incoming (lk_acks (sy_b y)) pk = Some (Inr (), m')" and ret: "retired_by c (acked_packets pk)
        ((lk_acks (sy_b y))\<lparr>am_received_packets := ReceivedPacketHistory_record (am_received_packets (lk_acks (sy_b y))) (pk_seq pk)\<rparr>) m'"
      by (rule handle_incoming_ok [OF wfa taken(1)])
    then have rec: "am_received_packets m = ReceivedPacketHistory_record (am_received_packets (lk_acks (sy_b y))) (pk_seq pk)"
      using taken(2) retired_by_record(4) [OF ret] by simp
    have seen: "dedup_seen (lk_dedup (sy_b y)) \<subseteq> dedup_seen (lk_dedup b)"
      using taken(7) by (simp add: b)
    have mono: "seq_delivered y n \<Longrightarrow> seq_delivered ?y n" for n
      by (rule seq_delivered_mono) (use seen in \<open>simp_all add: b\<close>)
    have "delivered ?y pk"
      using taken(7) rewrite_slots_keys [of "lk_ingress_slot (sy_b y)" "pk_payloads pk"]
      by (auto simp: delivered_def packet_keys_def b)
    then have now: "seq_delivered ?y (unat (pk_seq pk))"
      using pk by (auto simp: seq_delivered_def)
    obtain R where R: "rh_rel R (am_received_packets (lk_acks (sy_b y)))" "\<And>n. n \<in> R \<Longrightarrow> seq_delivered y n"
      using old up by (auto simp: ack_inv_def)
    have "rh_rel (rh_accept (unat (pk_seq pk)) R) (am_received_packets (lk_acks b))"
      using rh_rel_record [OF R(1)] rec by (simp add: b)
    moreover have "seq_delivered ?y n" if "n \<in> rh_accept (unat (pk_seq pk)) R" for n
      using that now mono [OF R(2)] by (auto simp: rh_accept_def split: if_splits)
    moreover have "seq_delivered ?y (unat s)" if "q \<in> sy_ba y" "s \<in> acked_packets q" for q s
      using old up that mono by (auto simp: ack_inv_def)
    ultimately have "ack_inv ?y"
      unfolding ack_inv_def by auto
    then show ?thesis
      using taken(3,4) seen by (intro b_grow_inv [OF inv]) (simp_all add: b link_wf_def)
  qed
qed

lemma b_external_inv:
  assumes inv: "sys_inv c y" and up: "sy_up y"
    and ext: "deliver_external (sy_b y) slot s = (r :: 'e LinkError + bool, b)"
  shows "sys_inv c (y\<lparr>sy_b := b, sy_up := \<not> isl r\<rparr>)"
proof -
  have wf: "link_wf c (sy_b y)" and old: "ack_inv y"
    using inv by (simp_all add: sys_inv_def)
  then have dd: "dd_inv (lk_dedup (sy_b y))" "\<not> dd_forward_collapse (lk_dedup (sy_b y))"
    by (simp_all add: link_wf_def strict_inv_def)
  obtain q d where acc: "accept (lk_dedup (sy_b y)) slot s = (q, d)"
    by force
  have b: "b = (sy_b y)\<lparr>lk_dedup := d\<rparr>"
    using ext acc by (auto simp: deliver_external_def)
  note spec = accept_spec [OF dd(1) acc]
  have "ack_inv (y\<lparr>sy_b := b, sy_up := \<not> isl r\<rparr>)"
    by (rule ack_inv_mono [OF old]) (use up spec(2) in \<open>simp_all add: b\<close>)
  moreover have "link_wf c b"
    using wf spec(1,3) dd(2) by (simp add: b link_wf_def strict_inv_def)
  ultimately show ?thesis
    using spec(2) by (intro b_grow_inv [OF inv]) (simp_all add: b)
qed

lemma delivered_through_seen:
  assumes "strict_inv d" and "Dedup_delivered_through d slot = Some q" and "s \<le> q"
  shows "(slot, s) \<in> dedup_seen d"
  using assms
  by (auto simp: Dedup_delivered_through_def dedup_seen_def slot_entry_def sd_seen_def taken_def
      split: option.splits Option.bind_splits)

lemma b_beacon_inv:
  assumes inv: "sys_inv c y"
    and cur: "Link_delivered_through (sy_b y) (fst (rekey (lk_ingress_slot (sy_b y)) (slot, 0))) = Some q"
  shows "sys_inv c (y\<lparr>sy_beacons := insert (slot, q) (sy_beacons y)\<rparr>)"
proof -
  have "strict_inv (lk_dedup (sy_b y))"
    using inv by (simp add: sys_inv_def link_wf_def)
  from delivered_through_seen [OF this] cur
  have "rekey (lk_ingress_slot (sy_b y)) (slot, s) \<in> dedup_seen (lk_dedup (sy_b y))" if "s \<le> q" for s
    using that by (simp add: Link_delivered_through_def rekey_def split: option.splits)
  then show ?thesis
    using inv by (simp add: sys_inv_def wire_inv_def ack_inv_def beacon_inv_def none_lost_def seq_delivered_def
        delivered_def)
qed

lemma a_window_inv:
  assumes inv: "sys_inv c y" and wf: "link_wf c a"
    and frame: "am_sent_packets (lk_acks a) = am_sent_packets (lk_acks (sy_a y))"
      "am_packet_seq (lk_acks a) = am_packet_seq (lk_acks (sy_a y))"
    and lost: "none_lost (y\<lparr>sy_a := a, sy_sent := sent\<rparr>)"
  shows "sys_inv c (y\<lparr>sy_a := a, sy_sent := sent\<rparr>)"
proof -
  have "carried (lk_acks a) = carried (lk_acks (sy_a y))"
    by (simp add: fun_eq_iff carried_def frame(1))
  then have "wire_inv (y\<lparr>sy_a := a, sy_sent := sent\<rparr>)"
    using inv frame(2) by (simp add: sys_inv_def wire_inv_def)
  moreover have "ack_inv (y\<lparr>sy_a := a, sy_sent := sent\<rparr>)"
    by (rule ack_inv_mono [of y]) (use inv in \<open>simp_all add: sys_inv_def\<close>)
  moreover have "beacon_inv (y\<lparr>sy_a := a, sy_sent := sent\<rparr>)"
    using inv by (simp add: sys_inv_def beacon_inv_def)
  ultimately show ?thesis
    using inv wf lost by (simp add: sys_inv_def)
qed

lemma a_cursor_inv:
  assumes inv: "sys_inv c y" and cur: "(slot, q) \<in> sy_beacons y" and ret: "Link_retire_through (sy_a y) slot q = (n, a)"
  shows "sys_inv c (y\<lparr>sy_a := a\<rparr>)"
proof -
  let ?m = "lk_acks (sy_a y)"
  have d: "strict_inv (snd (advance_retired_through (lk_dedup (sy_a y)) slot q))"
    using inv by (auto simp: sys_inv_def link_wf_def strict_inv_def dd_inv_def advance_retired_through_def
        slot_entry_def split: option.split)
  have a: "lk_acks a = ?m \<or> lk_acks a = snd (retire_payloads_through ?m slot q)"
    and dd: "lk_dedup a = snd (advance_retired_through (lk_dedup (sy_a y)) slot q)"
    using ret by (auto simp: Link_retire_through_def Let_def split: prod.splits if_splits)
  have wf: "link_wf c a"
    using a dd d inv am_wf_retire_payloads_through [of c ?m slot q] by (auto simp: sys_inv_def link_wf_def)
  have frame: "am_sent_packets (lk_acks a) = am_sent_packets ?m" "am_packet_seq (lk_acks a) = am_packet_seq ?m"
    using a by (auto simp: retire_payloads_through_def Let_def)
  have covered: "rekey (lk_ingress_slot (sy_b y)) (slot, s) \<in> dedup_seen (lk_dedup (sy_b y))" if "s \<le> q" for s
    using inv cur that by (auto simp: sys_inv_def beacon_inv_def)
  have "in_window (lk_acks a) k \<or> fst k = slot \<and> snd k \<le> q" if "in_window ?m k" for k
    using a that by (auto simp: in_window_def retire_payloads_through_window)
  then have "none_lost (y\<lparr>sy_a := a, sy_sent := sy_sent y\<rparr>)"
    using inv covered unfolding none_lost_def sys_inv_def by (simp, metis prod.collapse)
  from a_window_inv [OF inv wf frame this] show ?thesis
    by simp
qed

lemma a_reinject_inv:
  assumes inv: "sys_inv c y" and room: "window_len (lk_acks (sy_a y)) + element_len c p \<le> usize_max"
  shows "sys_inv c (y\<lparr>sy_a := Link_reinject_unacked c (sy_a y) p,
      sy_sent := sy_sent y \<union> window_keys (Link_reinject_unacked c (sy_a y) p)\<rparr>)"
proof (rule a_window_inv [OF inv])
  let ?m = "lk_acks (sy_a y)"
  have "am_wf c ?m"
    using inv by (simp add: sys_inv_def link_wf_def)
  then show "link_wf c (Link_reinject_unacked c (sy_a y) p)"
    using inv am_wf_reinject [OF _ room] by (simp add: sys_inv_def link_wf_def Link_reinject_unacked_def)
  show "am_sent_packets (lk_acks (Link_reinject_unacked c (sy_a y) p)) = am_sent_packets ?m"
    "am_packet_seq (lk_acks (Link_reinject_unacked c (sy_a y) p)) = am_packet_seq ?m"
    by (simp_all add: Link_reinject_unacked_def reinject_unacked_def Let_def split: option.split)
  have grow: "window_keys (sy_a y) \<subseteq> window_keys (Link_reinject_unacked c (sy_a y) p)"
    by (auto simp: window_keys_def Link_reinject_unacked_def reinject_unacked_def Let_def in_window_insert
        split: option.split)
  have old: "none_lost y"
    using inv by (simp add: sys_inv_def)
  show "none_lost (y\<lparr>sy_a := Link_reinject_unacked c (sy_a y) p,
      sy_sent := sy_sent y \<union> window_keys (Link_reinject_unacked c (sy_a y) p)\<rparr>)"
    by (rule none_lost_mono [OF old]) (simp_all add: grow)
qed

lemma reconnect_inv:
  assumes inv: "sys_inv c y"
  shows "sys_inv c
    (y\<lparr>sy_a := Link_rebind (sy_a y), sy_b := Link_rebind (sy_b y), sy_ab := {}, sy_ba := {}, sy_up := True\<rparr>)"
proof -
  have wf: "link_wf c (Link_rebind lk)" if "link_wf c lk" for lk
    using that am_wf_reset_connection by (simp add: link_wf_def Link_rebind_def)
  have car: "carried (lk_acks (Link_rebind lk)) s = {}" for lk s
    by (simp add: Link_rebind_def reset_connection_def carried_def with_capacity_wf SENT_PACKETS_SIZE_def)
  have rec: "am_received_packets (lk_acks (Link_rebind lk)) = ReceivedPacketHistory_default" for lk
    by (simp add: Link_rebind_def reset_connection_def)
  have win: "in_window (lk_acks (Link_rebind lk)) k \<longleftrightarrow> in_window (lk_acks lk) k" for lk k
    using in_window_view [OF reset_connection_view] by (simp add: Link_rebind_def)
  have dd: "lk_dedup (Link_rebind lk) = lk_dedup lk" "lk_ingress_slot (Link_rebind lk) = lk_ingress_slot lk" for lk
    by (simp_all add: Link_rebind_def)
  show ?thesis
    using inv rh_rel_default
    by (auto simp: sys_inv_def wf wire_inv_def car ack_inv_def rec beacon_inv_def none_lost_def win dd)
qed

lemma link_step_inv: "link_step c y y' \<Longrightarrow> sys_inv c y \<Longrightarrow> sys_inv c y'"
  by (induction rule: link_step.induct)
    (rule a_send_inv b_send_inv a_recv_inv b_recv_inv b_external_inv b_beacon_inv a_cursor_inv a_reinject_inv
      reconnect_inv; assumption)+

lemma link_reach_inv: "link_reach c ia ib y \<Longrightarrow> sys_inv c y"
  by (induction rule: link_reach.induct) (auto intro: sys_init_inv link_step_inv)

section \<open>Properties\<close>

text \<open>C1: No turn is lost between two links.  Whatever the network drops, duplicates or reorders, through
  any number of reconnects, refused datagrams and torn-down connections, every payload the sender ever
  registered is still in its unacked window or has been delivered by the receiver.\<close>

theorem no_turn_lost:
  assumes "link_reach c ia ib y" and "k \<in> sy_sent y"
  shows "in_window (lk_acks (sy_a y)) k \<or>
    rekey (lk_ingress_slot (sy_b y)) k \<in> dedup_seen (lk_dedup (sy_b y))"
  using link_reach_inv [OF assms(1)] assms(2) by (auto simp: sys_inv_def none_lost_def)

lemma demo_admitted: "admit proto3_codec (Some 1200) (Some (demo_payload 7)) = (Inr () :: 'e LinkError + unit)"
  using demo_element_len
  by (simp add: admit_def datagram_admission_budget_def lone_packet_len_def proto3_widest_header element_len_def
      GUARANTEED_DATAGRAM_BUDGET_def demo_payload_def slot_try_from_def)

lemma demo_step:
  obtains y where "link_reach proto3_codec None None y" and "(1, 7) \<in> sy_sent y"
proof -
  let ?i = "sys_init None None"
  have a: "sy_a ?i = Link_new"
    by (simp add: sys_init_def Link_new_def)
  have acks: "lk_acks Link_new = AckManager_new"
    by (simp add: Link_new_def)
  have room: "send_room proto3_codec Link_new (Some (demo_payload 7))"
    using demo_fits by (simp add: send_room_def acks AckManager_new_def AckManager_with_policy_def)
  have seq: "am_packet_seq (lk_acks Link_new) \<noteq> - 1"
    using demo_new(3) by (simp add: acks)
  obtain packet m m' where send: "record_sent m packet = Some m'" "am_wf proto3_codec m"
      "Link_send proto3_codec (Some 1200) (\<lambda>_. Inr () :: unit SendDatagramError + unit) Link_new (Some (demo_payload 7)) =
        Some (Inr (length (pk_payloads packet) - length (fresh_list (fresh_payload (Some (demo_payload 7))))),
          Link_new\<lparr>lk_acks := m'\<rparr>)"
    and m: "pk_seq packet = am_packet_seq (lk_acks Link_new)" "am_packet_seq m = am_packet_seq (lk_acks Link_new) + 1"
      "am_unacked_payloads m = window_with_fresh proto3_codec (lk_acks Link_new) (Some (demo_payload 7))"
    by (rule Link_send_built [OF link_wf_new(1) room seq demo_admitted,
          of "\<lambda>_. Inr () :: unit SendDatagramError + unit"]) (rule that; simp)
  have lt: "pk_seq packet < am_packet_seq m"
    using seq checked_add_one_less(1) [of "am_packet_seq (lk_acks Link_new)"] m(1,2) by (simp add: checked_add_one)
  let ?y = "?i\<lparr>sy_a := Link_new\<lparr>lk_acks := m'\<rparr>, sy_ab := sy_ab ?i \<union> on_wire proto3_codec (sy_a ?i) (Some (demo_payload 7)) (Some 1200)
      (Inr (length (pk_payloads packet) - length (fresh_list (fresh_payload (Some (demo_payload 7))))) :: unit LinkError + nat),
      sy_sent := sy_sent ?i \<union> window_keys (Link_new\<lparr>lk_acks := m'\<rparr>)\<rparr>"
  have "link_step proto3_codec ?i ?y"
    by (rule link_step.a_send) (use room send a in \<open>simp_all add: sys_init_def Link_new_def\<close>)
  then have reach: "link_reach proto3_codec None None ?y"
    by (rule link_reach.step [OF link_reach.init])
  have key: "payload_key (demo_payload 7) = Some (1, 7)"
    by code_simp
  then have "in_window m' (1, 7)"
    using record_sent_window(1) [OF send(2) lt send(1)] fresh_window [OF m(3)] by simp
  then have "(1, 7) \<in> sy_sent ?y"
    by (simp add: window_keys_def)
  then show ?thesis
    using that [OF reach] by blast
qed

theorem no_turn_lost_witness:
  "\<exists>y :: link_sys. (1, 7) \<in> sy_sent y \<and> (in_window (lk_acks (sy_a y)) (1, 7) \<or>
    rekey (lk_ingress_slot (sy_b y)) (1, 7) \<in> dedup_seen (lk_dedup (sy_b y)))"
proof -
  obtain y where y: "link_reach proto3_codec None None y" "(1, 7) \<in> sy_sent y"
    by (rule demo_step)
  from no_turn_lost [OF y] y(2) show ?thesis
    by blast
qed

end
