(* ===== verification/MeshSeen.thy ===== *)
theory MeshSeen
  imports SeqPrefix
begin

text \<open>
  The session-level forward-once gate of a relay, \<open>relay/src/mesh/seen.rs\<close>: per session and slot, which
  turns have been forwarded to the local clients, and the cursors read back for resume, receipts and
  leave counts.  The registries' mutex makes every operation atomic, so the shared
  \<open>Arc<Mutex<HashMap<..>>>\<close> is a partial map passed along; a \<open>BTreeSet\<close> is a finite set, read in
  ascending order by \<open>sorted_list_of_set\<close>.

  The gate contract \<open>forward_once\<close> is interpreted on \<open>mark_seen\<close>.  A ghost history, the set of turns
  the gate reported as new, shows what each cursor means.
\<close>

section \<open>State\<close>

record SessionKey =
  sk_tenant :: string
  sk_session :: u64

record SlotSeen =
  ss_forwarded_through :: "u64 option"
  ss_ahead :: "u64 set"
  ss_prefix_collapsed :: bool

type_synonym MeshSeen = "SlotId \<rightharpoonup> SlotSeen"

type_synonym SeenRegistries = "SessionKey \<rightharpoonup> MeshSeen"

datatype Seen = SeenNew | SeenDuplicate

record Forwarded =
  fw_seen :: Seen
  fw_prefix_advanced :: bool
  fw_forwarded :: u64

datatype ForwardGateReading = Count u64 | NeverForwarded | Unsound

record SlotReceipts =
  sr_forwarded_through :: "u64 option"
  sr_ahead :: "u64 list"

definition SPARSE_SEEN_CAP :: nat where
  "SPARSE_SEEN_CAP = 4096"

section \<open>Operations\<close>

definition Forwarded_duplicate :: Forwarded where
  "Forwarded_duplicate = \<lparr>fw_seen = SeenDuplicate, fw_prefix_advanced = False, fw_forwarded = 0\<rparr>"

definition SlotSeen_fresh :: SlotSeen where
  "SlotSeen_fresh = \<lparr>ss_forwarded_through = None, ss_ahead = {}, ss_prefix_collapsed = False\<rparr>"

definition SlotSeen_forwarded_count :: "SlotSeen \<Rightarrow> u64" where
  "SlotSeen_forwarded_count st =
     (case ss_forwarded_through st of None \<Rightarrow> 0 | Some through \<Rightarrow> saturating_add through 1)"

definition SlotSeen_absorb_contiguous_run :: "SlotSeen \<Rightarrow> SlotSeen" where
  "SlotSeen_absorb_contiguous_run st =
     (let (through, ahead) = absorb_run (ss_forwarded_through st) (ss_ahead st)
      in st\<lparr>ss_forwarded_through := through, ss_ahead := ahead\<rparr>)"

lemma absorb_from_subset: "snd (absorb_from n through ahead) \<subseteq> ahead"
proof (induction n through ahead rule: absorb_from.induct)
  case (1 n through ahead)
  then show ?case
    by (subst absorb_from.simps) (auto split: option.split)
qed

lemma absorb_run_subset: "snd (absorb_run through ahead) \<subseteq> ahead"
  using absorb_from_subset by (auto simp: absorb_run_def split: option.split)

lemma SlotSeen_absorb_subset: "ss_ahead (SlotSeen_absorb_contiguous_run st) \<subseteq> ss_ahead st"
  using absorb_run_subset [of "ss_forwarded_through st" "ss_ahead st"]
  by (auto simp: SlotSeen_absorb_contiguous_run_def split: prod.splits)

definition pop_lowest :: "SlotSeen \<Rightarrow> SlotSeen" where
  "pop_lowest st =
     (let lowest = Min (ss_ahead st)
      in SlotSeen_absorb_contiguous_run
           (st\<lparr>ss_ahead := ss_ahead st - {lowest}, ss_forwarded_through := Some lowest,
               ss_prefix_collapsed := True\<rparr>))"

lemma pop_lowest_card:
  assumes "SPARSE_SEEN_CAP < card (ss_ahead st)"
  shows "card (ss_ahead (pop_lowest st)) < card (ss_ahead st)"
proof -
  have fin: "finite (ss_ahead st)" "ss_ahead st \<noteq> {}"
    using assms by (auto intro: card_ge_0_finite)
  have "ss_ahead (pop_lowest st) \<subseteq> ss_ahead st - {Min (ss_ahead st)}"
    using SlotSeen_absorb_subset by (fastforce simp: pop_lowest_def Let_def)
  then have "ss_ahead (pop_lowest st) \<subset> ss_ahead st"
    using Min_in [OF fin] by blast
  then show ?thesis
    using fin(1) by (rule psubset_card_mono [rotated])
qed

function collapse_to_cap :: "SlotSeen \<Rightarrow> SlotSeen" where
  "collapse_to_cap st =
     (if SPARSE_SEEN_CAP < card (ss_ahead st) then collapse_to_cap (pop_lowest st) else st)"
  by pat_completeness auto
termination
  by (relation "measure (\<lambda>st. card (ss_ahead st))") (simp_all add: pop_lowest_card)

declare collapse_to_cap.simps [simp del]

definition mark_forwarded_slot :: "SlotSeen \<Rightarrow> u64 \<Rightarrow> Forwarded \<times> SlotSeen" where
  "mark_forwarded_slot st s =
     (if in_prefix (ss_forwarded_through st) s then (Forwarded_duplicate, st)
      else
        (case (case ss_forwarded_through st of Some through \<Rightarrow> checked_add through 1 | None \<Rightarrow> Some 0) of
           None \<Rightarrow> (Forwarded_duplicate, st)
         | Some base \<Rightarrow>
             if s = base then
               (let st' = SlotSeen_absorb_contiguous_run (st\<lparr>ss_forwarded_through := Some s\<rparr>)
                in (\<lparr>fw_seen = SeenNew, fw_prefix_advanced = \<not> ss_prefix_collapsed st',
                     fw_forwarded = SlotSeen_forwarded_count st'\<rparr>, st'))
             else if s \<in> ss_ahead st then (Forwarded_duplicate, st)
             else
               (let absorbed = SlotSeen_absorb_contiguous_run (st\<lparr>ss_ahead := insert s (ss_ahead st)\<rparr>);
                    closed_a_gap = (ss_forwarded_through absorbed \<noteq> ss_forwarded_through st);
                    st' = collapse_to_cap absorbed
                in (\<lparr>fw_seen = SeenNew, fw_prefix_advanced = closed_a_gap \<and> \<not> ss_prefix_collapsed st',
                     fw_forwarded = SlotSeen_forwarded_count st'\<rparr>, st'))))"

definition slot_seen_entry :: "MeshSeen \<Rightarrow> SlotId \<Rightarrow> SlotSeen" where
  "slot_seen_entry m slot = (case m slot of Some st \<Rightarrow> st | None \<Rightarrow> SlotSeen_fresh)"

definition mark_forwarded :: "MeshSeen \<Rightarrow> SlotId \<Rightarrow> u64 \<Rightarrow> Forwarded \<times> MeshSeen" where
  "mark_forwarded m slot s =
     (let (f, st) = mark_forwarded_slot (slot_seen_entry m slot) s in (f, m(slot \<mapsto> st)))"

definition session_seen :: "SeenRegistries \<Rightarrow> SessionKey \<Rightarrow> MeshSeen" where
  "session_seen R key = (case R key of Some m \<Rightarrow> m | None \<Rightarrow> Map.empty)"

definition mark_seen :: "SeenRegistries \<Rightarrow> SessionKey \<Rightarrow> SlotId \<Rightarrow> u64 \<Rightarrow> Forwarded \<times> SeenRegistries" where
  "mark_seen R key slot s =
     (let (f, m) = mark_forwarded (session_seen R key) slot s in (f, R(key \<mapsto> m)))"

definition deregister_seen :: "SeenRegistries \<Rightarrow> SessionKey \<Rightarrow> SeenRegistries" where
  "deregister_seen R key = R(key := None)"

definition gate_slot :: "SeenRegistries \<Rightarrow> SessionKey \<Rightarrow> SlotId \<Rightarrow> SlotSeen option" where
  "gate_slot R key slot = Option.bind (R key) (\<lambda>m. m slot)"

definition forwarded_count :: "SeenRegistries \<Rightarrow> SessionKey \<Rightarrow> SlotId \<Rightarrow> u64 option" where
  "forwarded_count R key slot =
     (case gate_slot R key slot of
        None \<Rightarrow> None
      | Some st \<Rightarrow>
          if ss_prefix_collapsed st then None
          else Option.bind (ss_forwarded_through st) (\<lambda>t. checked_add t 1))"

definition forward_gate_reading :: "SeenRegistries \<Rightarrow> SessionKey \<Rightarrow> SlotId \<Rightarrow> ForwardGateReading" where
  "forward_gate_reading R key slot =
     (case gate_slot R key slot of
        None \<Rightarrow> NeverForwarded
      | Some st \<Rightarrow>
          if ss_prefix_collapsed st \<or> ss_ahead st \<noteq> {} then Unsound
          else
            (case Option.bind (ss_forwarded_through st) (\<lambda>t. checked_add t 1) of
               None \<Rightarrow> Unsound
             | Some n \<Rightarrow> Count n))"

definition highest_forwarded_seq :: "SeenRegistries \<Rightarrow> SessionKey \<Rightarrow> SlotId \<Rightarrow> u64 option" where
  "highest_forwarded_seq R key slot =
     (case gate_slot R key slot of
        None \<Rightarrow> None
      | Some st \<Rightarrow> if ss_ahead st \<noteq> {} then Some (Max (ss_ahead st)) else ss_forwarded_through st)"

definition resume_cursor_snapshot ::
    "SlotId list \<Rightarrow> SeenRegistries \<Rightarrow> SessionKey \<Rightarrow> (SlotId \<times> u64) list" where
  "resume_cursor_snapshot order R key =
     (case R key of
        None \<Rightarrow> []
      | Some m \<Rightarrow>
          List.map_filter (\<lambda>slot. map_option (\<lambda>through. (slot, saturating_add through 1))
            (Option.bind (m slot) ss_forwarded_through)) order)"

definition slot_receipts :: "SeenRegistries \<Rightarrow> SessionKey \<Rightarrow> SlotId \<Rightarrow> SlotReceipts" where
  "slot_receipts R key slot =
     (case gate_slot R key slot of
        None \<Rightarrow> \<lparr>sr_forwarded_through = None, sr_ahead = []\<rparr>
      | Some st \<Rightarrow> \<lparr>sr_forwarded_through = ss_forwarded_through st, sr_ahead = sorted_list_of_set (ss_ahead st)\<rparr>)"

definition has_resumable_state :: "SeenRegistries \<Rightarrow> SessionKey \<Rightarrow> bool" where
  "has_resumable_state R key \<longleftrightarrow> R key \<noteq> None"

section \<open>One slot\<close>

definition ss_seen :: "SlotSeen \<Rightarrow> u64 set" where
  "ss_seen st = taken (ss_forwarded_through st) (ss_ahead st)"

definition ss_tight :: "SlotSeen \<Rightarrow> bool" where
  "ss_tight st \<longleftrightarrow> prefix_inv (ss_forwarded_through st) (ss_ahead st) \<and>
     prefix_tight (ss_forwarded_through st) (ss_ahead st)"

definition ss_inv :: "SlotSeen \<Rightarrow> bool" where
  "ss_inv st \<longleftrightarrow> ss_tight st \<and> card (ss_ahead st) \<le> SPARSE_SEEN_CAP"

lemma ss_fresh [simp]: "ss_inv SlotSeen_fresh" "ss_seen SlotSeen_fresh = {}" "\<not> ss_prefix_collapsed SlotSeen_fresh"
  by (simp_all add: SlotSeen_fresh_def ss_inv_def ss_tight_def ss_seen_def prefix_inv_def prefix_tight_def
      taken_def)

lemma ss_absorb:
  assumes "prefix_inv (ss_forwarded_through st) (ss_ahead st)"
  shows "ss_tight (SlotSeen_absorb_contiguous_run st)"
    and "ss_seen (SlotSeen_absorb_contiguous_run st) = ss_seen st"
    and "ss_prefix_collapsed (SlotSeen_absorb_contiguous_run st) = ss_prefix_collapsed st"
proof -
  obtain t a where run: "absorb_run (ss_forwarded_through st) (ss_ahead st) = (t, a)"
    by force
  show "ss_tight (SlotSeen_absorb_contiguous_run st)"
    and "ss_seen (SlotSeen_absorb_contiguous_run st) = ss_seen st"
    and "ss_prefix_collapsed (SlotSeen_absorb_contiguous_run st) = ss_prefix_collapsed st"
    using absorb_run_spec(1-3) [OF assms run]
    by (simp_all add: SlotSeen_absorb_contiguous_run_def run ss_tight_def ss_seen_def)
qed

lemma in_prefix_below:
  "\<not> in_prefix through x \<Longrightarrow> in_prefix through y \<Longrightarrow> y \<le> x"
  by (auto simp: in_prefix_def split: option.splits)

lemma pop_lowest_spec:
  assumes "ss_tight st" and "SPARSE_SEEN_CAP < card (ss_ahead st)"
  shows "ss_tight (pop_lowest st)" and "ss_seen st \<subseteq> ss_seen (pop_lowest st)"
    and "ss_prefix_collapsed (pop_lowest st)"
    and "x \<in> ss_seen (pop_lowest st) \<Longrightarrow> x \<in> ss_seen st \<or> (\<exists>y \<in> ss_ahead st. x < y)"
    and "ss_ahead (pop_lowest st) \<subseteq> ss_ahead st"
proof -
  let ?m = "Min (ss_ahead st)"
  let ?st = "st\<lparr>ss_ahead := ss_ahead st - {?m}, ss_forwarded_through := Some ?m, ss_prefix_collapsed := True\<rparr>"
  have fin: "finite (ss_ahead st)" "ss_ahead st \<noteq> {}"
    using assms(2) by (auto intro: card_ge_0_finite)
  note min = Min_in [OF fin] Min_le [OF fin(1)]
  have above: "\<not> in_prefix (ss_forwarded_through st) ?m"
    using assms(1) min(1) by (simp add: ss_tight_def prefix_inv_def)
  have pop: "pop_lowest st = SlotSeen_absorb_contiguous_run ?st"
    by (simp add: pop_lowest_def Let_def)
  have inv: "prefix_inv (ss_forwarded_through ?st) (ss_ahead ?st)"
    using fin(1) by (auto simp: prefix_inv_def dest: min(2) order.antisym)
  show "ss_tight (pop_lowest st)"
    unfolding pop by (rule ss_absorb(1) [OF inv])
  have seen: "ss_seen (pop_lowest st) = {x. x \<le> ?m} \<union> ss_ahead st"
    unfolding pop ss_absorb(2) [OF inv] using min(1) by (auto simp: ss_seen_def taken_def)
  show "ss_seen st \<subseteq> ss_seen (pop_lowest st)"
    unfolding seen using in_prefix_below [OF above] by (auto simp: ss_seen_def taken_def)
  show "ss_prefix_collapsed (pop_lowest st)"
    unfolding pop ss_absorb(3) [OF inv] by simp
  show "x \<in> ss_seen st \<or> (\<exists>y \<in> ss_ahead st. x < y)" if "x \<in> ss_seen (pop_lowest st)"
    using that min(1) unfolding seen by (auto simp: ss_seen_def taken_def le_less)
  show "ss_ahead (pop_lowest st) \<subseteq> ss_ahead st"
    using SlotSeen_absorb_subset [of ?st] unfolding pop by auto
qed

lemma collapse_to_cap_spec:
  assumes "ss_tight st"
  shows "ss_inv (collapse_to_cap st) \<and> ss_seen st \<subseteq> ss_seen (collapse_to_cap st) \<and>
    (\<not> ss_prefix_collapsed (collapse_to_cap st) \<longrightarrow> collapse_to_cap st = st) \<and>
    (ss_prefix_collapsed st \<longrightarrow> ss_prefix_collapsed (collapse_to_cap st)) \<and>
    (\<forall>x \<in> ss_seen (collapse_to_cap st). x \<in> ss_seen st \<or> (\<exists>y \<in> ss_ahead st. x < y))"
  using assms
proof (induction st rule: collapse_to_cap.induct)
  case (1 st)
  show ?case
  proof (cases "SPARSE_SEEN_CAP < card (ss_ahead st)")
    case True
    note pop = pop_lowest_spec [OF 1(2) True]
    have step: "collapse_to_cap st = collapse_to_cap (pop_lowest st)"
      using True by (subst collapse_to_cap.simps) simp
    show ?thesis
      using 1(1) [OF True pop(1)] pop(2,3,5) unfolding step by (blast dest: pop(4))
  next
    case False
    then have "collapse_to_cap st = st"
      by (subst collapse_to_cap.simps) simp
    then show ?thesis
      using 1(2) False by (simp add: ss_inv_def)
  qed
qed

lemma ss_advance_base:
  assumes "ss_inv st" and "prefix_base (ss_forwarded_through st) = Some s"
  shows "ss_inv (SlotSeen_absorb_contiguous_run (st\<lparr>ss_forwarded_through := Some s\<rparr>))"
    and "ss_seen (SlotSeen_absorb_contiguous_run (st\<lparr>ss_forwarded_through := Some s\<rparr>)) = insert s (ss_seen st)"
    and "s \<notin> ss_seen st"
proof -
  let ?st = "st\<lparr>ss_forwarded_through := Some s\<rparr>"
  have tight: "prefix_inv (ss_forwarded_through st) (ss_ahead st)"
      "prefix_tight (ss_forwarded_through st) (ss_ahead st)" "finite (ss_ahead st)"
    using assms(1) by (simp_all add: ss_inv_def ss_tight_def prefix_inv_def)
  have inv: "prefix_inv (ss_forwarded_through ?st) (ss_ahead ?st)"
    using taken_base_step(2) [OF assms(2) tight(1,2)] by simp
  have "card (ss_ahead (SlotSeen_absorb_contiguous_run ?st)) \<le> card (ss_ahead st)"
    using SlotSeen_absorb_subset [of ?st] tight(3) by (auto intro: card_mono)
  then show "ss_inv (SlotSeen_absorb_contiguous_run ?st)"
    using assms(1) ss_absorb(1) [OF inv] by (simp add: ss_inv_def)
  show "ss_seen (SlotSeen_absorb_contiguous_run ?st) = insert s (ss_seen st)"
    unfolding ss_absorb(2) [OF inv] using taken_base_step(3) [OF assms(2) tight(1,2)]
    by (simp add: ss_seen_def)
  show "s \<notin> ss_seen st"
    using prefix_base_not_in_prefix [OF assms(2)] assms(2) tight(2)
    by (simp add: ss_seen_def taken_def prefix_tight_def)
qed

lemma mark_forwarded_slot_base:
  "mark_forwarded_slot st s =
     (if in_prefix (ss_forwarded_through st) s then (Forwarded_duplicate, st)
      else if prefix_base (ss_forwarded_through st) = Some s then
        (let st' = SlotSeen_absorb_contiguous_run (st\<lparr>ss_forwarded_through := Some s\<rparr>)
         in (\<lparr>fw_seen = SeenNew, fw_prefix_advanced = \<not> ss_prefix_collapsed st',
              fw_forwarded = SlotSeen_forwarded_count st'\<rparr>, st'))
      else if s \<in> ss_ahead st then (Forwarded_duplicate, st)
      else
        (let absorbed = SlotSeen_absorb_contiguous_run (st\<lparr>ss_ahead := insert s (ss_ahead st)\<rparr>);
             st' = collapse_to_cap absorbed
         in (\<lparr>fw_seen = SeenNew,
              fw_prefix_advanced = ss_forwarded_through absorbed \<noteq> ss_forwarded_through st \<and>
                \<not> ss_prefix_collapsed st',
              fw_forwarded = SlotSeen_forwarded_count st'\<rparr>, st')))"
proof (cases "in_prefix (ss_forwarded_through st) s")
  case False
  then obtain b where "prefix_base (ss_forwarded_through st) = Some b"
    using prefix_base_exists by blast
  moreover have "(case ss_forwarded_through st of Some through \<Rightarrow> checked_add through 1 | None \<Rightarrow> Some 0) =
      prefix_base (ss_forwarded_through st)"
    by (simp add: prefix_base_def split: option.split)
  ultimately show ?thesis
    using False by (simp add: mark_forwarded_slot_def Let_def eq_commute [of b s])
qed (simp add: mark_forwarded_slot_def)

definition slot_step_ok :: "SlotSeen \<Rightarrow> u64 \<Rightarrow> Forwarded \<Rightarrow> SlotSeen \<Rightarrow> bool" where
  "slot_step_ok st s f st' \<longleftrightarrow>
     ss_inv st' \<and> ss_seen st \<subseteq> ss_seen st' \<and> s \<in> ss_seen st' \<and>
     (fw_seen f = SeenNew \<longleftrightarrow> s \<notin> ss_seen st) \<and>
     (fw_seen f = SeenDuplicate \<longrightarrow> st' = st) \<and>
     (\<not> ss_prefix_collapsed st' \<longrightarrow> \<not> ss_prefix_collapsed st \<and> ss_seen st' = insert s (ss_seen st)) \<and>
     (fw_prefix_advanced f \<longleftrightarrow> fw_seen f = SeenNew \<and> \<not> ss_prefix_collapsed st' \<and>
        ss_forwarded_through st' \<noteq> ss_forwarded_through st) \<and>
     (fw_seen f = SeenNew \<longrightarrow> fw_forwarded f = SlotSeen_forwarded_count st') \<and>
     (\<forall>x \<in> ss_seen st'. x \<in> ss_seen st \<or> (\<exists>y \<in> insert s (ss_seen st). x \<le> y))"

lemma mark_forwarded_slot_spec:
  assumes "ss_inv st" and "mark_forwarded_slot st s = (f, st')"
  shows "slot_step_ok st s f st'"
proof -
  have tight: "prefix_inv (ss_forwarded_through st) (ss_ahead st)"
    using assms(1) by (simp add: ss_inv_def ss_tight_def)
  consider (prefix) "in_prefix (ss_forwarded_through st) s"
    | (base) "\<not> in_prefix (ss_forwarded_through st) s" "prefix_base (ss_forwarded_through st) = Some s"
    | (dup) "\<not> in_prefix (ss_forwarded_through st) s" "prefix_base (ss_forwarded_through st) \<noteq> Some s" "s \<in> ss_ahead st"
    | (sparse) "\<not> in_prefix (ss_forwarded_through st) s" "prefix_base (ss_forwarded_through st) \<noteq> Some s"
        "s \<notin> ss_ahead st"
    by blast
  then show ?thesis
  proof cases
    case prefix
    then show ?thesis
      using assms by (auto simp: slot_step_ok_def mark_forwarded_slot_base Forwarded_duplicate_def ss_seen_def taken_def)
  next
    case dup
    then show ?thesis
      using assms by (auto simp: slot_step_ok_def mark_forwarded_slot_base Forwarded_duplicate_def ss_seen_def taken_def)
  next
    case base
    let ?st = "st\<lparr>ss_forwarded_through := Some s\<rparr>"
    have st': "st' = SlotSeen_absorb_contiguous_run ?st"
      and f: "f = \<lparr>fw_seen = SeenNew, fw_prefix_advanced = \<not> ss_prefix_collapsed st',
              fw_forwarded = SlotSeen_forwarded_count st'\<rparr>"
      using assms(2) base by (auto simp: mark_forwarded_slot_base Let_def)
    note adv = ss_advance_base [OF assms(1) base(2), folded st']
    have "s \<notin> ss_ahead st'"
      using SlotSeen_absorb_subset [of ?st] adv(3) by (auto simp: st' ss_seen_def taken_def)
    then have "in_prefix (ss_forwarded_through st') s"
      using adv(2) by (auto simp: ss_seen_def taken_def)
    then have "ss_forwarded_through st' \<noteq> ss_forwarded_through st"
      using base(1) by auto
    moreover have "ss_prefix_collapsed st' = ss_prefix_collapsed st"
      by (simp add: st' SlotSeen_absorb_contiguous_run_def split: prod.split)
    ultimately show ?thesis
      using adv f by (auto simp: slot_step_ok_def)
  next
    case sparse
    let ?st = "st\<lparr>ss_ahead := insert s (ss_ahead st)\<rparr>"
    define ab where "ab = SlotSeen_absorb_contiguous_run ?st"
    have st': "st' = collapse_to_cap ab"
      and f: "f = \<lparr>fw_seen = SeenNew,
          fw_prefix_advanced = ss_forwarded_through ab \<noteq> ss_forwarded_through st \<and> \<not> ss_prefix_collapsed st',
          fw_forwarded = SlotSeen_forwarded_count st'\<rparr>"
      using assms(2) sparse by (auto simp: mark_forwarded_slot_base Let_def ab_def)
    have inv: "prefix_inv (ss_forwarded_through ?st) (ss_ahead ?st)"
      using prefix_inv_insert [OF tight sparse(1)] by simp
    note ab = ss_absorb [OF inv, folded ab_def]
    note cap = collapse_to_cap_spec [OF ab(1), folded st']
    have seen: "ss_seen ab = insert s (ss_seen st)"
      unfolding ab(2) by (simp add: ss_seen_def taken_insert)
    have new: "s \<notin> ss_seen st"
      using sparse by (simp add: ss_seen_def taken_def)
    have ahead: "ss_ahead ab \<subseteq> insert s (ss_seen st)"
      using SlotSeen_absorb_subset [of ?st] by (auto simp: ab_def ss_seen_def taken_def)
    have behind: "\<forall>x \<in> ss_seen st'. x \<in> ss_seen st \<or> (\<exists>y \<in> insert s (ss_seen st). x \<le> y)"
    proof
      fix x
      assume "x \<in> ss_seen st'"
      then have "x \<in> ss_seen ab \<or> (\<exists>y \<in> ss_ahead ab. x < y)"
        using cap by blast
      then show "x \<in> ss_seen st \<or> (\<exists>y \<in> insert s (ss_seen st). x \<le> y)"
        using seen ahead by (blast intro: less_imp_le order_refl)
    qed
    have "ss_inv st'" "insert s (ss_seen st) \<subseteq> ss_seen st'"
      using cap seen by auto
    moreover have "\<not> ss_prefix_collapsed st \<and> st' = ab" if "\<not> ss_prefix_collapsed st'"
      using cap that ab(3) by auto
    ultimately show ?thesis
      unfolding slot_step_ok_def using f new seen behind by auto
  qed
qed

lemma slot_step_okD:
  assumes "slot_step_ok st s f st'"
  shows "ss_inv st'" and "ss_seen st \<subseteq> ss_seen st'" and "s \<in> ss_seen st'"
    and "fw_seen f = SeenNew \<longleftrightarrow> s \<notin> ss_seen st" and "fw_seen f = SeenDuplicate \<Longrightarrow> st' = st"
    and "\<not> ss_prefix_collapsed st' \<Longrightarrow> \<not> ss_prefix_collapsed st \<and> ss_seen st' = insert s (ss_seen st)"
    and "x \<in> ss_seen st' \<Longrightarrow> x \<in> ss_seen st \<or> (\<exists>y \<in> insert s (ss_seen st). x \<le> y)"
  using assms unfolding slot_step_ok_def by blast+

section \<open>The whole gate\<close>

definition gate_entry :: "SeenRegistries \<Rightarrow> SessionKey \<Rightarrow> SlotId \<Rightarrow> SlotSeen" where
  "gate_entry R key slot = slot_seen_entry (session_seen R key) slot"

definition gate_seen :: "SeenRegistries \<Rightarrow> (SessionKey \<times> SlotId \<times> u64) set" where
  "gate_seen R = {(key, slot, s). s \<in> ss_seen (gate_entry R key slot)}"

definition gate_inv :: "SeenRegistries \<Rightarrow> bool" where
  "gate_inv R \<longleftrightarrow> (\<forall>key slot. ss_inv (gate_entry R key slot))"

definition gate_offer :: "SeenRegistries \<Rightarrow> SessionKey \<times> SlotId \<times> u64 \<Rightarrow> bool \<times> SeenRegistries" where
  "gate_offer R k = (case k of (key, slot, s) \<Rightarrow>
     let (f, R') = mark_seen R key slot s in (fw_seen f = SeenNew, R'))"

lemma gate_entry_gate_slot:
  "gate_entry R key slot = (case gate_slot R key slot of Some st \<Rightarrow> st | None \<Rightarrow> SlotSeen_fresh)"
  by (simp add: gate_entry_def slot_seen_entry_def session_seen_def gate_slot_def split: option.split)

lemma mark_seen_step:
  assumes "mark_seen R key slot s = (f, R')"
  obtains st' where "mark_forwarded_slot (gate_entry R key slot) s = (f, st')"
    and "\<And>k l. gate_entry R' k l = (if k = key \<and> l = slot then st' else gate_entry R k l)"
    and "\<And>k l. gate_slot R' k l = (if k = key \<and> l = slot then Some st' else gate_slot R k l)"
proof -
  obtain g st' where "mark_forwarded_slot (gate_entry R key slot) s = (g, st')"
    by force
  moreover from this have "g = f"
    and R': "R' = R(key \<mapsto> (session_seen R key)(slot \<mapsto> st'))"
    using assms by (auto simp: mark_seen_def mark_forwarded_def gate_entry_def Let_def split: prod.splits)
  ultimately show ?thesis
    using that [of st']
    by (auto simp: gate_entry_def gate_slot_def session_seen_def slot_seen_entry_def split: option.splits)
qed

lemma gate_offer_step:
  assumes "gate_inv R" and "gate_offer R (key, slot, s) = (new, R')"
  obtains f st' where "slot_step_ok (gate_entry R key slot) s f st'" and "new \<longleftrightarrow> fw_seen f = SeenNew"
    and "\<And>k l. gate_entry R' k l = (if k = key \<and> l = slot then st' else gate_entry R k l)"
    and "\<And>k l. gate_slot R' k l = (if k = key \<and> l = slot then Some st' else gate_slot R k l)"
proof -
  obtain f where mark: "mark_seen R key slot s = (f, R')" and new: "new \<longleftrightarrow> fw_seen f = SeenNew"
    using assms(2) by (auto simp: gate_offer_def split: prod.splits)
  obtain st' where st': "mark_forwarded_slot (gate_entry R key slot) s = (f, st')"
      "\<And>k l. gate_entry R' k l = (if k = key \<and> l = slot then st' else gate_entry R k l)"
      "\<And>k l. gate_slot R' k l = (if k = key \<and> l = slot then Some st' else gate_slot R k l)"
    by (rule mark_seen_step [OF mark]) (rule that)
  have "ss_inv (gate_entry R key slot)"
    using assms(1) by (simp add: gate_inv_def)
  from mark_forwarded_slot_spec [OF this st'(1)] show ?thesis
    using new st'(2,3) by (rule that)
qed

interpretation gate: forward_once gate_offer gate_seen gate_inv
proof unfold_locales
  fix R k new R'
  assume inv: "gate_inv R" and offer: "gate_offer R k = (new, R')"
  obtain key slot s where k: "k = (key, slot, s)"
    by (cases k)
  obtain f st' where ok: "slot_step_ok (gate_entry R key slot) s f st'"
    and entry: "\<And>k l. gate_entry R' k l = (if k = key \<and> l = slot then st' else gate_entry R k l)"
    by (rule gate_offer_step [OF inv offer [unfolded k]]) (rule that)
  show "gate_inv R'"
    using inv slot_step_okD(1) [OF ok] by (simp add: gate_inv_def entry)
  show "gate_seen R \<subseteq> gate_seen R'"
    using slot_step_okD(2) [OF ok] by (auto simp: gate_seen_def entry split: if_splits)
next
  fix R k R'
  assume inv: "gate_inv R" and offer: "gate_offer R k = (True, R')"
  obtain key slot s where k: "k = (key, slot, s)"
    by (cases k)
  obtain f st' where ok: "slot_step_ok (gate_entry R key slot) s f st'" and new: "True \<longleftrightarrow> fw_seen f = SeenNew"
    and entry: "\<And>k l. gate_entry R' k l = (if k = key \<and> l = slot then st' else gate_entry R k l)"
    by (rule gate_offer_step [OF inv offer [unfolded k]]) (rule that)
  show "k \<notin> gate_seen R" "k \<in> gate_seen R'"
    using slot_step_okD(3,4) [OF ok] new by (simp_all add: gate_seen_def entry k)
qed

lemma gate_empty [simp]: "gate_inv Map.empty" "gate_seen Map.empty = {}" "gate_entry Map.empty key slot = SlotSeen_fresh"
  by (simp_all add: gate_inv_def gate_seen_def gate_entry_def slot_seen_entry_def session_seen_def)

text \<open>The turns of one slot in a history of forwarded turns, and what the gate's state says of them.\<close>

definition turns_of :: "(SessionKey \<times> SlotId \<times> u64) set \<Rightarrow> SessionKey \<Rightarrow> SlotId \<Rightarrow> u64 set" where
  "turns_of G key slot = {s. (key, slot, s) \<in> G}"

definition slot_hist :: "SlotSeen option \<Rightarrow> u64 set \<Rightarrow> bool" where
  "slot_hist e H \<longleftrightarrow> (case e of
     None \<Rightarrow> H = {}
   | Some st \<Rightarrow> H \<noteq> {} \<and> H \<subseteq> ss_seen st \<and> (\<not> ss_prefix_collapsed st \<longrightarrow> ss_seen st = H) \<and>
       (\<forall>x \<in> ss_seen st. \<exists>g \<in> H. x \<le> g))"

definition gate_hist :: "SeenRegistries \<Rightarrow> (SessionKey \<times> SlotId \<times> u64) set \<Rightarrow> bool" where
  "gate_hist R G \<longleftrightarrow> gate_inv R \<and> (\<forall>key slot. slot_hist (gate_slot R key slot) (turns_of G key slot))"

lemma slot_hist_step:
  assumes "slot_hist e H" and "slot_step_ok (case e of Some st \<Rightarrow> st | None \<Rightarrow> SlotSeen_fresh) s f st'"
  shows "slot_hist (Some st') (if fw_seen f = SeenNew then insert s H else H)"
proof -
  define st where "st = (case e of Some st \<Rightarrow> st | None \<Rightarrow> SlotSeen_fresh)"
  note step = slot_step_okD [OF assms(2) [folded st_def]]
  have H: "H \<subseteq> ss_seen st" "\<not> ss_prefix_collapsed st \<Longrightarrow> ss_seen st = H"
    and reach: "\<And>x. x \<in> ss_seen st \<Longrightarrow> \<exists>g \<in> H. x \<le> g"
    using assms(1) by (auto simp: slot_hist_def st_def split: option.splits)
  show ?thesis
  proof (cases "fw_seen f = SeenNew")
    case True
    have "\<exists>g \<in> insert s H. x \<le> g" if "x \<in> ss_seen st'" for x
      using step(7) [OF that] reach by (auto intro: order_trans)
    then show ?thesis
      using True H step(2,3,6) by (auto simp: slot_hist_def)
  next
    case False
    then have "st' = st" "s \<in> ss_seen st"
      using step(4,5) by (cases "fw_seen f"; simp)+
    then show ?thesis
      using False H reach by (fastforce simp: slot_hist_def)
  qed
qed

lemma gate_hist_run:
  "gate_hist R G \<Longrightarrow> offer_run gate_offer R ks = (ds, R') \<Longrightarrow> gate_hist R' (G \<union> set ds)"
proof (induction ks arbitrary: R G ds)
  case (Cons k ks)
  obtain key slot s where k: "k = (key, slot, s)"
    by (cases k)
  obtain new R1 where offer: "gate_offer R k = (new, R1)"
    by force
  obtain es where rest: "offer_run gate_offer R1 ks = (es, R')" and ds: "ds = (if new then k # es else es)"
    using Cons.prems(2) offer by (auto simp: Let_def split: prod.splits)
  have inv: "gate_inv R" and hist: "slot_hist (gate_slot R k l) (turns_of G k l)" for k l
    using Cons.prems(1) by (simp_all add: gate_hist_def)
  obtain f st' where ok: "slot_step_ok (gate_entry R key slot) s f st'" and new: "new \<longleftrightarrow> fw_seen f = SeenNew"
    and slots: "\<And>k l. gate_slot R1 k l = (if k = key \<and> l = slot then Some st' else gate_slot R k l)"
    by (rule gate_offer_step [OF inv offer [unfolded k]]) (rule that)
  let ?G = "if new then insert k G else G"
  have turns: "turns_of ?G k' l = (if k' = key \<and> l = slot \<and> new then insert s (turns_of G k' l) else turns_of G k' l)"
    for k' l
    by (auto simp: turns_of_def k)
  have "slot_hist (gate_slot R1 k' l) (turns_of ?G k' l)" for k' l
    using hist [of k' l] slot_hist_step [OF hist [of key slot] ok [unfolded gate_entry_gate_slot]] new
    unfolding slots turns by auto
  then have "gate_hist R1 ?G"
    using gate.inv_offer [OF inv offer] by (simp add: gate_hist_def)
  from Cons.IH [OF this rest] show ?case
    unfolding ds by (auto simp: insert_commute split: if_splits)
qed simp

lemma gate_hist_empty: "gate_hist Map.empty {}"
  by (simp add: gate_hist_def slot_hist_def gate_slot_def turns_of_def)

lemma ss_base_least:
  "ss_inv st \<Longrightarrow> prefix_base (ss_forwarded_through st) = Some b \<longleftrightarrow> b \<notin> ss_seen st \<and> (\<forall>x < b. x \<in> ss_seen st)"
  using prefix_base_least by (simp add: ss_inv_def ss_tight_def ss_seen_def)

lemma prefix_advanced_iff:
  assumes "ss_inv st" and "slot_step_ok st s f st'" and "\<not> ss_prefix_collapsed st'"
  shows "fw_prefix_advanced f \<longleftrightarrow> s \<notin> ss_seen st \<and> (\<forall>x < s. x \<in> ss_seen st)"
proof -
  note step = slot_step_okD [OF assms(2)]
  have seen: "ss_seen st' = insert s (ss_seen st)"
    using step(6) assms(3) by blast
  have adv: "fw_prefix_advanced f \<longleftrightarrow> s \<notin> ss_seen st \<and> ss_forwarded_through st' \<noteq> ss_forwarded_through st"
    using assms(2,3) step(4) unfolding slot_step_ok_def by blast
  have "ss_forwarded_through st' \<noteq> ss_forwarded_through st \<longleftrightarrow> (\<forall>x < s. x \<in> ss_seen st)" if new: "s \<notin> ss_seen st"
  proof -
    have "\<not> in_prefix (ss_forwarded_through st) s"
      using new by (simp add: ss_seen_def taken_def)
    then obtain b where b: "prefix_base (ss_forwarded_through st) = Some b"
      using prefix_base_exists by blast
    note least = b [unfolded ss_base_least [OF assms(1)]]
    show ?thesis
    proof (cases "s = b")
      case True
      then have "prefix_base (ss_forwarded_through st') \<noteq> Some b"
        unfolding ss_base_least [OF step(1)] seen by simp
      then show ?thesis
        using b True least by auto
    next
      case False
      then have "prefix_base (ss_forwarded_through st') = Some b"
        unfolding ss_base_least [OF step(1)] seen using least by simp
      then have "ss_forwarded_through st' = ss_forwarded_through st"
        using b by (rule prefix_base_inj)
      moreover have "\<not> (\<forall>x < s. x \<in> ss_seen st)"
        using False new least by (metis linorder_neqE)
      ultimately show ?thesis
        by simp
    qed
  qed
  then show ?thesis
    unfolding adv by blast
qed

lemma count_below:
  assumes "ss_inv st" and "x < SlotSeen_forwarded_count st"
  shows "x \<in> ss_seen st"
proof (cases "ss_forwarded_through st")
  case None
  then show ?thesis
    using assms(2) by (simp add: SlotSeen_forwarded_count_def)
next
  case (Some t)
  then have "unat x < unat (saturating_add t 1)"
    using assms(2) by (simp add: SlotSeen_forwarded_count_def word_arith del: unat_saturating_add)
  then have "x \<le> t"
    by (auto simp: word_arith)
  then show ?thesis
    using Some by (simp add: ss_seen_def taken_def)
qed

lemma ss_highest:
  assumes "ss_inv st" and "ss_seen st \<noteq> {}" and "gate_slot R key slot = Some st"
  shows "\<exists>h. highest_forwarded_seq R key slot = Some h \<and> h \<in> ss_seen st \<and> (\<forall>x \<in> ss_seen st. x \<le> h)"
proof (cases "ss_ahead st = {}")
  case True
  then obtain t where "ss_forwarded_through st = Some t"
    using assms(2) by (cases "ss_forwarded_through st") (auto simp: ss_seen_def taken_def)
  then show ?thesis
    using True assms(3) by (simp add: highest_forwarded_seq_def ss_seen_def taken_def)
next
  case False
  have fin: "finite (ss_ahead st)" and above: "\<And>a. a \<in> ss_ahead st \<Longrightarrow> \<not> in_prefix (ss_forwarded_through st) a"
    using assms(1) by (simp_all add: ss_inv_def ss_tight_def prefix_inv_def)
  have "Max (ss_ahead st) \<in> ss_ahead st"
    using fin False by (rule Max_in)
  moreover have "x \<le> Max (ss_ahead st)" if "x \<in> ss_seen st" for x
    using that Max_ge [OF fin] in_prefix_below [OF above [OF Max_in [OF fin False]]]
    by (auto simp: ss_seen_def taken_def)
  ultimately show ?thesis
    using False assms(3) by (auto simp: highest_forwarded_seq_def ss_seen_def taken_def)
qed

section \<open>Properties\<close>

definition probe_session :: SessionKey where
  "probe_session = \<lparr>sk_tenant = ''t'', sk_session = 7\<rparr>"

definition probe_turns :: "(SessionKey \<times> SlotId \<times> u64) list" where
  "probe_turns = [(probe_session, 1, 0), (probe_session, 1, 2), (probe_session, 1, 0), (probe_session, 1, 1)]"

text \<open>C5: However turns are offered to the forward gate, from any ingress and any session, each is
  reported as new at most once, everything reported as new is recorded, and no slot ever holds more than
  the capped number of sparse entries.\<close>

theorem gate_forwards_once:
  assumes "offer_run gate_offer Map.empty ks = (ds, R)"
  shows "distinct ds \<and> set ds \<subseteq> set ks \<and> set ds \<subseteq> gate_seen R \<and>
    card (ss_ahead (gate_entry R key slot)) \<le> SPARSE_SEEN_CAP"
proof -
  have run: "distinct ds \<and> set ds \<subseteq> set ks \<and> set ds \<subseteq> gate_seen R \<and> gate_inv R"
    using gate.run_once [OF gate_empty(1) assms] by simp
  then have "ss_inv (gate_entry R key slot)"
    by (simp add: gate_inv_def)
  then show ?thesis
    using run by (simp add: ss_inv_def)
qed

theorem gate_forwards_once_witness:
  "distinct (fst (offer_run gate_offer Map.empty probe_turns)) \<and>
   fst (offer_run gate_offer Map.empty probe_turns) =
     [(probe_session, 1, 0), (probe_session, 1, 2), (probe_session, 1, 1)]"
proof
  show "distinct (fst (offer_run gate_offer Map.empty probe_turns))"
    using gate_forwards_once [OF prod.collapse [symmetric], of probe_turns] by blast
  show "fst (offer_run gate_offer Map.empty probe_turns) =
     [(probe_session, 1, 0), (probe_session, 1, 2), (probe_session, 1, 1)]"
    by code_simp
qed

text \<open>What the gate's cursors say of the turns actually forwarded, after any run.  A forwarded
  count \<open>n\<close> means turns \<open>0..n\<close> were all forwarded and turn \<open>n\<close> was not; the reading a drop seals is
  \<open>Count n\<close> only when the forwarded turns are exactly \<open>0..n\<close> and \<open>NeverForwarded\<close> only when there
  are none; the highest forwarded number is the maximum; and the receipts cover every forwarded turn.\<close>

theorem gate_cursors_exact:
  assumes "offer_run gate_offer Map.empty ks = (ds, R)"
  shows "(forwarded_count R key slot = Some n \<longrightarrow>
      {x. x < n} \<subseteq> turns_of (set ds) key slot \<and> n \<notin> turns_of (set ds) key slot) \<and>
    (forward_gate_reading R key slot = Count n \<longrightarrow> turns_of (set ds) key slot = {x. x < n}) \<and>
    (forward_gate_reading R key slot = NeverForwarded \<longleftrightarrow> turns_of (set ds) key slot = {}) \<and>
    highest_forwarded_seq R key slot =
      (if turns_of (set ds) key slot = {} then None else Some (Max (turns_of (set ds) key slot))) \<and>
    turns_of (set ds) key slot \<subseteq>
      {x. in_prefix (sr_forwarded_through (slot_receipts R key slot)) x} \<union> set (sr_ahead (slot_receipts R key slot))"
proof -
  let ?H = "turns_of (set ds) key slot"
  have hist: "gate_hist R (set ds)"
    using gate_hist_run [OF gate_hist_empty assms] by simp
  then have slot: "slot_hist (gate_slot R key slot) ?H" and inv: "ss_inv (gate_entry R key slot)"
    by (simp_all add: gate_hist_def gate_inv_def)
  show ?thesis
  proof (cases "gate_slot R key slot")
    case None
    then show ?thesis
      using slot by (simp add: slot_hist_def forwarded_count_def forward_gate_reading_def highest_forwarded_seq_def)
  next
    case (Some st)
    have H: "?H \<noteq> {}" "?H \<subseteq> ss_seen st" "\<not> ss_prefix_collapsed st \<Longrightarrow> ss_seen st = ?H"
      and reach: "\<And>x. x \<in> ss_seen st \<Longrightarrow> \<exists>g \<in> ?H. x \<le> g"
      using slot Some by (auto simp: slot_hist_def)
    have st: "ss_inv st" and fin: "finite (ss_ahead st)"
      using inv Some by (simp_all add: gate_entry_gate_slot ss_inv_def ss_tight_def prefix_inv_def)
    have base: "prefix_base (ss_forwarded_through st) = Some m" if "Option.bind (ss_forwarded_through st) (\<lambda>t. checked_add t 1) = Some m" for m
      using that by (auto simp: prefix_base_def split: option.splits)
    have count: "{x. x < n} \<subseteq> ?H \<and> n \<notin> ?H" if "forwarded_count R key slot = Some n"
    proof -
      have "\<not> ss_prefix_collapsed st" "prefix_base (ss_forwarded_through st) = Some n"
        using that Some base by (auto simp: forwarded_count_def split: if_splits)
      then show ?thesis
        using H(3) ss_base_least [OF st] by auto
    qed
    have reading: "?H = {x. x < n}" if "forward_gate_reading R key slot = Count n"
    proof -
      have r: "\<not> ss_prefix_collapsed st" "ss_ahead st = {}" "prefix_base (ss_forwarded_through st) = Some n"
        using that Some base by (auto simp: forward_gate_reading_def split: if_splits option.splits)
      have "?H = {x. in_prefix (ss_forwarded_through st) x}"
        using H(3) [OF r(1)] r(2) by (simp add: ss_seen_def taken_def)
      then show ?thesis
        by (simp add: prefix_base_Some(1) [OF r(3)])
    qed
    have never: "forward_gate_reading R key slot \<noteq> NeverForwarded"
      using Some by (simp add: forward_gate_reading_def split: option.split)
    obtain h where h: "highest_forwarded_seq R key slot = Some h" "h \<in> ss_seen st" "\<And>x. x \<in> ss_seen st \<Longrightarrow> x \<le> h"
      using ss_highest [OF st _ Some] H(1,2) by blast
    obtain g where g: "g \<in> ?H" "h \<le> g"
      using reach [OF h(2)] by blast
    then have "g = h"
      using h(3) [of g] H(2) by auto
    then have "Max ?H = h"
      using g h(3) H(2) by (intro Max_eqI finite) auto
    then have highest: "highest_forwarded_seq R key slot = (if ?H = {} then None else Some (Max ?H))"
      using h(1) H(1) by simp
    have "?H \<subseteq> {x. in_prefix (sr_forwarded_through (slot_receipts R key slot)) x} \<union> set (sr_ahead (slot_receipts R key slot))"
      using H(2) Some fin by (auto simp: slot_receipts_def ss_seen_def taken_def)
    then show ?thesis
      using count reading never highest H(1) by blast
  qed
qed

theorem gate_cursors_exact_witness:
  "forward_gate_reading (snd (offer_run gate_offer Map.empty probe_turns)) probe_session 1 = Count 3 \<and>
   turns_of (set (fst (offer_run gate_offer Map.empty probe_turns))) probe_session 1 = {x. x < 3}"
proof -
  have "forward_gate_reading (snd (offer_run gate_offer Map.empty probe_turns)) probe_session 1 = Count 3"
    by code_simp
  then show ?thesis
    using gate_cursors_exact [OF prod.collapse [symmetric], of probe_turns probe_session 1 3] by blast
qed

text \<open>The gate's progress measure cannot be inflated.  As long as a slot's prefix was never collapsed,
  offering a turn reports progress exactly when it is the lowest turn of the slot not yet forwarded, and
  the count then reported covers only turns that were forwarded; a collapsed prefix never reports
  progress again.\<close>

theorem prefix_progress_genuine:
  assumes "offer_run gate_offer Map.empty ks = (ds, R)" and "mark_seen R key slot s = (f, R')"
  shows "(if ss_prefix_collapsed (gate_entry R' key slot) then \<not> fw_prefix_advanced f
     else (fw_prefix_advanced f \<longleftrightarrow>
         s \<notin> turns_of (set ds) key slot \<and> {x. x < s} \<subseteq> turns_of (set ds) key slot) \<and>
       (fw_prefix_advanced f \<longrightarrow> {x. x < fw_forwarded f} \<subseteq> insert s (turns_of (set ds) key slot)))"
proof -
  have hist: "gate_hist R (set ds)"
    using gate_hist_run [OF gate_hist_empty assms(1)] by simp
  then have inv: "ss_inv (gate_entry R key slot)"
    and slot: "slot_hist (gate_slot R key slot) (turns_of (set ds) key slot)"
    by (simp_all add: gate_hist_def gate_inv_def)
  obtain st' where mark: "mark_forwarded_slot (gate_entry R key slot) s = (f, st')"
    and entry: "\<And>k l. gate_entry R' k l = (if k = key \<and> l = slot then st' else gate_entry R k l)"
    by (rule mark_seen_step [OF assms(2)]) (rule that)
  note ok = mark_forwarded_slot_spec [OF inv mark]
  show ?thesis
  proof (cases "ss_prefix_collapsed st'")
    case True
    then show ?thesis
      using ok by (simp add: entry slot_step_ok_def)
  next
    case False
    then have "\<not> ss_prefix_collapsed (gate_entry R key slot)" and seen: "ss_seen st' = insert s (ss_seen (gate_entry R key slot))"
      using slot_step_okD(6) [OF ok] by blast+
    then have H: "ss_seen (gate_entry R key slot) = turns_of (set ds) key slot"
      using slot by (auto simp: slot_hist_def gate_entry_gate_slot split: option.splits)
    have "fw_forwarded f = SlotSeen_forwarded_count st'" if "fw_prefix_advanced f"
      using ok that unfolding slot_step_ok_def by blast
    then have "{x. x < fw_forwarded f} \<subseteq> insert s (turns_of (set ds) key slot)" if "fw_prefix_advanced f"
      using that count_below [OF slot_step_okD(1) [OF ok]] seen H by auto
    then show ?thesis
      using False prefix_advanced_iff [OF inv ok False] H by (auto simp: entry)
  qed
qed

theorem prefix_progress_genuine_witness:
  "fw_prefix_advanced (fst (mark_seen (snd (offer_run gate_offer Map.empty probe_turns)) probe_session 1 3)) \<and>
   {x. x < 3} \<subseteq> turns_of (set (fst (offer_run gate_offer Map.empty probe_turns))) probe_session 1"
proof -
  let ?run = "offer_run gate_offer Map.empty probe_turns"
  have adv: "fw_prefix_advanced (fst (mark_seen (snd ?run) probe_session 1 3))"
    and col: "\<not> ss_prefix_collapsed (gate_entry (snd (mark_seen (snd ?run) probe_session 1 3)) probe_session 1)"
    by code_simp+
  show ?thesis
    using prefix_progress_genuine [OF prod.collapse [symmetric] prod.collapse [symmetric],
        of probe_turns probe_session 1 3] adv col by simp
qed

end
