(* ===== verification/Reorder.thy ===== *)
theory Reorder
  imports Wire
begin

text \<open>
  The game client's per-slot ordered-release buffer, \<open>client/src/driver/reorder.rs\<close>.  The bounded channel
  to the game is a parameter: \<open>try_send\<close> takes a channel state and a payload and reports whether the
  payload was taken, the channel was full or its receiver gone; \<open>contents\<close> is the sequence of payloads
  it has taken.  What the code relies on is \<open>channel_ok\<close>: a taken payload is appended, a refused one is
  not.  \<open>bounded_channel\<close> is a concrete channel of this kind.  The map iteration order of
  \<open>release_into\<close> is its argument \<open>order\<close>; the overflow of \<open>*slot_next += 1\<close> is \<open>None\<close>.
\<close>

datatype Release = Delivered | GameClosed | GameStalled

datatype TrySend = SendOk | SendFull | SendClosed

record SlotReorder =
  so_next_seq :: "SlotId \<rightharpoonup> u64"
  so_pending :: "SlotId \<rightharpoonup> (u64 \<rightharpoonup> Payload)"

definition SlotReorder_default :: SlotReorder where
  "SlotReorder_default = \<lparr>so_next_seq = Map.empty, so_pending = Map.empty\<rparr>"

definition next_needed :: "SlotReorder \<Rightarrow> SlotId \<Rightarrow> u64" where
  "next_needed so slot = (case so_next_seq so slot of Some n \<Rightarrow> n | None \<Rightarrow> 0)"

definition slot_pending :: "SlotReorder \<Rightarrow> SlotId \<Rightarrow> (u64 \<rightharpoonup> Payload)" where
  "slot_pending so slot = (case so_pending so slot of Some m \<Rightarrow> m | None \<Rightarrow> Map.empty)"

definition observe :: "SlotReorder \<Rightarrow> SlotId \<Rightarrow> Payload \<Rightarrow> SlotReorder" where
  "observe so slot payload =
     (let slot_next = next_needed so slot;
          so' = so\<lparr>so_next_seq := (so_next_seq so)(slot \<mapsto> slot_next)\<rparr>
      in if slot_next \<le> p_seq payload
         then so'\<lparr>so_pending := (so_pending so')(slot \<mapsto> (slot_pending so' slot)(p_seq payload \<mapsto> payload))\<rparr>
         else so')"

function release_run ::
    "('c \<Rightarrow> Payload \<Rightarrow> TrySend \<times> 'c) \<Rightarrow> 'c \<Rightarrow> u64 \<Rightarrow> (u64 \<rightharpoonup> Payload) \<Rightarrow>
       (Release option \<times> 'c \<times> u64 \<times> (u64 \<rightharpoonup> Payload)) option" where
  "release_run try_send c slot_next pending =
     (case pending slot_next of
        None \<Rightarrow> Some (None, c, slot_next, pending)
      | Some payload \<Rightarrow>
          (case try_send c payload of
             (SendOk, c') \<Rightarrow>
               (case checked_add slot_next 1 of
                  None \<Rightarrow> None
                | Some n \<Rightarrow> release_run try_send c' n (pending(slot_next := None)))
           | (SendFull, c') \<Rightarrow>
               Some (Some GameStalled, c', slot_next, (pending(slot_next := None))(slot_next \<mapsto> payload))
           | (SendClosed, c') \<Rightarrow> Some (Some GameClosed, c', slot_next, pending(slot_next := None))))"
  by pat_completeness auto
termination
  by (relation "measure (\<lambda>(_, _, n, _). 2 ^ LENGTH(64) - unat n)")
    (simp_all only: in_measure case_prod_conv checked_add_one_closer wf_measure)

declare release_run.simps [simp del]

fun release_into ::
    "('c \<Rightarrow> Payload \<Rightarrow> TrySend \<times> 'c) \<Rightarrow> SlotId list \<Rightarrow> SlotReorder \<Rightarrow> 'c \<Rightarrow>
       (Release \<times> SlotReorder \<times> 'c) option" where
  "release_into try_send [] so c = Some (Delivered, so, c)"
| "release_into try_send (slot # order) so c =
     (case so_next_seq so slot of
        None \<Rightarrow> release_into try_send order so c
      | Some slot_next \<Rightarrow>
          (case so_pending so slot of
             None \<Rightarrow> release_into try_send order so c
           | Some pending \<Rightarrow>
               (case release_run try_send c slot_next pending of
                  None \<Rightarrow> None
                | Some (stop, c', n, pending') \<Rightarrow>
                    let so' = so\<lparr>so_next_seq := (so_next_seq so)(slot \<mapsto> n),
                                 so_pending := (so_pending so)(slot \<mapsto> pending')\<rparr>
                    in (case stop of
                          Some r \<Rightarrow> Some (r, so', c')
                        | None \<Rightarrow> release_into try_send order so' c'))))"

definition cursors :: "SlotId list \<Rightarrow> SlotReorder \<Rightarrow> (SlotId \<times> u64) list" where
  "cursors order so = List.map_filter (\<lambda>slot. map_option (Pair slot) (so_next_seq so slot)) order"

section \<open>The channel\<close>

definition channel_ok :: "('c \<Rightarrow> Payload \<Rightarrow> TrySend \<times> 'c) \<Rightarrow> ('c \<Rightarrow> Payload list) \<Rightarrow> bool" where
  "channel_ok try_send contents \<longleftrightarrow>
     (\<forall>c p. contents (snd (try_send c p)) =
        (if fst (try_send c p) = SendOk then contents c @ [p] else contents c))"

record bounded_channel =
  bc_taken :: "Payload list"
  bc_room :: nat
  bc_closed :: bool

definition bounded_try_send :: "bounded_channel \<Rightarrow> Payload \<Rightarrow> TrySend \<times> bounded_channel" where
  "bounded_try_send c p =
     (if bc_closed c then (SendClosed, c)
      else if bc_room c = 0 then (SendFull, c)
      else (SendOk, c\<lparr>bc_taken := bc_taken c @ [p], bc_room := bc_room c - 1\<rparr>))"

lemma bounded_channel_ok: "channel_ok bounded_try_send bc_taken"
  by (simp add: channel_ok_def bounded_try_send_def)

lemma channel_okD:
  assumes "channel_ok try_send contents" and "try_send c p = (r, c')"
  shows "contents c' = (if r = SendOk then contents c @ [p] else contents c)"
  using assms by (metis channel_ok_def fst_conv snd_conv)

section \<open>One slot's run\<close>

text \<open>The buffered turns of one slot, above its cursor and under their own numbers.\<close>

definition pending_ok :: "SlotId \<Rightarrow> u64 \<Rightarrow> (u64 \<rightharpoonup> Payload) \<Rightarrow> bool" where
  "pending_ok slot n pend \<longleftrightarrow>
     (\<forall>s p. pend s = Some p \<longrightarrow> n \<le> s \<and> payload_key p = Some (slot, s))"

definition seqs_between :: "u64 \<Rightarrow> u64 \<Rightarrow> u64 list" where
  "seqs_between a b = map word_of_nat [unat a..<unat b]"

lemma seqs_between_refl [simp]: "seqs_between a a = []"
  by (simp add: seqs_between_def)

lemma seqs_between_step:
  assumes "checked_add a 1 = Some b" and "b \<le> c"
  shows "seqs_between a c = a # seqs_between b c"
proof -
  have "unat b = Suc (unat a)" "unat b \<le> unat c"
    using assms by (simp_all add: checked_add_Some word_arith)
  then show ?thesis
    by (simp add: seqs_between_def upt_conv_Cons)
qed

lemma seqs_between_append:
  "a \<le> b \<Longrightarrow> b \<le> c \<Longrightarrow> seqs_between a b @ seqs_between b c = seqs_between a c"
  using upt_add_eq_append [of "unat a" "unat b" "unat c - unat b"]
  by (simp add: seqs_between_def word_le_nat_alt)

definition run_ok ::
    "SlotId \<Rightarrow> ('c \<Rightarrow> Payload list) \<Rightarrow> 'c \<Rightarrow> u64 \<Rightarrow> (u64 \<rightharpoonup> Payload) \<Rightarrow>
       Release option \<Rightarrow> 'c \<Rightarrow> u64 \<Rightarrow> (u64 \<rightharpoonup> Payload) \<Rightarrow> bool" where
  "run_ok slot contents c n pend stop c' n' pend' \<longleftrightarrow>
     n \<le> n' \<and> pending_ok slot n' pend' \<and>
     (\<exists>ps. contents c' = contents c @ ps \<and> map payload_key ps = map (\<lambda>s. Some (slot, s)) (seqs_between n n') \<and>
        (\<forall>p \<in> set ps. pend (p_seq p) = Some p)) \<and>
     (\<forall>s. n \<le> s \<and> s < n' \<longrightarrow> pend s \<noteq> None) \<and>
     (\<forall>s. pend' s = None \<or> pend' s = pend s) \<and>
     (stop \<noteq> Some GameClosed \<longrightarrow> (\<forall>s. n' \<le> s \<longrightarrow> pend' s = pend s)) \<and>
     (stop = None \<longrightarrow> pend' n' = None) \<and> stop \<noteq> Some Delivered"

lemma release_run_ok:
  "channel_ok try_send contents \<Longrightarrow> pending_ok slot n pend \<Longrightarrow>
    release_run try_send c n pend = Some (stop, c', n', pend') \<Longrightarrow>
    run_ok slot contents c n pend stop c' n' pend'"
proof (induction try_send c n pend rule: release_run.induct)
  case (1 try_send c n pend)
  show ?case
  proof (cases "pend n")
    case None
    then show ?thesis
      using "1.prems" by (auto simp: release_run.simps [of _ c n] run_ok_def)
  next
    case (Some p)
    then have p: "payload_key p = Some (slot, n)" "p_seq p = n"
      using "1.prems"(2) by (auto simp: pending_ok_def payload_key_def)
    obtain r c1 where send: "try_send c p = (r, c1)"
      by force
    note taken = channel_okD [OF "1.prems"(1) send]
    consider (full) "r = SendFull" | (closed) "r = SendClosed"
      | (ok) m where "r = SendOk" "checked_add n 1 = Some m"
          "release_run try_send c1 m (pend(n := None)) = Some (stop, c', n', pend')"
      using "1.prems"(3) Some send
      by (cases r) (auto simp: release_run.simps [of _ c n] split: option.splits)
    then show ?thesis
    proof cases
      case full
      then show ?thesis
        using "1.prems" Some send taken
        by (auto simp: release_run.simps [of _ c n] run_ok_def pending_ok_def split: if_splits)
    next
      case closed
      then show ?thesis
        using "1.prems" Some send taken
        by (auto simp: release_run.simps [of _ c n] run_ok_def pending_ok_def split: if_splits)
    next
      case (ok m)
      have m: "n < m" "\<And>s. n \<le> s \<Longrightarrow> s \<noteq> n \<Longrightarrow> m \<le> s" "\<And>s. s < m \<Longrightarrow> s \<le> n"
        using checked_add_one_less [OF ok(2)] by (auto simp: not_le le_less)
      have "pending_ok slot m (pend(n := None))"
        using "1.prems"(2) m(2) by (auto simp: pending_ok_def)
      from "1.IH" [OF Some send [symmetric] _ ok(2) "1.prems"(1) this ok(3)] ok(1)
      have ih: "run_ok slot contents c1 m (pend(n := None)) stop c' n' pend'"
        by (simp add: fun_upd_def)
      then obtain ps where ps: "contents c' = contents c1 @ ps"
          "map payload_key ps = map (\<lambda>s. Some (slot, s)) (seqs_between m n')"
          "\<forall>q \<in> set ps. (pend(n := None)) (p_seq q) = Some q" and le: "m \<le> n'"
        unfolding run_ok_def by blast
      have "contents c' = contents c @ p # ps"
        using ps(1) taken ok(1) by simp
      moreover have "map payload_key (p # ps) = map (\<lambda>s. Some (slot, s)) (seqs_between n n')"
        using ps(2) p(1) seqs_between_step [OF ok(2) le] by simp
      moreover have "\<forall>q \<in> set (p # ps). pend (p_seq q) = Some q"
        using ps(3) p(2) Some by (auto split: if_splits)
      moreover have "pend s \<noteq> None" if "n \<le> s" "s < n'" for s
        using that ih Some m(2) [of s] unfolding run_ok_def by (cases "s = n") (auto split: if_splits)
      moreover have "pend' s = pend s" if "stop \<noteq> Some GameClosed" "n' \<le> s" for s
        using that ih m(1) le unfolding run_ok_def by (auto split: if_splits)
      moreover have "pend' s = None \<or> pend' s = pend s" for s
        using ih unfolding run_ok_def by (metis fun_upd_apply)
      ultimately show ?thesis
        using ih m(1) le unfolding run_ok_def by (auto intro!: exI [of _ "p # ps"])
    qed
  qed
qed

text \<open>The cursor overflows only if a turn with the last sequence number is buffered.\<close>

lemma release_run_total:
  "pend (- 1) = None \<Longrightarrow> \<exists>r. release_run try_send c n pend = Some r"
proof (induction try_send c n pend rule: release_run.induct)
  case (1 try_send c n pend)
  then show ?case
    by (subst release_run.simps)
      (auto simp: checked_add_one fun_upd_def split: option.splits TrySend.splits prod.splits if_splits)
qed

section \<open>The whole buffer\<close>

definition delivered_seqs :: "SlotId \<Rightarrow> Payload list \<Rightarrow> u64 list" where
  "delivered_seqs slot ps = map snd (filter (\<lambda>k. fst k = slot) (List.map_filter payload_key ps))"

lemma delivered_seqs_simps [simp]:
  "delivered_seqs slot [] = []"
  "delivered_seqs slot (ps @ qs) = delivered_seqs slot ps @ delivered_seqs slot qs"
  by (simp_all add: delivered_seqs_def List.map_filter_def)

lemma delivered_seqs_run:
  "map payload_key ps = map (\<lambda>s. Some (slot, s)) ss \<Longrightarrow>
    delivered_seqs slot' ps = (if slot' = slot then ss else [])"
proof (induction ps arbitrary: ss)
  case (Cons p ps)
  then show ?case
    by (cases ss) (auto simp: delivered_seqs_def map_filter_simps)
qed (simp add: delivered_seqs_def map_filter_simps)

text \<open>The buffer against the set of turns observed so far.\<close>

definition slot_inv :: "Payload list \<Rightarrow> (SlotId \<times> u64) set \<Rightarrow> SlotReorder \<Rightarrow> SlotId \<Rightarrow> bool" where
  "slot_inv cs obs so slot \<longleftrightarrow>
     pending_ok slot (next_needed so slot) (slot_pending so slot) \<and>
     (so_next_seq so slot = None \<longrightarrow> so_pending so slot = None) \<and>
     delivered_seqs slot cs = seqs_between 0 (next_needed so slot) \<and>
     (\<forall>s. s < next_needed so slot \<longrightarrow> (slot, s) \<in> obs) \<and>
     (\<forall>s. slot_pending so slot s \<noteq> None \<longrightarrow> (slot, s) \<in> obs)"

definition slot_complete :: "(SlotId \<times> u64) set \<Rightarrow> SlotReorder \<Rightarrow> SlotId \<Rightarrow> bool" where
  "slot_complete obs so slot \<longleftrightarrow>
     (\<forall>s. (slot, s) \<in> obs \<longrightarrow> s < next_needed so slot \<or> slot_pending so slot s \<noteq> None)"

definition set_run :: "SlotReorder \<Rightarrow> SlotId \<Rightarrow> u64 \<Rightarrow> (u64 \<rightharpoonup> Payload) \<Rightarrow> SlotReorder" where
  "set_run so slot n pend =
     so\<lparr>so_next_seq := (so_next_seq so)(slot \<mapsto> n), so_pending := (so_pending so)(slot \<mapsto> pend)\<rparr>"

lemma set_run_simps [simp]:
  "next_needed (set_run so slot n pend) slot' = (if slot' = slot then n else next_needed so slot')"
  "slot_pending (set_run so slot n pend) slot' = (if slot' = slot then pend else slot_pending so slot')"
  "so_next_seq (set_run so slot n pend) slot' = (if slot' = slot then Some n else so_next_seq so slot')"
  "so_pending (set_run so slot n pend) slot' = (if slot' = slot then Some pend else so_pending so slot')"
  by (simp_all add: set_run_def next_needed_def slot_pending_def)

lemma set_run_inv:
  assumes run: "run_ok slot contents c (next_needed so slot) (slot_pending so slot) stop c' n' pend'"
    and inv: "\<And>slot. slot_inv (contents c) obs so slot"
  shows "slot_inv (contents c') obs (set_run so slot n' pend') slot'"
proof -
  obtain ps where ps: "contents c' = contents c @ ps"
      "map payload_key ps = map (\<lambda>s. Some (slot, s)) (seqs_between (next_needed so slot) n')"
    and n': "next_needed so slot \<le> n'" and ok: "pending_ok slot n' pend'"
    using run unfolding run_ok_def by blast
  have del: "delivered_seqs slot' (contents c') = delivered_seqs slot' (contents c) @
      (if slot' = slot then seqs_between (next_needed so slot) n' else [])"
    using ps(1) delivered_seqs_run [OF ps(2)] by simp
  show ?thesis
  proof (cases "slot' = slot")
    case False
    then show ?thesis
      using inv [of slot'] del by (simp add: slot_inv_def)
  next
    case True
    have taken: "slot_pending so slot s \<noteq> None" if "next_needed so slot \<le> s" "s < n'" for s
      using run that unfolding run_ok_def by blast
    have obs: "(slot, s) \<in> obs" if "s < n'" for s
      using inv [of slot] taken [of s] that by (cases "s < next_needed so slot") (auto simp: slot_inv_def not_less)
    have kept: "(slot, s) \<in> obs" if "pend' s \<noteq> None" for s
      using run that inv [of slot] unfolding run_ok_def slot_inv_def by metis
    show ?thesis
      using True ok obs kept del inv [of slot] seqs_between_append [of 0 "next_needed so slot" n'] n'
      by (simp add: slot_inv_def)
  qed
qed

lemma set_run_complete:
  assumes run: "run_ok slot contents c (next_needed so slot) (slot_pending so slot) stop c' n' pend'"
    and "stop \<noteq> Some GameClosed" and "\<And>slot. slot_complete obs so slot"
  shows "slot_complete obs (set_run so slot n' pend') slot'"
proof (cases "slot' = slot")
  case True
  have "next_needed so slot \<le> n'" and kept: "\<And>s. n' \<le> s \<Longrightarrow> pend' s = slot_pending so slot s"
    using run assms(2) unfolding run_ok_def by blast+
  then have "s < n' \<or> pend' s \<noteq> None" if "(slot, s) \<in> obs" for s
    using assms(3) [of slot] that kept [of s]
    by (cases "n' \<le> s") (auto simp: slot_complete_def not_le)
  then show ?thesis
    using True by (simp add: slot_complete_def)
qed (use assms(3) [of slot'] in \<open>simp add: slot_complete_def\<close>)

lemma release_into_inv:
  assumes "channel_ok try_send contents" and "release_into try_send order so c = Some (r, so', c')"
    and "\<And>slot. slot_inv (contents c) obs so slot"
  shows "slot_inv (contents c') obs so' slot \<and>
    ((\<forall>slot. slot_complete obs so slot) \<and> r \<noteq> GameClosed \<longrightarrow> slot_complete obs so' slot) \<and>
    (r = Delivered \<and> (slot \<in> set order \<or> slot_pending so slot (next_needed so slot) = None) \<longrightarrow>
       slot_pending so' slot (next_needed so' slot) = None)"
  using assms(2,3)
proof (induction order arbitrary: so c)
  case (Cons x order)
  show ?case
  proof (cases "so_next_seq so x = None \<or> so_pending so x = None")
    case True
    then have "slot_pending so x = Map.empty"
      using Cons.prems(2) [of x] by (auto simp: slot_inv_def slot_pending_def)
    moreover have "release_into try_send order so c = Some (r, so', c')"
      using Cons.prems(1) True by (auto split: option.splits)
    ultimately show ?thesis
      using Cons.IH [OF _ Cons.prems(2)] by auto
  next
    case False
    then have cur: "so_next_seq so x = Some (next_needed so x)" "so_pending so x = Some (slot_pending so x)"
      by (auto simp: next_needed_def slot_pending_def)
    obtain stop c1 n pend where run: "release_run try_send c (next_needed so x) (slot_pending so x) = Some (stop, c1, n, pend)"
      and rest: "(case stop of Some r \<Rightarrow> Some (r, set_run so x n pend, c1)
        | None \<Rightarrow> release_into try_send order (set_run so x n pend) c1) = Some (r, so', c')"
      using Cons.prems(1) cur by (auto simp: Let_def set_run_def split: option.splits prod.splits)
    have "pending_ok x (next_needed so x) (slot_pending so x)"
      using Cons.prems(2) [of x] by (simp add: slot_inv_def)
    note ok = release_run_ok [OF assms(1) this run]
    note inv = set_run_inv [OF ok Cons.prems(2)]
    show ?thesis
    proof (cases stop)
      case None
      then have "release_into try_send order (set_run so x n pend) c1 = Some (r, so', c')"
        using rest by simp
      moreover have "pend n = None"
        using ok None by (simp add: run_ok_def)
      ultimately show ?thesis
        using Cons.IH [OF _ inv] set_run_complete [OF ok] None by (auto split: if_splits)
    next
      case (Some q)
      then have "so' = set_run so x n pend" "c' = c1" "r = q" "q \<noteq> Delivered"
        using rest ok by (auto simp: run_ok_def)
      then show ?thesis
        using inv set_run_complete [OF ok] Some by auto
    qed
  qed
qed simp

lemma observe_inv:
  assumes "slot_inv cs obs so slot'" and "payload_key p = Some (slot, s)"
  shows "slot_inv cs (insert (slot, s) obs) (observe so slot p) slot'"
    and "slot_complete obs so slot' \<Longrightarrow> slot_complete (insert (slot, s) obs) (observe so slot p) slot'"
proof -
  have s: "p_seq p = s"
    using assms(2) by (auto simp: payload_key_def)
  have nn: "next_needed (observe so slot p) x = next_needed so x" for x
    by (simp add: observe_def Let_def next_needed_def)
  have sp: "slot_pending (observe so slot p) x =
      (if x = slot \<and> next_needed so slot \<le> s then (slot_pending so slot)(s \<mapsto> p) else slot_pending so x)" for x
    by (simp add: observe_def Let_def s slot_pending_def)
  have ns: "so_next_seq (observe so slot p) x = None \<Longrightarrow> so_next_seq so x = None \<and> x \<noteq> slot"
    and ps: "x \<noteq> slot \<Longrightarrow> so_pending (observe so slot p) x = so_pending so x" for x
    by (auto simp: observe_def Let_def split: if_splits)
  show "slot_inv cs (insert (slot, s) obs) (observe so slot p) slot'"
    using assms ns ps by (auto simp: slot_inv_def nn sp pending_ok_def split: if_splits)
  show "slot_complete (insert (slot, s) obs) (observe so slot p) slot'" if "slot_complete obs so slot'"
    using that by (auto simp: slot_complete_def nn sp not_le)
qed

section \<open>Runs of the driver\<close>

text \<open>The driver observes turns and releases; it stops for good once the game has closed.\<close>

datatype reorder_op = Observe SlotId Payload | ReleaseInto "SlotId list"

fun reorder_run ::
    "('c \<Rightarrow> Payload \<Rightarrow> TrySend \<times> 'c) \<Rightarrow> reorder_op list \<Rightarrow> SlotReorder \<Rightarrow> 'c \<Rightarrow>
       (Release \<times> SlotReorder \<times> 'c) option" where
  "reorder_run try_send [] so c = Some (GameStalled, so, c)"
| "reorder_run try_send (Observe slot p # ops) so c = reorder_run try_send ops (observe so slot p) c"
| "reorder_run try_send (ReleaseInto order # ops) so c =
     (case release_into try_send order so c of
        None \<Rightarrow> None
      | Some (r, so', c') \<Rightarrow>
          if r = GameClosed \<or> ops = [] then Some (r, so', c') else reorder_run try_send ops so' c')"

fun observed_keys :: "reorder_op list \<Rightarrow> (SlotId \<times> u64) set" where
  "observed_keys [] = {}"
| "observed_keys (Observe slot p # ops) = insert (slot, p_seq p) (observed_keys ops)"
| "observed_keys (ReleaseInto order # ops) = observed_keys ops"

fun ops_slotted :: "reorder_op list \<Rightarrow> bool" where
  "ops_slotted [] \<longleftrightarrow> True"
| "ops_slotted (Observe slot p # ops) \<longleftrightarrow> payload_key p = Some (slot, p_seq p) \<and> ops_slotted ops"
| "ops_slotted (ReleaseInto order # ops) \<longleftrightarrow> ops_slotted ops"

lemma slot_inv_mono: "slot_inv cs obs so slot \<Longrightarrow> obs \<subseteq> obs' \<Longrightarrow> slot_inv cs obs' so slot"
  by (auto simp: slot_inv_def)

lemma reorder_run_inv:
  assumes "channel_ok try_send contents"
  shows "ops_slotted ops \<Longrightarrow> (\<And>slot. slot_inv (contents c) obs so slot) \<Longrightarrow> (\<And>slot. slot_complete obs so slot) \<Longrightarrow>
    reorder_run try_send ops so c = Some (r, so', c') \<Longrightarrow>
    slot_inv (contents c') (obs \<union> observed_keys ops) so' slot \<and>
    (r \<noteq> GameClosed \<longrightarrow> slot_complete (obs \<union> observed_keys ops) so' slot)"
proof (induction ops arbitrary: so c obs)
  case (Cons op ops)
  show ?case
  proof (cases op)
    case (Observe x p)
    then have key: "payload_key p = Some (x, p_seq p)"
      using Cons.prems(1) by simp
    show ?thesis
      using Cons.IH [of c "insert (x, p_seq p) obs" "observe so x p"] Cons.prems(1,4) Observe
        observe_inv(1) [OF Cons.prems(2) key] observe_inv(2) [OF Cons.prems(2) key Cons.prems(3)]
      by simp
  next
    case (ReleaseInto order)
    then obtain q so1 c1 where rel: "release_into try_send order so c = Some (q, so1, c1)"
      and rest: "(if q = GameClosed \<or> ops = [] then Some (q, so1, c1) else reorder_run try_send ops so1 c1) = Some (r, so', c')"
      using Cons.prems(4) by (auto split: option.splits)
    note step = release_into_inv [OF assms rel Cons.prems(2)]
    show ?thesis
    proof (cases "q = GameClosed \<or> ops = []")
      case True
      then show ?thesis
        using rest step [of slot] Cons.prems(3) ReleaseInto slot_inv_mono [of "contents c'" obs so' slot] by auto
    next
      case False
      then have "\<And>slot. slot_complete obs so1 slot"
        using step Cons.prems(3) by blast
      then show ?thesis
        using False rest step Cons.IH [of c1 obs so1] Cons.prems(1) ReleaseInto by simp
    qed
  qed
qed simp

lemma default_inv: "slot_inv [] {} SlotReorder_default slot" "slot_complete {} SlotReorder_default slot"
  by (simp_all add: slot_inv_def slot_complete_def SlotReorder_default_def next_needed_def slot_pending_def
      pending_ok_def)

lemma release_into_total:
  assumes "channel_ok try_send contents" and "\<And>slot. (slot, - 1) \<notin> obs"
  shows "(\<And>slot. slot_inv (contents c) obs so slot) \<Longrightarrow> \<exists>r. release_into try_send order so c = Some r"
proof (induction order arbitrary: so c)
  case (Cons x order)
  show ?case
  proof (cases "so_next_seq so x = None \<or> so_pending so x = None")
    case True
    then show ?thesis
      using Cons.IH [OF Cons.prems] by (auto split: option.split)
  next
    case False
    then have cur: "so_next_seq so x = Some (next_needed so x)" "so_pending so x = Some (slot_pending so x)"
      by (auto simp: next_needed_def slot_pending_def)
    have ok: "pending_ok x (next_needed so x) (slot_pending so x)" and "slot_pending so x (- 1) = None"
      using Cons.prems [of x] assms(2) [of x] by (auto simp: slot_inv_def)
    then obtain stop c1 n pend where
        run: "release_run try_send c (next_needed so x) (slot_pending so x) = Some (stop, c1, n, pend)"
      using release_run_total [of "slot_pending so x" try_send c "next_needed so x"] by auto
    show ?thesis
      using cur run Cons.IH [OF set_run_inv [OF release_run_ok [OF assms(1) ok run] Cons.prems]]
      by (auto simp: Let_def set_run_def split: option.splits)
  qed
qed simp

section \<open>Properties\<close>

text \<open>C4: However turns arrive and whenever the game stalls, what the game is handed from each slot is
  always the gap-free ascending run of turn numbers from zero up to the slot's cursor, each exactly once,
  and only turns that were received.\<close>

theorem reorder_in_order:
  assumes "channel_ok try_send contents" and "contents c = []" and "ops_slotted ops"
    and "reorder_run try_send ops SlotReorder_default c = Some (r, so, c')"
  shows "delivered_seqs slot (contents c') = seqs_between 0 (next_needed so slot) \<and>
    Pair slot ` set (seqs_between 0 (next_needed so slot)) \<subseteq> observed_keys ops"
proof -
  have inv: "slot_inv (contents c') (observed_keys ops) so slot"
    using reorder_run_inv [OF assms(1,3) _ default_inv(2) assms(4)] default_inv(1) assms(2) by simp
  moreover have "s < n" if "s \<in> set (seqs_between 0 n)" for s n :: u64
    using that unat_less [of n] by (auto simp: seqs_between_def word_arith unsigned_of_nat take_bit_nat_eq_self)
  ultimately show ?thesis
    by (auto simp: slot_inv_def)
qed

definition probe_turn :: "u64 \<Rightarrow> Payload" where
  "probe_turn s =
     \<lparr>p_seq = s, p_slot = 1, p_commands = [], p_game_frame_count = None, p_sync_generation = None,
      p_buffer_directive = None, p_state_hash = None\<rparr>"

definition probe_ops :: "reorder_op list" where
  "probe_ops = [Observe 1 (probe_turn 1), ReleaseInto [1], Observe 1 (probe_turn 0), Observe 1 (probe_turn 1),
     ReleaseInto [1]]"

definition probe_channel :: bounded_channel where
  "probe_channel = \<lparr>bc_taken = [], bc_room = 8, bc_closed = False\<rparr>"

lemma probe_run:
  "\<exists>r so c'. reorder_run bounded_try_send probe_ops SlotReorder_default probe_channel = Some (r, so, c')"
proof -
  have "reorder_run bounded_try_send probe_ops SlotReorder_default probe_channel \<noteq> None"
    by code_simp
  then show ?thesis
    by (auto simp: not_None_eq)
qed

theorem reorder_in_order_witness:
  "\<exists>r so c'. reorder_run bounded_try_send probe_ops SlotReorder_default probe_channel = Some (r, so, c') \<and>
     delivered_seqs 1 (bc_taken c') = seqs_between 0 (next_needed so 1)"
proof -
  obtain r so c' where run: "reorder_run bounded_try_send probe_ops SlotReorder_default probe_channel = Some (r, so, c')"
    using probe_run by (elim exE)
  have "bc_taken probe_channel = []" "ops_slotted probe_ops"
    by code_simp+
  from reorder_in_order [OF bounded_channel_ok this run, of 1] run show ?thesis
    by blast
qed

text \<open>A release that is not cut short by the game hands over everything it can: afterwards each
  visited slot's cursor is the lowest turn number not yet received, so a resume asks for exactly the first
  missing turn.  Short of a turn with the last 64-bit number, a release never fails.\<close>

theorem release_exact:
  assumes "channel_ok try_send contents" and "contents c = []" and "ops_slotted ops"
    and "reorder_run try_send ops SlotReorder_default c = Some (r, so, c')" and "r \<noteq> GameClosed"
  shows "((\<forall>slot. (slot, - 1) \<notin> observed_keys ops) \<longrightarrow> release_into try_send order so c' \<noteq> None) \<and>
    (release_into try_send order so c' = Some (Delivered, so', c'') \<and> slot \<in> set order \<longrightarrow>
       (slot, next_needed so' slot) \<notin> observed_keys ops \<and>
       (\<forall>s < next_needed so' slot. (slot, s) \<in> observed_keys ops))"
proof -
  have run: "slot_inv (contents c') (observed_keys ops) so slot \<and> slot_complete (observed_keys ops) so slot" for slot
    using reorder_run_inv [OF assms(1,3) _ default_inv(2) assms(4)] default_inv(1) assms(2,5) by simp
  then have inv: "slot_inv (contents c') (observed_keys ops) so slot" for slot
    by (rule conjunct1)
  have "(slot, next_needed so' slot) \<notin> observed_keys ops \<and> (\<forall>s < next_needed so' slot. (slot, s) \<in> observed_keys ops)"
    if "release_into try_send order so c' = Some (Delivered, so', c'')" "slot \<in> set order"
    using release_into_inv [OF assms(1) that(1) inv, of slot] run that(2)
    by (auto simp: slot_inv_def slot_complete_def)
  moreover have "release_into try_send order so c' \<noteq> None" if "\<forall>slot. (slot, - 1) \<notin> observed_keys ops"
    using release_into_total [OF assms(1) _ inv] that by auto
  ultimately show ?thesis
    by blast
qed

theorem release_exact_witness:
  "\<exists>r so c'. reorder_run bounded_try_send probe_ops SlotReorder_default probe_channel = Some (r, so, c') \<and>
     release_into bounded_try_send [1] so c' \<noteq> None"
proof -
  obtain r so c' where run: "reorder_run bounded_try_send probe_ops SlotReorder_default probe_channel = Some (r, so, c')"
    using probe_run by (elim exE)
  have "map_option fst (reorder_run bounded_try_send probe_ops SlotReorder_default probe_channel) = Some Delivered"
    by code_simp
  then have "r \<noteq> GameClosed"
    using run by simp
  moreover have "bc_taken probe_channel = []" "ops_slotted probe_ops"
    by code_simp+
  moreover have "observed_keys probe_ops = {(1, 1), (1, 0)}"
    by (simp add: probe_ops_def probe_turn_def insert_commute)
  ultimately show ?thesis
    using release_exact [OF bounded_channel_ok _ _ run, of "[1]"] run by auto
qed

end
