(* ===== verification/Commands.thy ===== *)
theory Commands
  imports Wire
begin

text \<open>
  The SC:R turn-command table, \<open>proto/src/commands.rs\<close>, and the relay's gate over client turns,
  \<open>relay/src/validation.rs\<close>.  A command stream is a list of bytes.  The walk over the stream is the
  loop of the source, with its byte offset; overflow of the count of stripped commands is \<open>None\<close>.

  \<open>parse_commands\<close> is the specification: it cuts a stream into commands.  The loop is shown equal to
  parsing, dropping the stripped commands and joining the rest.
\<close>

section \<open>The command table\<close>

datatype CommandLength = Fixed u16 | Variable u16

definition FIXED_LEN :: "u8 list" where
  "FIXED_LEN =
    [0, 0, 0, 0, 0, 1, 0, 0, 1, 0, 0, 0, 8, 3, 5, 2,
     1, 1, 5, 3, 10, 11, 0, 0, 1, 1, 2, 1, 1, 1, 2, 3,
     3, 2, 2, 3, 0, 2, 2, 1, 2, 3, 1, 2, 2, 2, 1, 5,
     2, 1, 2, 1, 1, 3, 1, 7, 0, 0, 0, 0, 0, 0, 0, 0,
     0, 0, 0, 0, 0, 0, 0, 0, 0, 0, 0, 0, 0, 0, 0, 0,
     0, 0, 0, 0, 0, 2, 10, 2, 5, 0, 1, 0, 82, 5, 0, 2,
     12, 13, 5, 0, 0, 0, 4, 0]"

definition classify :: "u8 \<Rightarrow> CommandLength option" where
  "classify op =
     (if 0x09 \<le> op \<and> op \<le> 0x0B then Some (Variable 2)
      else if 0x63 \<le> op \<and> op \<le> 0x65 then Some (Variable 4)
      else
        let n = (if unat op < length FIXED_LEN then FIXED_LEN ! unat op else 0)
        in if n = 0 then None else Some (Fixed (ucast n)))"

definition command_length :: "u8 list \<Rightarrow> nat option" where
  "command_length buf =
     (case buf of
        [] \<Rightarrow> None
      | op # rest \<Rightarrow>
          (case classify op of
             None \<Rightarrow> None
           | Some (Fixed n) \<Rightarrow> Some (unat n)
           | Some (Variable stride) \<Rightarrow>
               (case rest of [] \<Rightarrow> None | n # _ \<Rightarrow> Some (2 + unat stride * unat n))))"

definition command_names :: "(u8 \<times> string) list" where
  "command_names =
    [(0x05, ''KeepAlive''), (0x09, ''Select''), (0x0A, ''SelectAdd''), (0x0B, ''SelectRemove''),
     (0x0C, ''Build''), (0x0D, ''Vision''), (0x0E, ''Alliance''), (0x0F, ''GameSpeed''),
     (0x10, ''Pause''), (0x11, ''Resume''), (0x12, ''Cheat''), (0x13, ''Hotkey''),
     (0x14, ''RightClick''), (0x15, ''TargetedOrder''), (0x18, ''CancelBuild''),
     (0x19, ''CancelMorph''), (0x1A, ''Stop''), (0x1B, ''CarrierStop''), (0x1C, ''ReaverStop''),
     (0x1D, ''OrderNothing''), (0x1E, ''ReturnCargo''), (0x1F, ''Train''), (0x20, ''CancelTrain''),
     (0x21, ''Cloak''), (0x22, ''Decloak''), (0x23, ''UnitMorph''), (0x25, ''Unsiege''),
     (0x26, ''Siege''), (0x27, ''TrainFighter''), (0x28, ''UnloadAll''), (0x29, ''Unload''),
     (0x2A, ''MergeArchon''), (0x2B, ''HoldPosition''), (0x2C, ''Burrow''), (0x2D, ''Unburrow''),
     (0x2E, ''CancelNuke''), (0x2F, ''LiftOff''), (0x30, ''Tech''), (0x31, ''CancelTech''),
     (0x32, ''Upgrade''), (0x33, ''CancelUpgrade''), (0x34, ''CancelAddon''),
     (0x35, ''BuildingMorph''), (0x36, ''Stim''), (0x37, ''Sync''), (0x55, ''Latency''),
     (0x57, ''LeaveGame''), (0x58, ''MinimapPing''), (0x5A, ''MergeDarkArchon''), (0x5C, ''Chat''),
     (0x60, ''RightClick121''), (0x61, ''TargetedOrder121''), (0x62, ''Unload121''),
     (0x63, ''Select121''), (0x64, ''SelectAdd121''), (0x65, ''SelectRemove121'')]"

definition command_name :: "u8 \<Rightarrow> string option" where
  "command_name op = map_of command_names op"

section \<open>Validation\<close>

definition RELAY_OWNED_PACING :: "u8 list" where
  "RELAY_OWNED_PACING = [0x55, 0x5f, 0x66]"

definition REPLAY_ONLY :: "u8 list" where
  "REPLAY_ONLY = [0x56, 0x5d, 0x57]"

definition HOTKEY :: u8 where
  "HOTKEY = 0x13"

definition SELECTION_GROUPS :: u8 where
  "SELECTION_GROUPS = 18"

definition is_stripped_from_live_turn :: "u8 list \<Rightarrow> bool" where
  "is_stripped_from_live_turn command =
     (case command of
        [] \<Rightarrow> False
      | op # rest \<Rightarrow>
          (case rest of
             _ # g # _ \<Rightarrow>
               if op = HOTKEY then SELECTION_GROUPS \<le> g
               else op \<in> set RELAY_OWNED_PACING \<or> op \<in> set REPLAY_ONLY
           | _ \<Rightarrow> op \<in> set RELAY_OWNED_PACING \<or> op \<in> set REPLAY_ONLY))"

record ValidatedTurn =
  vt_payload :: Payload
  vt_stripped_control :: u32

datatype ValidationError = UnknownOpcode nat u8 | Truncated nat u8

definition next_length :: "nat \<Rightarrow> u8 list \<Rightarrow> ValidationError + nat" where
  "next_length offset rest =
     (case classify (hd rest) of
        None \<Rightarrow> Inl (UnknownOpcode offset (hd rest))
      | Some (Fixed n) \<Rightarrow> Inr (unat n)
      | Some (Variable stride) \<Rightarrow>
          if 1 < length rest then Inr (2 + unat stride * unat (rest ! 1))
          else Inl (Truncated offset (hd rest)))"

definition next_command :: "nat \<Rightarrow> u8 list \<Rightarrow> ValidationError + u8 list" where
  "next_command offset rest =
     (case next_length offset rest of
        Inl e \<Rightarrow> Inl e
      | Inr len \<Rightarrow>
          if len \<le> length rest then Inr (take len rest) else Inl (Truncated offset (hd rest)))"

lemma classify_Fixed_pos: "classify op = Some (Fixed n) \<Longrightarrow> 0 < unat n"
proof -
  assume "classify op = Some (Fixed n)"
  then obtain m :: u8 where "m \<noteq> 0" "n = ucast m"
    by (auto simp: classify_def Let_def split: if_splits)
  then show "0 < unat n"
    by (simp add: unat_ucast_up unat_gt_0)
qed

lemma next_length_pos: "next_length offset rest = Inr len \<Longrightarrow> 0 < len"
  by (auto simp: next_length_def split: option.splits CommandLength.splits if_splits
      dest: classify_Fixed_pos)

lemma next_command_length:
  assumes "next_command offset rest = Inr command"
  shows "0 < length command" and "length command \<le> length rest"
    and "command = take (length command) rest"
proof -
  obtain len where len: "next_length offset rest = Inr len" "len \<le> length rest" "command = take len rest"
    using assms by (auto simp: next_command_def split: sum.splits if_splits)
  then have l: "length command = len"
    by simp
  show "0 < length command" "length command \<le> length rest"
    using next_length_pos [OF len(1)] len(2) l by simp_all
  show "command = take (length command) rest"
    using len(3) l by metis
qed

lemma next_command_progress:
  assumes "next_command offset rest = Inr c"
  shows "offset < n \<Longrightarrow> n - (offset + length c) < n - offset" and "length rest - length c < length rest"
  using next_command_length(1,2) [OF assms] by linarith+

function validate_loop ::
    "u8 list \<Rightarrow> nat \<Rightarrow> u8 list option \<Rightarrow> u32 \<Rightarrow> (ValidationError + u8 list option \<times> u32) option" where
  "validate_loop commands offset forwarded stripped =
     (if offset < length commands then
        (case next_command offset (drop offset commands) of
           Inl e \<Rightarrow> Some (Inl e)
         | Inr command \<Rightarrow>
             if is_stripped_from_live_turn command then
               (case checked_add stripped 1 of
                  None \<Rightarrow> None
                | Some stripped' \<Rightarrow>
                    validate_loop commands (offset + length command)
                      (case forwarded of None \<Rightarrow> Some (take offset commands) | Some s \<Rightarrow> Some s) stripped')
             else
               validate_loop commands (offset + length command)
                 (map_option (\<lambda>s. s @ command) forwarded) stripped)
      else Some (Inr (forwarded, stripped)))"
  by pat_completeness auto
termination
  by (relation "measure (\<lambda>(commands, offset, _). length commands - offset)")
    (simp_all add: next_command_progress)

declare validate_loop.simps [simp del]

definition validate_turn :: "SlotId \<Rightarrow> Payload \<Rightarrow> (ValidationError + ValidatedTurn) option" where
  "validate_turn slot payload =
     (case validate_loop (p_commands payload) 0 None 0 of
        None \<Rightarrow> None
      | Some (Inl e) \<Rightarrow> Some (Inl e)
      | Some (Inr (forwarded, stripped)) \<Rightarrow>
          let bound = payload\<lparr>p_slot := ucast slot, p_buffer_directive := None\<rparr>;
              payload' = (case forwarded of None \<Rightarrow> bound | Some s \<Rightarrow> bound\<lparr>p_commands := s\<rparr>)
          in Some (Inr \<lparr>vt_payload = payload', vt_stripped_control = stripped\<rparr>))"

text \<open>The invariants the source asserts of its validator for one input; a failed assertion is \<open>None\<close>.\<close>

definition assert_validate_turn_invariants ::
    "SlotId \<Rightarrow> u64 \<Rightarrow> u32 option \<Rightarrow> u8 list \<Rightarrow> unit option" where
  "assert_validate_turn_invariants slot s game_frame_count commands =
     (let submitted =
        \<lparr>p_seq = s, p_slot = - 1, p_commands = commands, p_game_frame_count = game_frame_count,
         p_sync_generation = None, p_buffer_directive = None, p_state_hash = None\<rparr>
      in do {
        r \<leftarrow> validate_turn slot submitted;
        (case r of
           Inr validated \<Rightarrow> do {
             rust_assert (p_slot (vt_payload validated) = ucast slot);
             rust_assert (p_seq (vt_payload validated) = s);
             rust_assert (p_game_frame_count (vt_payload validated) = game_frame_count);
             rust_assert (p_buffer_directive (vt_payload validated) = None);
             rust_assert (length (p_commands (vt_payload validated)) \<le> length commands);
             rust_assert (vt_stripped_control validated = 0 \<longrightarrow> p_commands (vt_payload validated) = commands);
             again \<leftarrow> validate_turn slot (vt_payload validated);
             (case again of
                Inl _ \<Rightarrow> None
              | Inr v \<Rightarrow> do {
                  rust_assert (vt_stripped_control v = 0);
                  rust_assert (p_commands (vt_payload v) = p_commands (vt_payload validated))
                })
           }
         | Inl (UnknownOpcode offset _) \<Rightarrow> rust_assert (offset < length commands)
         | Inl (Truncated offset _) \<Rightarrow> rust_assert (offset < length commands))
      })"

section \<open>The specification of the walk\<close>

function parse_commands :: "nat \<Rightarrow> u8 list \<Rightarrow> ValidationError + u8 list list" where
  "parse_commands offset rest =
     (if rest = [] then Inr []
      else
        (case next_command offset rest of
           Inl e \<Rightarrow> Inl e
         | Inr command \<Rightarrow>
             (case parse_commands (offset + length command) (drop (length command) rest) of
                Inl e \<Rightarrow> Inl e
              | Inr cs \<Rightarrow> Inr (command # cs))))"
  by pat_completeness auto
termination
  by (relation "measure (\<lambda>(_, rest). length rest)") (simp_all add: next_command_progress)

declare parse_commands.simps [simp del]

definition kept_commands :: "u8 list list \<Rightarrow> u8 list list" where
  "kept_commands cs = filter (\<lambda>c. \<not> is_stripped_from_live_turn c) cs"

definition stripped_commands :: "u8 list list \<Rightarrow> nat" where
  "stripped_commands cs = length (filter is_stripped_from_live_turn cs)"

text \<open>A whole command: cutting it from the front of any stream gives it back.\<close>

definition command_ok :: "u8 list \<Rightarrow> bool" where
  "command_ok c \<longleftrightarrow> (\<forall>offset rest. next_command offset (c @ rest) = Inr c)"

lemma next_command_ok:
  assumes "next_command offset rest = Inr c"
  shows "command_ok c"
proof -
  obtain len where len: "next_length offset rest = Inr len" "len \<le> length rest" "c = take len rest"
    using assms by (auto simp: next_command_def split: sum.splits if_splits)
  have pos: "0 < len"
    by (rule next_length_pos [OF len(1)])
  then obtain op tl where rest: "rest = op # tl" and hd: "hd c = op" "c \<noteq> []"
    using len by (cases rest) (auto simp: take_Cons')
  have "next_length offset' (c @ rest') = Inr len" for offset' rest'
  proof (cases "classify op")
    case None
    then show ?thesis
      using len(1) rest by (simp add: next_length_def)
  next
    case (Some cl)
    show ?thesis
    proof (cases cl)
      case (Fixed n)
      then show ?thesis
        using Some len(1) rest hd by (simp add: next_length_def)
    next
      case (Variable stride)
      then have l: "1 < length rest" "len = 2 + unat stride * unat (rest ! 1)"
        using Some len(1) rest by (auto simp: next_length_def split: if_splits)
      then have "1 < length c" "c ! 1 = rest ! 1"
        using len(2,3) by simp_all
      then show ?thesis
        using Some Variable hd l by (simp add: next_length_def nth_append)
    qed
  qed
  then show ?thesis
    using len(2,3) hd by (auto simp: command_ok_def next_command_def)
qed

lemma command_ok_pos: "command_ok c \<Longrightarrow> 0 < length c"
proof -
  assume "command_ok c"
  then have "next_command 0 (c @ []) = Inr c"
    unfolding command_ok_def by (elim allE)
  then show "0 < length c"
    by (rule next_command_length(1))
qed

lemma parse_commands_Inr:
  "parse_commands offset rest = Inr cs \<Longrightarrow> concat cs = rest \<and> (\<forall>c \<in> set cs. command_ok c)"
proof (induction offset rest arbitrary: cs rule: parse_commands.induct)
  case (1 offset rest)
  show ?case
  proof (cases "rest = []")
    case True
    then show ?thesis
      using 1(2) by (simp add: parse_commands.simps)
  next
    case False
    then obtain c cs' where c: "next_command offset rest = Inr c"
      "parse_commands (offset + length c) (drop (length c) rest) = Inr cs'" "cs = c # cs'"
      using 1(2) by (auto simp: parse_commands.simps [of offset rest] split: sum.splits)
    have "concat cs' = drop (length c) rest \<and> (\<forall>c \<in> set cs'. command_ok c)"
      by (rule 1(1) [OF False c(1,2)])
    then show ?thesis
      using c(3) next_command_ok [OF c(1)] next_command_length(3) [OF c(1)] by (metis append_take_drop_id concat.simps(2) set_ConsD)
  qed
qed

lemma parse_concat: "\<forall>c \<in> set cs. command_ok c \<Longrightarrow> parse_commands offset (concat cs) = Inr cs"
proof (induction cs arbitrary: offset)
  case Nil
  then show ?case
    by (simp add: parse_commands.simps)
next
  case (Cons c cs)
  then have "next_command offset (c @ concat cs) = Inr c" "c \<noteq> []"
    using command_ok_pos by (auto simp: command_ok_def)
  then show ?case
    using Cons by (subst parse_commands.simps) simp
qed

lemma parse_error_offset:
  "parse_commands offset rest = Inl e \<Longrightarrow>
    \<exists>i op. (e = UnknownOpcode i op \<or> e = Truncated i op) \<and> offset \<le> i \<and> i < offset + length rest \<and> op = rest ! (i - offset)"
proof (induction offset rest rule: parse_commands.induct)
  case (1 offset rest)
  have ne: "rest \<noteq> []"
    using 1(2) by (auto simp: parse_commands.simps)
  show ?case
  proof (cases "next_command offset rest")
    case (Inl e')
    then have "e = e'"
      using 1(2) ne by (simp add: parse_commands.simps [of offset rest])
    then have "e = UnknownOpcode offset (hd rest) \<or> e = Truncated offset (hd rest)"
      using Inl by (auto simp: next_command_def next_length_def split: sum.splits option.splits CommandLength.splits if_splits)
    then show ?thesis
      using ne by (intro exI [of _ offset] exI [of _ "hd rest"]) (auto simp: hd_conv_nth)
  next
    case (Inr c)
    then have rec: "parse_commands (offset + length c) (drop (length c) rest) = Inl e"
      using 1(2) ne by (auto simp: parse_commands.simps [of offset rest] split: sum.splits)
    obtain i op where i: "e = UnknownOpcode i op \<or> e = Truncated i op" "offset + length c \<le> i"
        "i < offset + length c + length (drop (length c) rest)" "op = drop (length c) rest ! (i - (offset + length c))"
      using 1(1) [OF ne Inr rec] by (elim exE conjE) (rule that)
    have "length c \<le> length rest"
      by (rule next_command_length(2) [OF Inr])
    then have "i < offset + length rest" "op = rest ! (i - offset)"
      using i(2-4) by (auto simp: nth_drop)
    then show ?thesis
      using i(1,2) by (intro exI [of _ i] exI [of _ op]) simp
  qed
qed

section \<open>The loop against the specification\<close>

definition sanitized :: "u8 list list \<Rightarrow> u8 list option" where
  "sanitized cs = (if stripped_commands cs = 0 then None else Some (concat (kept_commands cs)))"

lemma stripped_commands_snoc:
  "stripped_commands (cs @ [c]) = stripped_commands cs + (if is_stripped_from_live_turn c then 1 else 0)"
  by (simp add: stripped_commands_def)

lemma kept_all: "stripped_commands cs = 0 \<Longrightarrow> kept_commands cs = cs"
  by (auto simp: stripped_commands_def kept_commands_def filter_id_conv filter_empty_conv)

lemma sanitized_strip:
  assumes "is_stripped_from_live_turn c"
  shows "sanitized (cs @ [c]) = (case sanitized cs of None \<Rightarrow> Some (concat cs) | Some s \<Rightarrow> Some s)"
proof (cases "stripped_commands cs = 0")
  case True
  then show ?thesis
    using assms kept_all [OF True] by (simp add: sanitized_def stripped_commands_snoc kept_commands_def)
qed (use assms in \<open>simp add: sanitized_def stripped_commands_snoc kept_commands_def\<close>)

lemma sanitized_keep:
  "\<not> is_stripped_from_live_turn c \<Longrightarrow> sanitized (cs @ [c]) = map_option (\<lambda>s. s @ c) (sanitized cs)"
  by (simp add: sanitized_def stripped_commands_snoc kept_commands_def)

lemma stripped_commands_le: "\<forall>c \<in> set cs. c \<noteq> [] \<Longrightarrow> stripped_commands cs \<le> length (concat cs)"
proof (induction cs)
  case (Cons c cs)
  then have "Suc 0 \<le> length c"
    by (simp add: Suc_le_eq)
  with Cons show ?case
    by (auto simp: stripped_commands_def)
qed (simp add: stripped_commands_def)

lemma of_nat_checked_succ:
  "Suc n < 2 ^ LENGTH('a) \<Longrightarrow> checked_add (of_nat n :: 'a::len word) 1 = Some (of_nat (Suc n))"
  by (auto simp: checked_add_Some unsigned_of_nat take_bit_nat_eq_self simp flip: of_nat_Suc)

lemma validate_loop_eq:
  assumes "length commands < 2 ^ 32"
  shows "offset = length (concat pre) \<Longrightarrow> commands = concat pre @ rest \<Longrightarrow> \<forall>c \<in> set pre. c \<noteq> [] \<Longrightarrow>
    validate_loop commands offset (sanitized pre) (of_nat (stripped_commands pre)) =
      Some (case parse_commands offset rest of
              Inl e \<Rightarrow> Inl e
            | Inr cs \<Rightarrow> Inr (sanitized (pre @ cs), of_nat (stripped_commands (pre @ cs))))"
proof (induction offset rest arbitrary: pre rule: parse_commands.induct)
  case (1 offset rest)
  have drop: "drop offset commands = rest" and take: "take offset commands = concat pre"
    and len: "offset < length commands \<longleftrightarrow> rest \<noteq> []"
    using "1.prems"(1,2) by simp_all
  show ?case
  proof (cases "rest = []")
    case True
    then show ?thesis
      using len by (simp add: validate_loop.simps [of commands offset] parse_commands.simps)
  next
    case False
    show ?thesis
    proof (cases "next_command offset rest")
      case (Inl e)
      then show ?thesis
        using False len drop by (simp add: validate_loop.simps [of commands offset] parse_commands.simps [of offset rest])
    next
      case (Inr c)
      have c: "c \<noteq> []" "rest = c @ drop (length c) rest"
        using next_command_length [OF Inr] by (auto, metis append_take_drop_id)
      have IH: "validate_loop commands (offset + length c) (sanitized (pre @ [c])) (of_nat (stripped_commands (pre @ [c]))) =
          Some (case parse_commands (offset + length c) (drop (length c) rest) of
              Inl e \<Rightarrow> Inl e
            | Inr cs \<Rightarrow> Inr (sanitized ((pre @ [c]) @ cs), of_nat (stripped_commands ((pre @ [c]) @ cs))))"
        by (rule "1.IH" [OF False Inr]) (use "1.prems" c in auto)
      have "validate_loop commands offset (sanitized pre) (of_nat (stripped_commands pre)) =
          validate_loop commands (offset + length c) (sanitized (pre @ [c])) (of_nat (stripped_commands (pre @ [c])))"
      proof (cases "is_stripped_from_live_turn c")
        case True
        have "stripped_commands pre \<le> offset"
          using stripped_commands_le "1.prems"(1,3) by simp
        then have "Suc (stripped_commands pre) < 2 ^ 32"
          using False len assms by linarith
        then show ?thesis
          using False len drop take Inr True of_nat_checked_succ [of "stripped_commands pre", where 'a = 32]
          by (simp add: validate_loop.simps [of commands offset] sanitized_strip stripped_commands_snoc
              cong: option.case_cong)
      next
        case nostrip: False
        then show ?thesis
          using False len drop Inr
          by (simp add: validate_loop.simps [of commands offset] sanitized_keep stripped_commands_snoc)
      qed
      also note IH
      finally show ?thesis
        using False Inr by (simp add: parse_commands.simps [of offset rest] split: sum.split)
    qed
  qed
qed

lemma validate_turn_eq:
  assumes "length (p_commands p) < 2 ^ 32"
  shows "validate_turn slot p =
    Some (case parse_commands 0 (p_commands p) of
       Inl e \<Rightarrow> Inl e
     | Inr cs \<Rightarrow> Inr
        \<lparr>vt_payload = p\<lparr>p_slot := ucast slot, p_buffer_directive := None, p_commands := concat (kept_commands cs)\<rparr>,
         vt_stripped_control = of_nat (stripped_commands cs)\<rparr>)"
proof -
  have loop: "validate_loop (p_commands p) 0 None 0 =
      Some (case parse_commands 0 (p_commands p) of Inl e \<Rightarrow> Inl e
            | Inr cs \<Rightarrow> Inr (sanitized cs, of_nat (stripped_commands cs)))"
    using validate_loop_eq [OF assms, of 0 "[]" "p_commands p"]
    by (simp add: sanitized_def stripped_commands_def cong: sum.case_cong)
  show ?thesis
  proof (cases "parse_commands 0 (p_commands p)")
    case (Inl e)
    then show ?thesis
      using loop by (simp add: validate_turn_def)
  next
    case (Inr cs)
    have "concat cs = p_commands p"
      using parse_commands_Inr [OF Inr] by simp
    then show ?thesis
      using loop Inr kept_all [of cs] by (auto simp: validate_turn_def sanitized_def Let_def)
  qed
qed

section \<open>Properties\<close>

text \<open>C7: Validating a turn is parsing it into whole commands, dropping the ones a live turn must not
  carry and joining the rest; the turn is bound to the authorized slot, its directive is removed, every
  other field is kept, and the count of dropped commands is exact.\<close>

theorem validate_turn_equivalent:
  assumes "length (p_commands p) < 2 ^ 32"
  shows "validate_turn slot p =
    Some (case parse_commands 0 (p_commands p) of
       Inl e \<Rightarrow> Inl e
     | Inr cs \<Rightarrow> Inr
        \<lparr>vt_payload = p\<lparr>p_slot := ucast slot, p_buffer_directive := None, p_commands := concat (kept_commands cs)\<rparr>,
         vt_stripped_control = of_nat (stripped_commands cs)\<rparr>) \<and>
    (\<forall>cs. parse_commands 0 (p_commands p) = Inr cs \<longrightarrow> concat cs = p_commands p)"
  using validate_turn_eq [OF assms] parse_commands_Inr by blast

definition probe_commands :: "u8 list \<Rightarrow> Payload" where
  "probe_commands cmds =
     \<lparr>p_seq = 4, p_slot = 9, p_commands = cmds, p_game_frame_count = Some 3, p_sync_generation = None,
      p_buffer_directive = None, p_state_hash = None\<rparr>"

theorem validate_turn_equivalent_witness:
  "validate_turn 2 (probe_commands [0x05, 0x55, 0x01, 0x13, 0x00, 0x12, 0x09, 0x01, 0xaa, 0xbb]) =
    Some (Inr \<lparr>vt_payload = (probe_commands [0x05, 0x09, 0x01, 0xaa, 0xbb])\<lparr>p_slot := 2\<rparr>,
      vt_stripped_control = 2\<rparr>)"
proof -
  let ?p = "probe_commands [0x05, 0x55, 0x01, 0x13, 0x00, 0x12, 0x09, 0x01, 0xaa, 0xbb]"
  have len: "length (p_commands ?p) < 2 ^ 32"
    by (simp add: probe_commands_def)
  have parse: "parse_commands 0 (p_commands ?p) =
      Inr [[0x05], [0x55, 0x01], [0x13, 0x00, 0x12], [0x09, 0x01, 0xaa, 0xbb]]"
    by code_simp
  have kept: "concat (kept_commands [[0x05], [0x55, 0x01], [0x13, 0x00, 0x12], [0x09, 0x01, 0xaa, 0xbb]]) =
      [0x05, 0x09, 0x01, 0xaa, 0xbb]"
    and count: "stripped_commands [[0x05], [0x55, 0x01], [0x13, 0x00, 0x12], [0x09, 0x01, 0xaa, 0xbb]] = 2"
    by code_simp+
  show ?thesis
    using validate_turn_equivalent [OF len, of 2] unfolding parse
    by (simp add: kept count) (simp add: probe_commands_def)
qed

text \<open>C39: The invariants the source asserts of the validator hold for every byte string: binding, no
  amplification, the sanitized stream is a fixpoint of validation, and a rejection points at a byte of
  the turn.  In particular the walk terminates and never panics.\<close>

theorem validate_turn_invariants_hold:
  assumes "length commands < 2 ^ 32"
  shows "assert_validate_turn_invariants slot s game_frame_count commands = Some ()"
proof -
  let ?p = "\<lparr>p_seq = s, p_slot = - 1, p_commands = commands, p_game_frame_count = game_frame_count,
         p_sync_generation = None, p_buffer_directive = None, p_state_hash = None\<rparr>"
  note eq = validate_turn_eq [of ?p slot, simplified, OF assms [simplified]]
  show ?thesis
  proof (cases "parse_commands 0 commands")
    case (Inl e)
    obtain i op where "e = UnknownOpcode i op \<or> e = Truncated i op" "i < length commands"
      using parse_error_offset [OF Inl] by auto
    then show ?thesis
      using eq Inl by (auto simp: assert_validate_turn_invariants_def)
  next
    case (Inr cs)
    have cs: "concat cs = commands" "\<forall>c \<in> set cs. command_ok c"
      using parse_commands_Inr [OF Inr] by simp_all
    have shrink: "length (concat (kept_commands cs)) \<le> length commands"
      unfolding cs(1) [symmetric] kept_commands_def by (induction cs) auto
    have kept: "parse_commands 0 (concat (kept_commands cs)) = Inr (kept_commands cs)"
      by (rule parse_concat) (use cs(2) in \<open>simp add: kept_commands_def\<close>)
    have fix1: "kept_commands (kept_commands cs) = kept_commands cs" "stripped_commands (kept_commands cs) = 0"
      by (simp_all add: kept_commands_def stripped_commands_def filter_empty_conv)
    have "stripped_commands cs \<le> length commands"
      using stripped_commands_le [of cs] command_ok_pos cs by (metis length_greater_0_conv)
    then have none: "(of_nat (stripped_commands cs) :: u32) = 0 \<longleftrightarrow> stripped_commands cs = 0"
      using assms by (simp add: word_unat_eq_iff unsigned_of_nat take_bit_nat_eq_self)
    note again = validate_turn_eq [of "?p\<lparr>p_slot := ucast slot, p_commands := concat (kept_commands cs)\<rparr>" slot]
    show ?thesis
      using eq Inr again shrink assms kept fix1 none kept_all [of cs] cs(1)
      by (auto simp: assert_validate_turn_invariants_def)
  qed
qed

theorem validate_turn_invariants_hold_witness:
  "assert_validate_turn_invariants 2 7 None [0x05, 0x66, 0, 0, 0, 0x09] = Some ()"
  by (rule validate_turn_invariants_hold) simp

end
