(* ===== verification/DropOldest.thy ===== *)
theory DropOldest
  imports Prelude "HOL-Library.Sublist"
begin

text \<open>
  Bounded logs that evict their oldest entries: the relay's replay ring and the client's retention ring.
  \<open>drop_over\<close> is the specification, the longest suffix that is not over the bounds.  The locale
  \<open>drop_oldest\<close> is the contract of one push to one of several logs; its client lemma is that after any
  interleaving of pushes each log is the longest suffix of what was pushed to it that fits.
\<close>

fun drop_over :: "('a list \<Rightarrow> bool) \<Rightarrow> 'a list \<Rightarrow> 'a list" where
  "drop_over over [] = []"
| "drop_over over (x # xs) = (if over (x # xs) then drop_over over xs else x # xs)"

lemma drop_over_suffix: "suffix (drop_over over xs) xs"
  by (induction xs) (auto intro: suffix_ConsI)

lemma drop_over_fits: "drop_over over xs = [] \<or> \<not> over (drop_over over xs)"
  by (induction xs) auto

lemma drop_over_longest:
  assumes "\<And>ys zs. suffix ys zs \<Longrightarrow> over ys \<Longrightarrow> over zs" and "suffix ys xs" and "\<not> over ys"
  shows "suffix ys (drop_over over xs)"
  using assms(2)
proof (induction xs)
  case (Cons x xs)
  show ?case
  proof (cases "over (x # xs)")
    case True
    then have "ys \<noteq> x # xs"
      using assms(3) by auto
    then show ?thesis
      using Cons True by (auto simp: suffix_Cons)
  next
    case False
    then show ?thesis
      using Cons.prems by simp
  qed
qed simp

fun push_all :: "('s \<Rightarrow> 'k \<Rightarrow> 'a \<Rightarrow> 's option) \<Rightarrow> 's \<Rightarrow> ('k \<times> 'a) list \<Rightarrow> 's option" where
  "push_all push s [] = Some s"
| "push_all push s ((k, x) # xs) = do { s' \<leftarrow> push s k x; push_all push s' xs }"

definition pushed_to :: "'k \<Rightarrow> ('k \<times> 'a) list \<Rightarrow> 'a list" where
  "pushed_to k xs = map snd (filter (\<lambda>(k', _). k' = k) xs)"

lemma pushed_to_simps [simp]:
  "pushed_to k [] = []" "pushed_to k ((k', x) # xs) = (if k' = k then x # pushed_to k xs else pushed_to k xs)"
  by (auto simp: pushed_to_def)

lemma pushed_to_unit [simp]: "pushed_to () (map (Pair ()) xs) = xs"
  by (induction xs) auto

locale drop_oldest =
  fixes push :: "'s \<Rightarrow> 'k \<Rightarrow> 'a \<Rightarrow> 's option"
    and contents :: "'s \<Rightarrow> 'k \<Rightarrow> 'a list"
    and inv :: "'s \<Rightarrow> bool"
    and over :: "'k \<Rightarrow> 'a list \<Rightarrow> bool"
  assumes push_total: "inv s \<Longrightarrow> \<exists>s'. push s k x = Some s'"
    and push_inv: "inv s \<Longrightarrow> push s k x = Some s' \<Longrightarrow> inv s'"
    and push_contents: "inv s \<Longrightarrow> push s k x = Some s' \<Longrightarrow>
      contents s' = (contents s)(k := drop_over (over k) (contents s k @ [x]))"
    and over_snoc: "over k xs \<Longrightarrow> over k (xs @ [x])"
    and over_Cons: "over k xs \<Longrightarrow> over k (x # xs)"
begin

lemma drop_over_step: "drop_over (over k) (drop_over (over k) xs @ [x]) = drop_over (over k) (xs @ [x])"
proof (induction xs)
  case (Cons y ys)
  then show ?case
    using over_snoc [of k "y # ys" x] by auto
qed simp

lemma over_suffix: "suffix ys zs \<Longrightarrow> over k ys \<Longrightarrow> over k zs"
proof (induction zs)
  case (Cons z zs)
  then show ?case
    using over_Cons by (auto simp: suffix_Cons)
qed simp

lemma run_contents:
  assumes "inv s" and "\<And>k. contents s k = drop_over (over k) (old k)"
  shows "\<exists>s'. push_all push s xs = Some s' \<and> inv s' \<and>
    (\<forall>k. contents s' k = drop_over (over k) (old k @ pushed_to k xs))"
  using assms
proof (induction xs arbitrary: s old)
  case (Cons kx xs)
  obtain k x where kx: "kx = (k, x)"
    by (cases kx)
  obtain s1 where s1: "push s k x = Some s1"
    using push_total [OF Cons.prems(1)] by blast
  have "contents s1 k' = drop_over (over k') ((old(k := old k @ [x])) k')" for k'
    using push_contents [OF Cons.prems(1) s1] Cons.prems(2) drop_over_step by simp
  from Cons.IH [OF push_inv [OF Cons.prems(1) s1] this]
  obtain s2 where s2: "push_all push s1 xs = Some s2" "inv s2"
    and c2: "\<And>k'. contents s2 k' = drop_over (over k') ((old(k := old k @ [x])) k' @ pushed_to k' xs)"
    by blast
  have "contents s2 k' = drop_over (over k') (old k' @ pushed_to k' (kx # xs))" for k'
    using c2 [of k'] by (simp add: kx)
  then show ?case
    using s1 s2 kx by auto
qed simp

lemma run_longest:
  assumes "inv s" and "\<And>k. contents s k = []"
  shows "\<exists>s'. push_all push s xs = Some s' \<and> inv s' \<and>
    (\<forall>k. suffix (contents s' k) (pushed_to k xs) \<and>
         (contents s' k = [] \<or> \<not> over k (contents s' k)) \<and>
         (\<forall>ys. suffix ys (pushed_to k xs) \<longrightarrow> \<not> over k ys \<longrightarrow> suffix ys (contents s' k)))"
proof -
  have "contents s k = drop_over (over k) []" for k
    using assms(2) by simp
  from run_contents [OF assms(1) this]
  obtain s' where s': "push_all push s xs = Some s'" "inv s'"
    and c: "\<And>k. contents s' k = drop_over (over k) (pushed_to k xs)"
    by auto
  have "suffix ys (contents s' k)" if "suffix ys (pushed_to k xs)" "\<not> over k ys" for ys k
    unfolding c using over_suffix that by (rule drop_over_longest)
  then show ?thesis
    using s' c drop_over_suffix drop_over_fits by metis
qed

end

end
