(* ===== verification/TurnRing.thy ===== *)
theory TurnRing
  imports DropOldest Wire MeshSeen
begin

text \<open>
  The relay's bounded record of forwarded turns, \<open>relay/src/session/turn_ring/mod.rs\<close>, replayed to a
  client that re-dials.  The registry's mutex makes every operation atomic, so its state is passed along.
  Underflow of a byte counter is \<open>None\<close>.  The contract \<open>drop_oldest\<close> is interpreted on \<open>record\<close>.
\<close>

section \<open>Bounds\<close>

definition NOMINAL_TURNS_PER_SEC_PER_SLOT :: nat where
  "NOMINAL_TURNS_PER_SEC_PER_SLOT = 24"

definition MAX_GAME_SLOTS :: nat where
  "MAX_GAME_SLOTS = 12"

definition DROP_UNLOCK_SECS :: nat where
  "DROP_UNLOCK_SECS = 30"

definition effective_slots :: "nat \<Rightarrow> nat" where
  "effective_slots slots = (if slots = 0 \<or> slots > MAX_GAME_SLOTS then MAX_GAME_SLOTS else slots)"

definition RING_WINDOW_SECS :: nat where
  "RING_WINDOW_SECS = DROP_UNLOCK_SECS"

definition max_turns :: "nat \<Rightarrow> nat" where
  "max_turns slots = RING_WINDOW_SECS * NOMINAL_TURNS_PER_SEC_PER_SLOT * effective_slots slots * 3 div 2"

definition TURN_RING_FULL_BYTES :: nat where
  "TURN_RING_FULL_BYTES = 4 * 1024 * 1024"

definition TURN_RING_MIN_BYTES :: nat where
  "TURN_RING_MIN_BYTES = 1024 * 1024"

definition max_bytes :: "nat \<Rightarrow> nat" where
  "max_bytes slots =
     (let scaled = TURN_RING_FULL_BYTES * effective_slots slots div MAX_GAME_SLOTS
      in if scaled < TURN_RING_MIN_BYTES then TURN_RING_MIN_BYTES else scaled)"

section \<open>One session's ring\<close>

datatype TurnOrigin = Local | Mesh

record Entry =
  en_payload :: Payload
  en_origin :: TurnOrigin

record SessionRing =
  sr_turns :: "Entry list"
  sr_bytes :: nat
  sr_max_turns :: nat
  sr_max_bytes :: nat

definition SessionRing_default :: SessionRing where
  "SessionRing_default = \<lparr>sr_turns = [], sr_bytes = 0, sr_max_turns = 0, sr_max_bytes = 0\<rparr>"

definition payload_command_bytes :: "Payload \<Rightarrow> nat" where
  "payload_command_bytes p = length (p_commands p)"

definition entry_cost :: "Entry \<Rightarrow> nat" where
  "entry_cost e = payload_command_bytes (en_payload e)"

fun ring_evict :: "nat \<Rightarrow> nat \<Rightarrow> Entry list \<Rightarrow> nat \<Rightarrow> (Entry list \<times> nat) option" where
  "ring_evict mt mb [] b = Some ([], b)"
| "ring_evict mt mb (e # es) b =
     (if mt < length (e # es) \<or> mb < b then
        (if entry_cost e \<le> b then ring_evict mt mb es (b - entry_cost e) else None)
      else Some (e # es, b))"

definition SessionRing_record :: "SessionRing \<Rightarrow> Payload \<Rightarrow> TurnOrigin \<Rightarrow> nat \<Rightarrow> SessionRing option" where
  "SessionRing_record r payload origin slots =
     (let e = \<lparr>en_payload = payload, en_origin = origin\<rparr>
      in map_option (\<lambda>(turns, b). \<lparr>sr_turns = turns, sr_bytes = b, sr_max_turns = max_turns slots,
                                     sr_max_bytes = max_bytes slots\<rparr>)
           (ring_evict (max_turns slots) (max_bytes slots) (sr_turns r @ [e]) (sr_bytes r + entry_cost e)))"

section \<open>The registry\<close>

record TurnRingState =
  tr_sessions :: "SessionKey \<rightharpoonup> SessionRing"
  tr_local_origin_turns :: u64
  tr_mesh_origin_turns :: u64

record RingTotals =
  rt_sessions :: nat
  rt_turns :: nat
  rt_command_bytes :: nat
  rt_local_origin_turns :: u64
  rt_mesh_origin_turns :: u64

definition TurnRing_new :: TurnRingState where
  "TurnRing_new = \<lparr>tr_sessions = Map.empty, tr_local_origin_turns = 0, tr_mesh_origin_turns = 0\<rparr>"

definition session_ring :: "TurnRingState \<Rightarrow> SessionKey \<Rightarrow> SessionRing" where
  "session_ring t key = (case tr_sessions t key of Some r \<Rightarrow> r | None \<Rightarrow> SessionRing_default)"

definition TurnRing_record ::
    "TurnRingState \<Rightarrow> SessionKey \<Rightarrow> Payload \<Rightarrow> TurnOrigin \<Rightarrow> nat \<Rightarrow> TurnRingState option" where
  "TurnRing_record t key payload origin slots =
     (let t' = (case origin of
                  Local \<Rightarrow> t\<lparr>tr_local_origin_turns := saturating_add (tr_local_origin_turns t) 1\<rparr>
                | Mesh \<Rightarrow> t\<lparr>tr_mesh_origin_turns := saturating_add (tr_mesh_origin_turns t) 1\<rparr>)
      in do {
        r \<leftarrow> SessionRing_record (session_ring t' key) payload origin slots;
        Some (t'\<lparr>tr_sessions := (tr_sessions t')(key \<mapsto> r)\<rparr>)
      })"

definition entry_matches ::
    "(SlotId \<rightharpoonup> u64) \<Rightarrow> TurnOrigin option \<Rightarrow> bool \<Rightarrow> SlotId option \<Rightarrow> Entry \<Rightarrow> bool" where
  "entry_matches cursors origin replay_absent_from_zero skip e \<longleftrightarrow>
     (case origin of None \<Rightarrow> True | Some want \<Rightarrow> en_origin e = want) \<and>
     (case slot_try_from (p_slot (en_payload e)) of
        None \<Rightarrow> False
      | Some slot \<Rightarrow>
          if skip = Some slot then False
          else
            (case cursors slot of
               Some cursor \<Rightarrow> cursor \<le> p_seq (en_payload e)
             | None \<Rightarrow> replay_absent_from_zero))"

definition TurnRing_matching ::
    "TurnRingState \<Rightarrow> SessionKey \<Rightarrow> (SlotId \<rightharpoonup> u64) \<Rightarrow> TurnOrigin option \<Rightarrow> bool \<Rightarrow> SlotId option \<Rightarrow> Payload list" where
  "TurnRing_matching t key cursors origin replay_absent_from_zero skip =
     (case tr_sessions t key of
        None \<Rightarrow> []
      | Some r \<Rightarrow> map en_payload (filter (entry_matches cursors origin replay_absent_from_zero skip) (sr_turns r)))"

definition TurnRing_replay :: "TurnRingState \<Rightarrow> SessionKey \<Rightarrow> (SlotId \<rightharpoonup> u64) \<Rightarrow> SlotId \<Rightarrow> Payload list" where
  "TurnRing_replay t key cursors own =
     map (\<lambda>turn. turn\<lparr>p_state_hash := None\<rparr>) (TurnRing_matching t key cursors None True (Some own))"

definition TurnRing_replay_local :: "TurnRingState \<Rightarrow> SessionKey \<Rightarrow> (SlotId \<rightharpoonup> u64) \<Rightarrow> bool \<Rightarrow> Payload list" where
  "TurnRing_replay_local t key cursors resuming = TurnRing_matching t key cursors (Some Local) resuming None"

definition TurnRing_end_session :: "TurnRingState \<Rightarrow> SessionKey \<Rightarrow> TurnRingState" where
  "TurnRing_end_session t key = t\<lparr>tr_sessions := (tr_sessions t)(key := None)\<rparr>"

definition TurnRing_totals :: "SessionKey list \<Rightarrow> TurnRingState \<Rightarrow> RingTotals" where
  "TurnRing_totals keys t =
     (let rings = List.map_filter (tr_sessions t) keys
      in \<lparr>rt_sessions = length rings, rt_turns = sum_list (map (length \<circ> sr_turns) rings),
          rt_command_bytes = sum_list (map sr_bytes rings),
          rt_local_origin_turns = tr_local_origin_turns t, rt_mesh_origin_turns = tr_mesh_origin_turns t\<rparr>)"

section \<open>The ring is the longest suffix that fits\<close>

definition ring_bytes :: "Entry list \<Rightarrow> nat" where
  "ring_bytes es = sum_list (map entry_cost es)"

definition ring_over :: "nat \<Rightarrow> Entry list \<Rightarrow> bool" where
  "ring_over slots es \<longleftrightarrow> max_turns slots < length es \<or> max_bytes slots < ring_bytes es"

definition ring_turns :: "TurnRingState \<Rightarrow> SessionKey \<Rightarrow> Entry list" where
  "ring_turns t key = sr_turns (session_ring t key)"

definition ring_inv :: "TurnRingState \<Rightarrow> bool" where
  "ring_inv t \<longleftrightarrow> (\<forall>key. sr_bytes (session_ring t key) = ring_bytes (ring_turns t key))"

definition ring_push :: "(SessionKey \<Rightarrow> nat) \<Rightarrow> TurnRingState \<Rightarrow> SessionKey \<Rightarrow> Entry \<Rightarrow> TurnRingState option" where
  "ring_push slots t key e = TurnRing_record t key (en_payload e) (en_origin e) (slots key)"

lemma ring_bytes_simps [simp]:
  "ring_bytes [] = 0" "ring_bytes (e # es) = entry_cost e + ring_bytes es"
  "ring_bytes (es @ es') = ring_bytes es + ring_bytes es'"
  by (simp_all add: ring_bytes_def)

lemma ring_evict_drop_over:
  "ring_evict (max_turns slots) (max_bytes slots) es (ring_bytes es) =
     Some (drop_over (ring_over slots) es, ring_bytes (drop_over (ring_over slots) es))"
  by (induction es) (auto simp: ring_over_def)

lemma SessionRing_record_spec:
  assumes "sr_bytes r = ring_bytes (sr_turns r)"
  shows "SessionRing_record r (en_payload e) (en_origin e) slots =
    (let es = drop_over (ring_over slots) (sr_turns r @ [e])
     in Some \<lparr>sr_turns = es, sr_bytes = ring_bytes es, sr_max_turns = max_turns slots, sr_max_bytes = max_bytes slots\<rparr>)"
  using ring_evict_drop_over [of slots "sr_turns r @ [e]"] assms
  by (cases e) (simp add: SessionRing_record_def Let_def)

lemma session_ring_updates [simp]:
  "session_ring (t\<lparr>tr_local_origin_turns := n\<rparr>) key = session_ring t key"
  "session_ring (t\<lparr>tr_mesh_origin_turns := n\<rparr>) key = session_ring t key"
  "session_ring (t\<lparr>tr_sessions := (tr_sessions t')(key' \<mapsto> r)\<rparr>) key = (if key = key' then r else session_ring t' key)"
  by (simp_all add: session_ring_def)

lemma TurnRing_record_spec:
  assumes "ring_inv t"
  obtains t' where "ring_push slots t key e = Some t'" and "ring_inv t'"
    and "ring_turns t' = (ring_turns t)(key := drop_over (ring_over (slots key)) (ring_turns t key @ [e]))"
proof -
  let ?es = "drop_over (ring_over (slots key)) (ring_turns t key @ [e])"
  have "sr_bytes (session_ring t key) = ring_bytes (sr_turns (session_ring t key))"
    using assms by (simp add: ring_inv_def ring_turns_def)
  from SessionRing_record_spec [OF this, of e "slots key"]
  obtain t' where t': "ring_push slots t key e = Some t'"
    and ring: "\<And>k. session_ring t' k = (if k = key then
        \<lparr>sr_turns = ?es, sr_bytes = ring_bytes ?es, sr_max_turns = max_turns (slots key),
         sr_max_bytes = max_bytes (slots key)\<rparr> else session_ring t k)"
    by (cases "en_origin e") (simp_all add: ring_push_def TurnRing_record_def Let_def ring_turns_def)
  show thesis
  proof
    show "ring_push slots t key e = Some t'"
      by (rule t')
    show "ring_inv t'"
      using assms by (simp add: ring_inv_def ring_turns_def ring)
    show "ring_turns t' = (ring_turns t)(key := ?es)"
      by (rule ext) (simp add: ring_turns_def ring)
  qed
qed

interpretation ring: drop_oldest "ring_push slots" ring_turns ring_inv "\<lambda>key. ring_over (slots key)" for slots
proof unfold_locales
  fix t :: TurnRingState and key e t'
  assume inv: "ring_inv t"
  show "\<exists>t'. ring_push slots t key e = Some t'"
    by (rule TurnRing_record_spec [OF inv, of slots key e]) blast
  assume t': "ring_push slots t key e = Some t'"
  show "ring_inv t'"
    by (rule TurnRing_record_spec [OF inv, of slots key e]) (simp add: t')
  show "ring_turns t' = (ring_turns t)(key := drop_over (ring_over (slots key)) (ring_turns t key @ [e]))"
    by (rule TurnRing_record_spec [OF inv, of slots key e]) (simp add: t')
qed (auto simp: ring_over_def)

lemma TurnRing_new_ring [simp]: "ring_inv TurnRing_new" "ring_turns TurnRing_new key = []"
  by (simp_all add: ring_inv_def ring_turns_def session_ring_def TurnRing_new_def SessionRing_default_def)

lemma effective_slots_bounds: "1 \<le> effective_slots slots \<and> effective_slots slots \<le> 12"
  by (simp add: effective_slots_def MAX_GAME_SLOTS_def)

lemma max_turns_eq: "max_turns slots = 1080 * effective_slots slots"
  by (simp add: max_turns_def RING_WINDOW_SECS_def DROP_UNLOCK_SECS_def NOMINAL_TURNS_PER_SEC_PER_SLOT_def)

lemma max_bytes_bounds: "1048576 \<le> max_bytes slots" "max_bytes slots \<le> 4194304"
  using effective_slots_bounds [of slots]
  by (auto simp: max_bytes_def Let_def TURN_RING_FULL_BYTES_def TURN_RING_MIN_BYTES_def MAX_GAME_SLOTS_def)

text \<open>C32: Starting from an empty registry, any interleaving of recorded turns over any sessions succeeds
  (the running byte total never underflows), and afterwards each session's ring is the longest suffix of
  that session's own turns that respects both the count and the byte bound: nothing is evicted that could
  have been kept, nothing is kept out of order, and no session's traffic evicts another's.\<close>

theorem turn_ring_longest_suffix:
  "\<exists>t. push_all (ring_push slots) TurnRing_new evs = Some t \<and>
    (\<forall>key. suffix (ring_turns t key) (pushed_to key evs) \<and>
       length (ring_turns t key) \<le> max_turns (slots key) \<and>
       ring_bytes (ring_turns t key) \<le> max_bytes (slots key) \<and>
       sr_bytes (session_ring t key) = ring_bytes (ring_turns t key) \<and>
       (\<forall>es. suffix es (pushed_to key evs) \<longrightarrow> \<not> ring_over (slots key) es \<longrightarrow> suffix es (ring_turns t key)))"
proof -
  obtain t where t: "push_all (ring_push slots) TurnRing_new evs = Some t" "ring_inv t"
    and r: "\<And>key. suffix (ring_turns t key) (pushed_to key evs) \<and>
       (ring_turns t key = [] \<or> \<not> ring_over (slots key) (ring_turns t key)) \<and>
       (\<forall>es. suffix es (pushed_to key evs) \<longrightarrow> \<not> ring_over (slots key) es \<longrightarrow> suffix es (ring_turns t key))"
    using ring.run_longest [of TurnRing_new slots evs] by auto
  have "length (ring_turns t key) \<le> max_turns (slots key) \<and> ring_bytes (ring_turns t key) \<le> max_bytes (slots key)" for key
    using r [of key] by (auto simp: ring_over_def)
  then show ?thesis
    using t r by (auto simp: ring_inv_def)
qed


lemma matching_ring_turns:
  "TurnRing_matching t key cursors origin absent skip =
     map en_payload (filter (entry_matches cursors origin absent skip) (ring_turns t key))"
  by (simp add: TurnRing_matching_def ring_turns_def session_ring_def SessionRing_default_def split: option.split)

definition clear_hash :: "Payload \<Rightarrow> Payload" where
  "clear_hash p = p\<lparr>p_state_hash := None\<rparr>"

text \<open>C9: A client that was away while its session forwarded at most the nominal window's worth of turns
  for its slots (and no more command bytes than the byte bound) is replayed exactly the turns it is
  missing, in recorded order, without state hashes: the outage's turns from every other slot that are at
  or past the slot's cursor, or all of them for a slot the client has no cursor for.  Turns of other
  sessions recorded in between do not matter.\<close>

theorem replay_covers_outage:
  assumes "pushed_to key evs = before @ missed"
    and "1 \<le> slots key" and "slots key \<le> MAX_GAME_SLOTS"
    and "length missed \<le> RING_WINDOW_SECS * NOMINAL_TURNS_PER_SEC_PER_SLOT * slots key"
    and "ring_bytes missed \<le> max_bytes (slots key)"
    and "list_all (\<lambda>e. \<not> entry_matches cursors None True (Some own) e) before"
  shows "\<exists>t. push_all (ring_push slots) TurnRing_new evs = Some t \<and>
    TurnRing_replay t key cursors own =
      map (clear_hash \<circ> en_payload) (filter (entry_matches cursors None True (Some own)) missed)"
proof -
  let ?P = "entry_matches cursors None True (Some own)"
  obtain t where t: "push_all (ring_push slots) TurnRing_new evs = Some t"
    and r: "suffix (ring_turns t key) (pushed_to key evs)"
      "\<And>es. suffix es (pushed_to key evs) \<Longrightarrow> \<not> ring_over (slots key) es \<Longrightarrow> suffix es (ring_turns t key)"
    using ring.run_longest [of TurnRing_new slots evs] by auto
  have "\<not> ring_over (slots key) missed"
    using assms(2-5)
    by (simp add: ring_over_def max_turns_eq effective_slots_def RING_WINDOW_SECS_def DROP_UNLOCK_SECS_def
        NOMINAL_TURNS_PER_SEC_PER_SLOT_def)
  then have "suffix missed (ring_turns t key)"
    using r(2) assms(1) by (simp add: suffixI)
  then obtain kept where kept: "ring_turns t key = kept @ missed"
    by (auto simp: suffix_def)
  have "set kept \<subseteq> set before"
    using r(1) assms(1) by (auto simp: kept suffix_def)
  then have "filter ?P kept = []"
    using assms(6) by (auto simp: filter_empty_conv list_all_iff)
  then have "TurnRing_replay t key cursors own = map (clear_hash \<circ> en_payload) (filter ?P missed)"
    by (simp add: TurnRing_replay_def matching_ring_turns kept clear_hash_def)
  then show ?thesis
    using t by blast
qed

definition ring_probe_turn :: "u32 \<Rightarrow> u64 \<Rightarrow> Entry" where
  "ring_probe_turn slot s =
     \<lparr>en_payload = \<lparr>p_seq = s, p_slot = slot, p_commands = [5, 6], p_game_frame_count = None, p_sync_generation = None,
        p_buffer_directive = None, p_state_hash = Some \<lparr>sh_step = 1, sh_hash = 2\<rparr>\<rparr>, en_origin = Mesh\<rparr>"

definition ring_probe_key :: "u64 \<Rightarrow> SessionKey" where
  "ring_probe_key n = \<lparr>sk_tenant = ''t'', sk_session = n\<rparr>"

definition ring_probe_log :: "(SessionKey \<times> Entry) list" where
  "ring_probe_log = [(ring_probe_key 1, ring_probe_turn 1 0), (ring_probe_key 2, ring_probe_turn 1 0),
     (ring_probe_key 1, ring_probe_turn 1 1), (ring_probe_key 1, ring_probe_turn 3 0), (ring_probe_key 1, ring_probe_turn 2 0)]"

theorem turn_ring_longest_suffix_witness:
  "\<exists>t. push_all (ring_push (\<lambda>_. 3)) TurnRing_new ring_probe_log = Some t \<and>
     ring_turns t (ring_probe_key 2) = [ring_probe_turn 1 0]"
proof -
  obtain t where t: "push_all (ring_push (\<lambda>_. 3)) TurnRing_new ring_probe_log = Some t"
    and pre: "suffix (ring_turns t (ring_probe_key 2)) (pushed_to (ring_probe_key 2) ring_probe_log)"
    and all: "\<forall>es. suffix es (pushed_to (ring_probe_key 2) ring_probe_log) \<longrightarrow> \<not> ring_over 3 es \<longrightarrow>
      suffix es (ring_turns t (ring_probe_key 2))"
    using turn_ring_longest_suffix [of "\<lambda>_. 3" ring_probe_log] by blast
  have p: "pushed_to (ring_probe_key 2) ring_probe_log = [ring_probe_turn 1 0]"
    by (simp add: ring_probe_log_def ring_probe_key_def)
  have "\<not> ring_over 3 [ring_probe_turn 1 0]"
    using max_bytes_bounds(1) [of 3]
    by (simp add: ring_over_def max_turns_eq effective_slots_def MAX_GAME_SLOTS_def entry_cost_def
        payload_command_bytes_def ring_probe_turn_def)
  then have "suffix [ring_probe_turn 1 0] (ring_turns t (ring_probe_key 2))"
    using all p by simp
  then show ?thesis
    using t pre p by (metis suffix_order.antisym)
qed

theorem replay_covers_outage_witness:
  "\<exists>t. push_all (ring_push (\<lambda>_. 3)) TurnRing_new ring_probe_log = Some t \<and>
    TurnRing_replay t (ring_probe_key 1) [1 \<mapsto> 1] 3 =
      map (clear_hash \<circ> en_payload) [ring_probe_turn 1 1, ring_probe_turn 2 0]"
proof -
  let ?missed = "[ring_probe_turn 1 1, ring_probe_turn 3 0, ring_probe_turn 2 0]"
  have "filter (entry_matches [1 \<mapsto> 1] None True (Some 3)) ?missed = [ring_probe_turn 1 1, ring_probe_turn 2 0]"
    by (simp add: entry_matches_def ring_probe_turn_def slot_try_from_def)
  moreover have "pushed_to (ring_probe_key 1) ring_probe_log = [ring_probe_turn 1 0] @ ?missed"
    by (simp add: ring_probe_log_def ring_probe_key_def)
  moreover have "ring_bytes ?missed \<le> max_bytes 3"
    by (rule order_trans [OF _ max_bytes_bounds(1)])
       (simp add: entry_cost_def payload_command_bytes_def ring_probe_turn_def)
  moreover have "list_all (\<lambda>e. \<not> entry_matches [1 \<mapsto> 1] None True (Some 3) e) [ring_probe_turn 1 0]"
    by (simp add: entry_matches_def ring_probe_turn_def slot_try_from_def)
  ultimately show ?thesis
    using replay_covers_outage [of "ring_probe_key 1" ring_probe_log "[ring_probe_turn 1 0]" ?missed "\<lambda>_. 3" "[1 \<mapsto> 1]" 3]
    by (simp add: MAX_GAME_SLOTS_def RING_WINDOW_SECS_def DROP_UNLOCK_SECS_def NOMINAL_TURNS_PER_SEC_PER_SLOT_def)
qed

end
