(* ===== verification/Messages.thy ===== *)
theory Messages
  imports Wire
begin

text \<open>
  The messages of \<open>proto/proto/wire.proto\<close> that the two reliable control streams carry: the client and
  relay \<open>ControlFrame\<close> and the relay and relay \<open>MeshControlFrame\<close>, with every kind they can hold.  A
  protobuf \<open>oneof\<close> is a datatype behind an \<open>option\<close>: a kind the reader's schema predates decodes as
  \<open>None\<close>.  \<open>sint32\<close> and \<open>sint64\<close> fields are words read with \<open>sint\<close>.
\<close>

section \<open>Client and relay\<close>

record LobbyCommand =
  lc_slot :: u32
  lc_payload :: "u8 list"
  lc_seq :: "u64 option"

record GameChat =
  gc_slot :: u32
  gc_target_kind :: u32
  gc_target_slot :: u32
  gc_text :: string

record PlayerSkin =
  ps_slot :: u32
  ps_payload :: "u8 list"

record RegionLabel =
  rl_relay_id :: u64
  rl_region :: string

record PhaseDirective =
  pd_delay_us :: u32
  pd_slew_us_per_s :: u32

record LeadReport =
  lr_through_step :: u64
  lr_median_us :: u32
  lr_p90_us :: u32
  lr_samples :: u32
  lr_pause_us :: u64

record SlotConnectivity =
  sc_slot :: u32
  sc_connected :: bool
  sc_connection_epoch :: "u64 option"

record RequestDrop =
  rd_slot :: u32
  rd_requester :: u32

record RollbackStats =
  rs_version :: u32
  rs_through_turn :: u32
  rs_rollback_target :: u32
  rs_prediction_limit :: u32
  rs_ticks :: u32
  rs_rollback_histogram :: "u32 list"
  rs_pipe_histogram :: "u32 list"
  rs_capped_ticks :: u32
  rs_rollbacks :: u32
  rs_resimulated_frames :: u32
  rs_deepest_rollback :: u32
  rs_predicted_steps :: u32
  rs_mispredicted_turns :: u32
  rs_confirmed_predictions :: u32
  rs_caught_up_frames :: u32
  rs_held_back_ticks :: u32
  rs_lead_changes :: u32
  rs_schedule_corrections :: u32
  rs_schedule_corrected_us :: i64
  rs_holds_undone :: u32
  rs_clock_stopped_us :: u64
  rs_lead_reports :: u32
  rs_lead_p90_max_us :: u32
  rs_lead_p90_sum_us :: i64
  rs_worst_tick_us :: u64
  rs_slow_ticks :: u32
  rs_restore_us :: u64
  rs_snapshot_us :: u64
  rs_step_us :: u64

datatype ControlKind =
    KOversizeTurn Payload
  | KLeaveDirective LeaveDirective
  | KLeaveIntent
  | KGameResult "u8 list"
  | KLobbyCommand LobbyCommand
  | KGameChat GameChat
  | KSessionStart "u32 option"
  | KSlotConnectivity SlotConnectivity
  | KRequestDrop RequestDrop
  | KPlayerSkin PlayerSkin
  | KRegionLabels "RegionLabel list"
  | KPhaseDirective PhaseDirective
  | KPhaseApplied u32
  | KGameStarted
  | KLoadStateProbe u64
  | KLoadStateProbeAck u64
  | KLeadReport LeadReport
  | KRollbackStats RollbackStats

record ControlFrame =
  cf_kind :: "ControlKind option"

section \<open>Relay and relay\<close>

record DeliveryCursor =
  dc_origin_slot :: u32
  dc_delivered_seq :: u64

record DeliveryCursors =
  dcs_dest_slot :: u32
  dcs_cursors :: "DeliveryCursor list"

record MeshResumeCursor =
  mrc_origin_slot :: u32
  mrc_next_seq :: u64

record MeshResumeCursors =
  mrs_cursors :: "MeshResumeCursor list"
  mrs_resuming :: bool
  mrs_prefer_recent :: bool

record MeshAckCursor =
  mac_slot :: u32
  mac_delivered_through :: u64

record SlotDeparted =
  sd_slot :: u32
  sd_last_frame :: "u32 option"
  sd_reason :: u32
  sd_reachable_frame :: "u32 option"
  sd_result_payload :: "u8 list"
  sd_result_arrival_ms :: u64
  sd_result_session_frame :: "u32 option"
  sd_result_slot_frame :: "u32 option"
  sd_connection_epoch :: "u64 option"
  sd_final_turn_count :: "u64 option"
  sd_finalized :: bool

record FinalizeDrop =
  fd_slot :: u32
  fd_connection_epoch :: "u64 option"

record FinalizeDropResult =
  fr_slot :: u32
  fr_connection_epoch :: "u64 option"
  fr_outcome :: u32
  fr_final_turn_count :: "u64 option"

record EvictSlot =
  ev_slot :: u32
  ev_sync_ordinal :: u64

record ClockStop =
  ck_step :: u64
  ck_pause_us :: u64

record SessionClock =
  cl_anchor_step :: u64
  cl_since_anchor_us :: u64
  cl_final_through :: u64
  cl_base_step :: u64
  cl_base_pause_us :: u64
  cl_stops :: "ClockStop list"

datatype MeshKind =
    MSlotDeparted SlotDeparted
  | MLeaveDirective LeaveDirective
  | MOversizeTurn Payload
  | MLobbyCommand LobbyCommand
  | MGameChat GameChat
  | MSlotPresent u32
  | MSessionStart "u32 option"
  | MSlotConnectivity SlotConnectivity
  | MRequestDrop RequestDrop
  | MDeliveryCursors DeliveryCursors
  | MMeshResumeCursors MeshResumeCursors
  | MMeshAckCursors "MeshAckCursor list"
  | MPlayerSkin PlayerSkin
  | MFinalizeDrop FinalizeDrop
  | MFinalizeDropResult FinalizeDropResult
  | MSlotStarted u32
  | MEvictSlot EvictSlot
  | MSessionClock SessionClock

record MeshControlFrame =
  mf_session :: u64
  mf_kind :: "MeshKind option"

definition MeshControlFrame_default :: MeshControlFrame where
  "MeshControlFrame_default = \<lparr>mf_session = 0, mf_kind = None\<rparr>"

text \<open>The relay's ceiling on the lobby commands of one session (\<open>proto/src/lobby.rs\<close>).\<close>

definition LOG_MAX_COMMANDS :: nat where
  "LOG_MAX_COMMANDS = 1024"

definition LOG_MAX_BYTES :: nat where
  "LOG_MAX_BYTES = 256 * 1024"

end
