(* ===== verification/Framing.thy ===== *)
theory Framing
  imports Prelude "HOL-Library.Sublist"
begin

text \<open>
  Framing over the reliable byte streams: \<open>proto/src/control_stream/mod.rs\<close> and
  \<open>transport/src/control_framing.rs\<close>.  The protobuf encoder and decoder that prost generates are not
  part of the repository: they are the two fields of a \<open>msg_codec\<close>, an argument of the framing, and
  \<open>msg_ok\<close> states what the framing relies on for one message.  The QUIC send half is the argument
  \<open>write_all\<close>; \<open>stream_ok\<close> is its documented behaviour.  A receive stream is the bytes it will still
  yield before it ends.

  The locale \<open>framed_stream\<close> is the contract of a frame format; its client lemmas are that a reader
  recovers exactly the frames that were written, and a prefix of them when the stream is cut.
\<close>

unbundle bit_operations_syntax

section \<open>Little-endian integers\<close>

fun le_bytes :: "nat \<Rightarrow> 'a::len word \<Rightarrow> u8 list" where
  "le_bytes 0 w = []"
| "le_bytes (Suc n) w = ucast w # le_bytes n (drop_bit 8 w)"

fun of_le_bytes :: "u8 list \<Rightarrow> 'a::len word" where
  "of_le_bytes [] = 0"
| "of_le_bytes (b # bs) = ucast b OR push_bit 8 (of_le_bytes bs)"

lemma length_le_bytes [simp]: "length (le_bytes n w) = n"
  by (induction n arbitrary: w) simp_all

lemma le_bytes_eq_Nil [simp]: "le_bytes n w = [] \<longleftrightarrow> n = 0"
  using length_le_bytes [of n w] by (cases n) auto

lemma of_le_bytes_le_bytes: "of_le_bytes (le_bytes n w) = take_bit (8 * n) (w :: 'a::len word)"
proof (induction n arbitrary: w)
  case (Suc n)
  have "of_le_bytes (le_bytes (Suc n) w) = ucast (ucast w :: u8) OR push_bit 8 (take_bit (8 * n) (drop_bit 8 w))"
    by (simp add: Suc)
  also have "\<dots> = take_bit (8 * Suc n) w"
    by (rule bit_word_eqI) (auto simp: bit_simps)
  finally show ?case .
qed simp

lemma bit_of_le_bytes: "bit (of_le_bytes bs :: 'a::len word) n \<Longrightarrow> n < 8 * length bs"
proof (induction bs arbitrary: n)
  case (Cons b bs)
  then consider "bit b n" | "bit (of_le_bytes bs :: 'a word) (n - 8)"
    by (auto simp: bit_simps)
  then show ?case
  proof cases
    case 1
    then show ?thesis
      using bit_imp_le_length [OF 1] by simp
  next
    case 2
    then show ?thesis
      using Cons.IH [OF 2] by simp
  qed
qed simp

lemma le_bytes_of_le_bytes:
  "8 * length bs \<le> LENGTH('a::len) \<Longrightarrow> le_bytes (length bs) (of_le_bytes bs :: 'a word) = bs"
proof (induction bs)
  case (Cons b bs)
  let ?w = "of_le_bytes bs :: 'a word"
  have "ucast (ucast b OR push_bit 8 ?w) = b"
    using Cons.prems by (intro bit_word_eqI) (auto simp: bit_simps)
  moreover have "drop_bit 8 (ucast b OR push_bit 8 ?w) = ?w"
  proof (rule bit_word_eqI)
    fix n
    have "bit ?w n \<Longrightarrow> 8 + n < LENGTH('a)"
      using bit_of_le_bytes [of bs n, where 'a = 'a] Cons.prems by simp
    moreover have "\<not> bit b (8 + n)"
      using bit_imp_le_length [of b "8 + n"] by auto
    ultimately show "bit (drop_bit 8 (ucast b OR push_bit 8 ?w)) n = bit ?w n"
      by (auto simp: bit_simps)
  qed
  ultimately show ?case
    using Cons by simp
qed simp

lemma le_bytes_roundtrip [simp]:
  "of_le_bytes (le_bytes 4 (w :: u32)) = w" "of_le_bytes (le_bytes 8 (v :: u64)) = v"
  using of_le_bytes_le_bytes [of 4 w] of_le_bytes_le_bytes [of 8 v] by (simp_all add: take_bit_word_eq_self)

section \<open>Length-prefixed frames\<close>

record ('m, 'd) msg_codec =
  mc_encode :: "'m \<Rightarrow> u8 list"
  mc_decode :: "u8 list \<Rightarrow> 'd + 'm"

definition MAX_CONTROL_FRAME_LEN :: nat where
  "MAX_CONTROL_FRAME_LEN = 64 * 1024"

definition CONTROL_LEN_PREFIX :: nat where
  "CONTROL_LEN_PREFIX = 4"

datatype 'd ControlStreamError = FrameTooLarge nat | Decode 'd

definition encode_frame :: "('m, 'd) msg_codec \<Rightarrow> 'm \<Rightarrow> 'd ControlStreamError + u8 list" where
  "encode_frame c frame =
     (let len = length (mc_encode c frame)
      in if MAX_CONTROL_FRAME_LEN < len then Inl (FrameTooLarge len)
         else Inr (le_bytes CONTROL_LEN_PREFIX (of_nat len :: u32) @ mc_encode c frame))"

definition frame_len :: "u8 list \<Rightarrow> 'd ControlStreamError + nat" where
  "frame_len pre =
     (let len = unat (of_le_bytes pre :: u32)
      in if MAX_CONTROL_FRAME_LEN < len then Inl (FrameTooLarge len) else Inr len)"

definition decode_frame :: "('m, 'd) msg_codec \<Rightarrow> u8 list \<Rightarrow> 'd ControlStreamError + 'm" where
  "decode_frame c body = (case mc_decode c body of Inl e \<Rightarrow> Inl (Decode e) | Inr m \<Rightarrow> Inr m)"

definition read_exact :: "nat \<Rightarrow> u8 list \<Rightarrow> (u8 list \<times> u8 list) option" where
  "read_exact n s = (if n \<le> length s then Some (take n s, drop n s) else None)"

definition read_one_frame :: "('m, 'd) msg_codec \<Rightarrow> u8 list \<Rightarrow> ('m \<times> u8 list) option" where
  "read_one_frame c recv =
     (case read_exact CONTROL_LEN_PREFIX recv of
        None \<Rightarrow> None
      | Some (pre, recv1) \<Rightarrow>
          (case frame_len pre :: 'd ControlStreamError + nat of
             Inl _ \<Rightarrow> None
           | Inr len \<Rightarrow>
               (case read_exact len recv1 of
                  None \<Rightarrow> None
                | Some (body, recv2) \<Rightarrow>
                    (case decode_frame c body of
                       Inl _ \<Rightarrow> None
                     | Inr frame \<Rightarrow> Some (frame, recv2)))))"

datatype ('d, 'w) ControlSendError = Frame "'d ControlStreamError" | Write 'w

definition write_frame ::
    "('m, 'd) msg_codec \<Rightarrow> ('s \<Rightarrow> u8 list \<Rightarrow> ('w + unit) \<times> 's) \<Rightarrow> 's \<Rightarrow> 'm \<Rightarrow> (('d, 'w) ControlSendError + unit) \<times> 's" where
  "write_frame c write_all control_send frame =
     (case encode_frame c frame of
        Inl e \<Rightarrow> (Inl (Frame e), control_send)
      | Inr encoded \<Rightarrow>
          (case write_all control_send encoded of
             (Inl e, s) \<Rightarrow> (Inl (Write e), s)
           | (Inr _, s) \<Rightarrow> (Inr (), s)))"

section \<open>What the framing relies on\<close>

definition msg_ok :: "('m, 'd) msg_codec \<Rightarrow> 'm \<Rightarrow> bool" where
  "msg_ok c m \<longleftrightarrow> mc_decode c (mc_encode c m) = Inr m"

definition stream_ok :: "('s \<Rightarrow> u8 list \<Rightarrow> ('w + unit) \<times> 's) \<Rightarrow> ('s \<Rightarrow> u8 list) \<Rightarrow> bool" where
  "stream_ok write_all written \<longleftrightarrow>
     (\<forall>s bytes. case write_all s bytes of
        (Inr _, s') \<Rightarrow> written s' = written s @ bytes
      | (Inl _, s') \<Rightarrow> (\<exists>p. prefix p bytes \<and> written s' = written s @ p))"

section \<open>Reading frames until the stream ends\<close>

function read_frames :: "(u8 list \<Rightarrow> ('r \<times> u8 list) option) \<Rightarrow> u8 list \<Rightarrow> 'r list" where
  "read_frames read_one s =
     (case read_one s of
        None \<Rightarrow> []
      | Some (r, rest) \<Rightarrow> if length rest < length s then r # read_frames read_one rest else [])"
  by pat_completeness auto
termination
  by (relation "measure (length \<circ> snd)") auto

declare read_frames.simps [simp del]

locale framed_stream =
  fixes frame :: "'m \<Rightarrow> u8 list"
    and val :: "'m \<Rightarrow> 'r"
    and read_one :: "u8 list \<Rightarrow> ('r \<times> u8 list) option"
    and ok :: "'m \<Rightarrow> bool"
  assumes read_frame: "ok m \<Longrightarrow> read_one (frame m @ rest) = Some (val m, rest)"
    and read_cut: "ok m \<Longrightarrow> strict_prefix p (frame m) \<Longrightarrow> read_one p = None"
    and read_shorter: "read_one s = Some (r, rest) \<Longrightarrow> length rest < length s"
begin

lemma read_frames_step:
  "read_frames read_one s = (case read_one s of None \<Rightarrow> [] | Some (r, rest) \<Rightarrow> r # read_frames read_one rest)"
  using read_shorter by (subst read_frames.simps) (auto split: option.splits)

lemma read_frames_append: "ok m \<Longrightarrow> read_frames read_one (frame m @ rest) = val m # read_frames read_one rest"
  by (subst read_frames_step) (simp add: read_frame)

lemma read_frames_cut: "ok m \<Longrightarrow> strict_prefix p (frame m) \<Longrightarrow> read_frames read_one p = []"
  by (subst read_frames_step) (simp add: read_cut)

lemma read_frames_all:
  "list_all ok ms \<Longrightarrow> read_frames read_one (concat (map frame ms) @ rest) = map val ms @ read_frames read_one rest"
  by (induction ms) (simp_all add: read_frames_append)

lemma read_frames_nil: "read_frames read_one [] = []"
  by (subst read_frames.simps) (simp split: option.split)

lemma read_frames_prefix:
  "list_all ok ms \<Longrightarrow> prefix p (concat (map frame ms)) \<Longrightarrow>
    prefix (read_frames read_one p) (map val ms)"
proof (induction ms arbitrary: p)
  case (Cons m ms)
  then have ok: "ok m" and p: "prefix p (frame m @ concat (map frame ms))"
    by simp_all
  show ?case
  proof (cases "strict_prefix p (frame m)")
    case True
    then show ?thesis
      using ok by (simp add: read_frames_cut)
  next
    case False
    then obtain q where q: "p = frame m @ q" "prefix q (concat (map frame ms))"
      using p by (auto simp: prefix_append strict_prefix_def)
    then show ?thesis
      using ok Cons by (simp add: read_frames_append)
  qed
qed (simp add: read_frames_nil)

end

section \<open>The length-prefixed format keeps the contract\<close>

definition frame_bytes :: "('m, 'd) msg_codec \<Rightarrow> 'm \<Rightarrow> u8 list" where
  "frame_bytes c m = le_bytes CONTROL_LEN_PREFIX (of_nat (length (mc_encode c m)) :: u32) @ mc_encode c m"

definition frame_ok :: "('m, 'd) msg_codec \<Rightarrow> 'm \<Rightarrow> bool" where
  "frame_ok c m \<longleftrightarrow> msg_ok c m \<and> length (mc_encode c m) \<le> MAX_CONTROL_FRAME_LEN"

lemma encode_frame_ok: "encode_frame c m =
    (if length (mc_encode c m) \<le> MAX_CONTROL_FRAME_LEN then Inr (frame_bytes c m)
     else Inl (FrameTooLarge (length (mc_encode c m))))"
  by (simp add: encode_frame_def frame_bytes_def Let_def)

lemma frame_len_prefix:
  "len \<le> MAX_CONTROL_FRAME_LEN \<Longrightarrow> frame_len (le_bytes CONTROL_LEN_PREFIX (of_nat len :: u32)) = Inr len"
  by (simp add: frame_len_def CONTROL_LEN_PREFIX_def MAX_CONTROL_FRAME_LEN_def unsigned_of_nat take_bit_nat_eq_self)

lemma read_one_frame_shorter:
  "read_one_frame c s = Some (m, rest) \<Longrightarrow> length rest < length s"
  by (auto simp: read_one_frame_def read_exact_def CONTROL_LEN_PREFIX_def split: option.splits sum.splits if_splits)
     arith

interpretation prefixed: framed_stream "frame_bytes c" id "read_one_frame c" "frame_ok c" for c :: "('m, 'd) msg_codec"
proof unfold_locales
  fix m :: 'm and p rest :: "u8 list"
  assume ok: "frame_ok c m"
  let ?body = "mc_encode c m"
  let ?pre = "le_bytes CONTROL_LEN_PREFIX (of_nat (length ?body) :: u32)"
  have len: "frame_len ?pre = (Inr (length ?body) :: 'd ControlStreamError + nat)"
    using ok by (simp add: frame_ok_def frame_len_prefix)
  show "read_one_frame c (frame_bytes c m @ rest) = Some (id m, rest)"
    using ok len
    by (simp add: read_one_frame_def frame_bytes_def read_exact_def decode_frame_def frame_ok_def msg_ok_def)
  assume cut: "strict_prefix p (frame_bytes c m)"
  show "read_one_frame c p = None"
  proof (cases "length p < CONTROL_LEN_PREFIX")
    case True
    then show ?thesis
      by (simp add: read_one_frame_def read_exact_def)
  next
    case False
    obtain q where "frame_bytes c m = p @ q" "q \<noteq> []"
      using cut by (auto simp: strict_prefix_def prefix_def)
    then have "take CONTROL_LEN_PREFIX p = ?pre" "length p < CONTROL_LEN_PREFIX + length ?body"
      using False by (auto simp: frame_bytes_def append_eq_append_conv_if dest: arg_cong [of _ _ length]
          split: if_splits)
    then show ?thesis
      using False len by (auto simp: read_one_frame_def read_exact_def)
  qed
qed (rule read_one_frame_shorter)


section \<open>A sequence of sends\<close>

text \<open>Senders run in order and the sequence stops at the first failure, as every caller does with a
  broken stream.  \<open>sends\<close> is what one send does to the stream: it writes the frames it stands for, or it
  fails with none or a part of their bytes written.\<close>

fun send_all :: "('s \<Rightarrow> 'op \<Rightarrow> ('e + unit) \<times> 's) \<Rightarrow> 's \<Rightarrow> 'op list \<Rightarrow> ('e + unit) \<times> 's" where
  "send_all send s [] = (Inr (), s)"
| "send_all send s (x # xs) = (case send s x of (Inl e, s') \<Rightarrow> (Inl e, s') | (Inr _, s') \<Rightarrow> send_all send s' xs)"

definition sends ::
    "('m, 'd) msg_codec \<Rightarrow> ('s \<Rightarrow> u8 list) \<Rightarrow> ('s \<Rightarrow> 'op \<Rightarrow> ('e + unit) \<times> 's) \<Rightarrow> ('op \<Rightarrow> 'm list) \<Rightarrow> 'op \<Rightarrow> bool" where
  "sends c written send frames x \<longleftrightarrow>
     (\<forall>s. case send s x of
        (Inr _, s') \<Rightarrow> list_all (frame_ok c) (frames x) \<and> written s' = written s @ concat (map (frame_bytes c) (frames x))
      | (Inl _, s') \<Rightarrow>
          written s' = written s \<or>
          (list_all (frame_ok c) (frames x) \<and>
           (\<exists>p. prefix p (concat (map (frame_bytes c) (frames x))) \<and> written s' = written s @ p)))"

lemma sends_cong:
  assumes "\<And>s. send s x = send' s y" and "frames x = frames' y"
  shows "sends c written send frames x \<longleftrightarrow> sends c written send' frames' y"
  unfolding sends_def assms by (rule refl)

lemma stream_okD:
  assumes "stream_ok w written"
  shows "w s b = (Inr u, s') \<Longrightarrow> written s' = written s @ b"
    and "w s b = (Inl e, s') \<Longrightarrow> \<exists>p. prefix p b \<and> written s' = written s @ p"
  using assms [unfolded stream_ok_def, THEN spec, THEN spec, of b s] by simp_all

lemma write_frame_sends:
  assumes "stream_ok w written" and "msg_ok c (f x)"
  shows "sends c written (\<lambda>s x. write_frame c w s (f x)) (\<lambda>x. [f x]) x"
  using assms(2) stream_okD [OF assms(1)]
  by (fastforce simp: sends_def write_frame_def encode_frame_ok frame_ok_def split: sum.splits prod.splits if_splits)

lemma send_all_written:
  assumes "list_all (sends c written send frames) xs" and "send_all send s xs = (r, s')"
  obtains (cut) e p ms where "r = Inl e" and "written s' = written s @ p" and "list_all (frame_ok c) ms"
      and "prefix ms (concat (map frames xs))" and "prefix p (concat (map (frame_bytes c) ms))"
  | (whole) "r = Inr ()" and "written s' = written s @ concat (map (frame_bytes c) (concat (map frames xs)))"
      and "list_all (frame_ok c) (concat (map frames xs))"
  using assms
proof (induction xs arbitrary: s thesis)
  case Nil
  then show ?case
    by simp
next
  case (Cons x xs)
  obtain r1 s1 where x: "send s x = (r1, s1)"
    by (cases "send s x")
  have sx: "sends c written send frames x" and xs: "list_all (sends c written send frames) xs"
    using Cons.prems(3) by simp_all
  show ?case
  proof (cases r1)
    case (Inl e)
    then have r: "r = Inl e" "s' = s1"
      using Cons.prems(4) x by simp_all
    consider "written s1 = written s"
      | p where "list_all (frame_ok c) (frames x)" "prefix p (concat (map (frame_bytes c) (frames x)))"
          "written s1 = written s @ p"
      using sx [unfolded sends_def, THEN spec, of s] x Inl by auto
    then show ?thesis
      by cases (use r Cons.prems(1) [of e "[]" "[]"] Cons.prems(1) [of e _ "frames x"] in auto)
  next
    case (Inr u)
    have step: "list_all (frame_ok c) (frames x)"
      "written s1 = written s @ concat (map (frame_bytes c) (frames x))"
      using sx [unfolded sends_def, THEN spec, of s] x Inr by auto
    have rest: "send_all send s1 xs = (r, s')"
      using Cons.prems(4) x Inr by simp
    show ?thesis
    proof (rule Cons.IH [OF _ _ xs rest])
      fix e p ms
      assume "r = Inl e" "written s' = written s1 @ p" "list_all (frame_ok c) ms" "prefix ms (concat (map frames xs))"
        "prefix p (concat (map (frame_bytes c) ms))"
      then show ?thesis
        using step Cons.prems(1) [of e "concat (map (frame_bytes c) (frames x)) @ p" "frames x @ ms"] by simp
    next
      assume "r = Inr ()" "written s' = written s1 @ concat (map (frame_bytes c) (concat (map frames xs)))"
        "list_all (frame_ok c) (concat (map frames xs))"
      then show ?thesis
        using step Cons.prems(2) by simp
    qed
  qed
qed

lemma read_back_prefix:
  assumes "list_all (sends c written send frames) xs" and "written s = []" and "send_all send s xs = (r, s')"
    and "prefix p (written s')"
  shows "prefix (read_frames (read_one_frame c) p) (concat (map frames xs))"
  using assms(1,3)
proof (cases rule: send_all_written)
  case (cut e q ms)
  then have "prefix p (concat (map (frame_bytes c) ms))"
    using assms(2,4) by (auto intro: prefix_order.trans)
  from prefixed.read_frames_prefix [OF cut(3) this] show ?thesis
    using cut(4) by (auto intro: prefix_order.trans)
next
  case whole
  then have "prefix p (concat (map (frame_bytes c) (concat (map frames xs))))"
    using assms(2,4) by simp
  from prefixed.read_frames_prefix [OF whole(3) this] show ?thesis
    by simp
qed

lemma read_back_all:
  assumes "list_all (sends c written send frames) xs" and "written s = []" and "send_all send s xs = (Inr (), s')"
  shows "read_frames (read_one_frame c) (written s') = concat (map frames xs)"
  using assms(1,3)
proof (cases rule: send_all_written)
  case whole
  then show ?thesis
    using assms(2) prefixed.read_frames_all [OF whole(3), of "[]"] by (simp add: prefixed.read_frames_nil)
qed simp

end
