(* ===== verification/ControlStream.thy ===== *)
theory ControlStream
  imports Messages Framing
begin

text \<open>
  The client and relay control stream, \<open>transport/src/control.rs\<close>: the eighteen senders and the reader
  task.  A sender takes the codec, the stream's \<open>write_all\<close> and the stream.  The reader is a function of
  the bytes the stream yields and of how many values its consumer accepts before it drops its receiver.
\<close>

datatype ControlInbound =
    OversizeTurn Payload
  | Leave LeaveDirective
  | LeaveIntent
  | GameResult "u8 list"
  | GameStarted
  | Lobby LobbyCommand
  | Chat GameChat
  | Skin PlayerSkin
  | SessionStart "u32 option"
  | Connectivity SlotConnectivity
  | RequestDrop u32
  | RegionLabels "RegionLabel list"
  | PhaseDirective PhaseDirective
  | PhaseApplied u32
  | LoadStateProbe u64
  | LoadStateProbeAck u64
  | LeadReport LeadReport
  | RollbackStats RollbackStats

type_synonym 'd control_codec = "(ControlFrame, 'd) msg_codec"

section \<open>The reader\<close>

definition control_inbound :: "ControlFrame \<Rightarrow> ControlInbound option" where
  "control_inbound frame =
     (case cf_kind frame of
        Some (KOversizeTurn payload) \<Rightarrow> Some (OversizeTurn payload)
      | Some (KLeaveDirective leave) \<Rightarrow> Some (Leave leave)
      | Some KLeaveIntent \<Rightarrow> Some LeaveIntent
      | Some (KGameResult payload) \<Rightarrow> Some (GameResult payload)
      | Some KGameStarted \<Rightarrow> Some GameStarted
      | Some (KLobbyCommand command) \<Rightarrow> Some (Lobby command)
      | Some (KGameChat chat) \<Rightarrow> Some (Chat chat)
      | Some (KPlayerSkin skin) \<Rightarrow> Some (Skin skin)
      | Some (KSessionStart initial_buffer_turns) \<Rightarrow> Some (SessionStart initial_buffer_turns)
      | Some (KSlotConnectivity connectivity) \<Rightarrow> Some (Connectivity connectivity)
      | Some (KRequestDrop request) \<Rightarrow> Some (RequestDrop (rd_slot request))
      | Some (KRegionLabels labels) \<Rightarrow> Some (RegionLabels labels)
      | Some (KPhaseDirective directive) \<Rightarrow> Some (PhaseDirective directive)
      | Some (KPhaseApplied delay_us) \<Rightarrow> Some (PhaseApplied delay_us)
      | Some (KLoadStateProbe probe_id) \<Rightarrow> Some (LoadStateProbe probe_id)
      | Some (KLoadStateProbeAck probe_id) \<Rightarrow> Some (LoadStateProbeAck probe_id)
      | Some (KLeadReport report) \<Rightarrow> Some (LeadReport report)
      | Some (KRollbackStats stats) \<Rightarrow> Some (RollbackStats stats)
      | None \<Rightarrow> None)"

function spawn_control_reader :: "'d control_codec \<Rightarrow> nat \<Rightarrow> u8 list \<Rightarrow> ControlInbound list" where
  "spawn_control_reader c capacity recv =
     (case read_one_frame c recv of
        None \<Rightarrow> []
      | Some (frame, recv') \<Rightarrow>
          (case control_inbound frame of
             None \<Rightarrow> spawn_control_reader c capacity recv'
           | Some inbound \<Rightarrow>
               (case capacity of
                  0 \<Rightarrow> []
                | Suc n \<Rightarrow> inbound # spawn_control_reader c n recv')))"
  by pat_completeness auto
termination
  by (relation "measure (\<lambda>(_, _, recv). length recv)") (auto dest: read_one_frame_shorter)

declare spawn_control_reader.simps [simp del]

section \<open>The senders\<close>

definition send_control_turn where
  "send_control_turn c write_all control_send payload =
     write_frame (c :: 'd control_codec) write_all control_send \<lparr>cf_kind = Some (KOversizeTurn payload)\<rparr>"

definition send_control_leave where
  "send_control_leave c write_all control_send leave =
     write_frame (c :: 'd control_codec) write_all control_send \<lparr>cf_kind = Some (KLeaveDirective leave)\<rparr>"

definition send_control_leave_intent where
  "send_control_leave_intent c write_all control_send =
     write_frame (c :: 'd control_codec) write_all control_send \<lparr>cf_kind = Some KLeaveIntent\<rparr>"

definition send_control_game_result where
  "send_control_game_result c write_all control_send payload =
     write_frame (c :: 'd control_codec) write_all control_send \<lparr>cf_kind = Some (KGameResult payload)\<rparr>"

definition send_control_rollback_stats where
  "send_control_rollback_stats c write_all control_send stats =
     write_frame (c :: 'd control_codec) write_all control_send \<lparr>cf_kind = Some (KRollbackStats stats)\<rparr>"

definition send_control_game_started where
  "send_control_game_started c write_all control_send =
     write_frame (c :: 'd control_codec) write_all control_send \<lparr>cf_kind = Some KGameStarted\<rparr>"

definition send_control_lobby where
  "send_control_lobby c write_all control_send command =
     write_frame (c :: 'd control_codec) write_all control_send \<lparr>cf_kind = Some (KLobbyCommand command)\<rparr>"

definition send_control_chat where
  "send_control_chat c write_all control_send chat =
     write_frame (c :: 'd control_codec) write_all control_send \<lparr>cf_kind = Some (KGameChat chat)\<rparr>"

definition send_control_skin where
  "send_control_skin c write_all control_send skin =
     write_frame (c :: 'd control_codec) write_all control_send \<lparr>cf_kind = Some (KPlayerSkin skin)\<rparr>"

definition send_control_session_start where
  "send_control_session_start c write_all control_send initial_buffer_turns =
     write_frame (c :: 'd control_codec) write_all control_send \<lparr>cf_kind = Some (KSessionStart initial_buffer_turns)\<rparr>"

definition send_control_connectivity where
  "send_control_connectivity c write_all control_send slot connected connection_epoch =
     write_frame (c :: 'd control_codec) write_all control_send
       \<lparr>cf_kind = Some (KSlotConnectivity
          \<lparr>sc_slot = ucast (slot :: u8), sc_connected = connected, sc_connection_epoch = connection_epoch\<rparr>)\<rparr>"

definition send_control_request_drop where
  "send_control_request_drop c write_all control_send slot =
     write_frame (c :: 'd control_codec) write_all control_send
       \<lparr>cf_kind = Some (KRequestDrop \<lparr>rd_slot = slot, rd_requester = 0\<rparr>)\<rparr>"

definition send_control_region_labels where
  "send_control_region_labels c write_all control_send labels =
     write_frame (c :: 'd control_codec) write_all control_send \<lparr>cf_kind = Some (KRegionLabels labels)\<rparr>"

definition send_control_phase_directive where
  "send_control_phase_directive c write_all control_send directive =
     write_frame (c :: 'd control_codec) write_all control_send \<lparr>cf_kind = Some (KPhaseDirective directive)\<rparr>"

definition send_control_lead_report where
  "send_control_lead_report c write_all control_send report =
     write_frame (c :: 'd control_codec) write_all control_send \<lparr>cf_kind = Some (KLeadReport report)\<rparr>"

definition send_control_phase_applied where
  "send_control_phase_applied c write_all control_send delay_us =
     write_frame (c :: 'd control_codec) write_all control_send \<lparr>cf_kind = Some (KPhaseApplied delay_us)\<rparr>"

definition send_control_load_state_probe where
  "send_control_load_state_probe c write_all control_send probe_id =
     write_frame (c :: 'd control_codec) write_all control_send \<lparr>cf_kind = Some (KLoadStateProbe probe_id)\<rparr>"

definition send_control_load_state_probe_ack where
  "send_control_load_state_probe_ack c write_all control_send probe_id =
     write_frame (c :: 'd control_codec) write_all control_send \<lparr>cf_kind = Some (KLoadStateProbeAck probe_id)\<rparr>"


section \<open>What one side sends the other side surfaces\<close>

datatype control_call =
    CallTurn Payload | CallLeave LeaveDirective | CallLeaveIntent | CallGameResult "u8 list"
  | CallRollbackStats RollbackStats | CallGameStarted | CallLobby LobbyCommand | CallChat GameChat
  | CallSkin PlayerSkin | CallSessionStart "u32 option" | CallConnectivity u8 bool "u64 option"
  | CallRequestDrop u32 | CallRegionLabels "RegionLabel list" | CallPhaseDirective PhaseDirective
  | CallLeadReport LeadReport | CallPhaseApplied u32 | CallLoadStateProbe u64 | CallLoadStateProbeAck u64

fun control_send where
  "control_send c w s (CallTurn payload) = send_control_turn c w s payload"
| "control_send c w s (CallLeave leave) = send_control_leave c w s leave"
| "control_send c w s CallLeaveIntent = send_control_leave_intent c w s"
| "control_send c w s (CallGameResult payload) = send_control_game_result c w s payload"
| "control_send c w s (CallRollbackStats stats) = send_control_rollback_stats c w s stats"
| "control_send c w s CallGameStarted = send_control_game_started c w s"
| "control_send c w s (CallLobby command) = send_control_lobby c w s command"
| "control_send c w s (CallChat chat) = send_control_chat c w s chat"
| "control_send c w s (CallSkin skin) = send_control_skin c w s skin"
| "control_send c w s (CallSessionStart turns) = send_control_session_start c w s turns"
| "control_send c w s (CallConnectivity slot connected epoch) = send_control_connectivity c w s slot connected epoch"
| "control_send c w s (CallRequestDrop slot) = send_control_request_drop c w s slot"
| "control_send c w s (CallRegionLabels labels) = send_control_region_labels c w s labels"
| "control_send c w s (CallPhaseDirective directive) = send_control_phase_directive c w s directive"
| "control_send c w s (CallLeadReport report) = send_control_lead_report c w s report"
| "control_send c w s (CallPhaseApplied delay_us) = send_control_phase_applied c w s delay_us"
| "control_send c w s (CallLoadStateProbe probe_id) = send_control_load_state_probe c w s probe_id"
| "control_send c w s (CallLoadStateProbeAck probe_id) = send_control_load_state_probe_ack c w s probe_id"

fun surfaced :: "control_call \<Rightarrow> ControlInbound" where
  "surfaced (CallTurn payload) = OversizeTurn payload"
| "surfaced (CallLeave leave) = Leave leave"
| "surfaced CallLeaveIntent = LeaveIntent"
| "surfaced (CallGameResult payload) = GameResult payload"
| "surfaced (CallRollbackStats stats) = RollbackStats stats"
| "surfaced CallGameStarted = GameStarted"
| "surfaced (CallLobby command) = Lobby command"
| "surfaced (CallChat chat) = Chat chat"
| "surfaced (CallSkin skin) = Skin skin"
| "surfaced (CallSessionStart turns) = SessionStart turns"
| "surfaced (CallConnectivity slot connected epoch) =
     Connectivity \<lparr>sc_slot = ucast slot, sc_connected = connected, sc_connection_epoch = epoch\<rparr>"
| "surfaced (CallRequestDrop slot) = RequestDrop slot"
| "surfaced (CallRegionLabels labels) = RegionLabels labels"
| "surfaced (CallPhaseDirective directive) = PhaseDirective directive"
| "surfaced (CallLeadReport report) = LeadReport report"
| "surfaced (CallPhaseApplied delay_us) = PhaseApplied delay_us"
| "surfaced (CallLoadStateProbe probe_id) = LoadStateProbe probe_id"
| "surfaced (CallLoadStateProbeAck probe_id) = LoadStateProbeAck probe_id"

fun call_frame :: "control_call \<Rightarrow> ControlFrame" where
  "call_frame (CallTurn payload) = \<lparr>cf_kind = Some (KOversizeTurn payload)\<rparr>"
| "call_frame (CallLeave leave) = \<lparr>cf_kind = Some (KLeaveDirective leave)\<rparr>"
| "call_frame CallLeaveIntent = \<lparr>cf_kind = Some KLeaveIntent\<rparr>"
| "call_frame (CallGameResult payload) = \<lparr>cf_kind = Some (KGameResult payload)\<rparr>"
| "call_frame (CallRollbackStats stats) = \<lparr>cf_kind = Some (KRollbackStats stats)\<rparr>"
| "call_frame CallGameStarted = \<lparr>cf_kind = Some KGameStarted\<rparr>"
| "call_frame (CallLobby command) = \<lparr>cf_kind = Some (KLobbyCommand command)\<rparr>"
| "call_frame (CallChat chat) = \<lparr>cf_kind = Some (KGameChat chat)\<rparr>"
| "call_frame (CallSkin skin) = \<lparr>cf_kind = Some (KPlayerSkin skin)\<rparr>"
| "call_frame (CallSessionStart turns) = \<lparr>cf_kind = Some (KSessionStart turns)\<rparr>"
| "call_frame (CallConnectivity slot connected epoch) =
     \<lparr>cf_kind = Some (KSlotConnectivity \<lparr>sc_slot = ucast slot, sc_connected = connected, sc_connection_epoch = epoch\<rparr>)\<rparr>"
| "call_frame (CallRequestDrop slot) = \<lparr>cf_kind = Some (KRequestDrop \<lparr>rd_slot = slot, rd_requester = 0\<rparr>)\<rparr>"
| "call_frame (CallRegionLabels labels) = \<lparr>cf_kind = Some (KRegionLabels labels)\<rparr>"
| "call_frame (CallPhaseDirective directive) = \<lparr>cf_kind = Some (KPhaseDirective directive)\<rparr>"
| "call_frame (CallLeadReport report) = \<lparr>cf_kind = Some (KLeadReport report)\<rparr>"
| "call_frame (CallPhaseApplied delay_us) = \<lparr>cf_kind = Some (KPhaseApplied delay_us)\<rparr>"
| "call_frame (CallLoadStateProbe probe_id) = \<lparr>cf_kind = Some (KLoadStateProbe probe_id)\<rparr>"
| "call_frame (CallLoadStateProbeAck probe_id) = \<lparr>cf_kind = Some (KLoadStateProbeAck probe_id)\<rparr>"

lemmas send_control_defs =
  send_control_turn_def send_control_leave_def send_control_leave_intent_def send_control_game_result_def
  send_control_rollback_stats_def send_control_game_started_def send_control_lobby_def send_control_chat_def
  send_control_skin_def send_control_session_start_def send_control_connectivity_def send_control_request_drop_def
  send_control_region_labels_def send_control_phase_directive_def send_control_lead_report_def
  send_control_phase_applied_def send_control_load_state_probe_def send_control_load_state_probe_ack_def

lemma control_send_frame: "control_send c w s call = write_frame c w s (call_frame call)"
  by (cases call) (simp_all add: send_control_defs)

lemma control_send_sends:
  "stream_ok w written \<Longrightarrow> msg_ok c (call_frame call) \<Longrightarrow> sends c written (control_send c w) (\<lambda>call. [call_frame call]) call"
  using write_frame_sends [of w written c call_frame call] by (simp add: control_send_frame [abs_def])

lemma control_inbound_call [simp]: "control_inbound (call_frame call) = Some (surfaced call)"
  by (cases call) (simp_all add: control_inbound_def)

lemma map_filter_calls [simp]: "List.map_filter control_inbound (map call_frame calls) = map surfaced calls"
  by (induction calls) simp_all

lemma reader_frames:
  "spawn_control_reader c n s = take n (List.map_filter control_inbound (read_frames (read_one_frame c) s))"
proof (induction c n s rule: spawn_control_reader.induct)
  case (1 c n s)
  show ?case
  proof (cases "read_one_frame c s")
    case None
    then show ?thesis
      by (subst spawn_control_reader.simps) (simp add: prefixed.read_frames_step [of c s])
  next
    case (Some a)
    then obtain frame rest where a: "read_one_frame c s = Some (frame, rest)"
      by (cases a) simp
    then have "read_frames (read_one_frame c) s = frame # read_frames (read_one_frame c) rest"
      by (simp add: prefixed.read_frames_step [of c s])
    then show ?thesis
      using 1 a by (subst spawn_control_reader.simps) (auto split: option.splits nat.splits)
  qed
qed

lemma map_filter_prefix: "prefix xs ys \<Longrightarrow> prefix (List.map_filter f xs) (List.map_filter f ys)"
  by (auto simp: prefix_def List.map_filter_def)


text \<open>C6: Whatever sequence of control messages one side sends, on a stream that may fail in the middle of
  any write, and wherever the receiver's copy of the byte stream is cut, the reader surfaces a prefix of
  the messages sent: never a corrupted, reordered, duplicated or invented one.  When every send succeeded
  and the stream arrived whole, it surfaces all of them, up to the number its consumer accepts.\<close>

theorem control_stream_roundtrip:
  assumes "stream_ok w written" and "list_all (\<lambda>call. msg_ok c (call_frame call)) calls"
    and "written s = []" and "send_all (control_send c w) s calls = (r, s')" and "prefix p (written s')"
  shows "prefix (spawn_control_reader c n p) (map surfaced calls) \<and>
    (r = Inr () \<and> p = written s' \<longrightarrow> spawn_control_reader c n p = take n (map surfaced calls))"
proof (intro conjI impI)
  have ok: "list_all (sends c written (control_send c w) (\<lambda>call. [call_frame call])) calls"
    using assms(2) by (auto simp: list_all_iff intro: control_send_sends [OF assms(1)])
  have "prefix (read_frames (read_one_frame c) p) (map call_frame calls)"
    using read_back_prefix [OF ok assms(3,4,5)] by simp
  from map_filter_prefix [OF this, of control_inbound]
  show "prefix (spawn_control_reader c n p) (map surfaced calls)"
    unfolding reader_frames by (auto intro: prefix_order.trans take_is_prefix)
  assume "r = Inr () \<and> p = written s'"
  then show "spawn_control_reader c n p = take n (map surfaced calls)"
    using read_back_all [OF ok assms(3), of s'] assms(4) by (simp add: reader_frames)
qed

definition probe_codec :: "unit control_codec" where
  "probe_codec =
     \<lparr>mc_encode = (\<lambda>frame. case cf_kind frame of
          Some KLeaveIntent \<Rightarrow> [0x1A, 0]
        | Some KGameStarted \<Rightarrow> [0x72, 0]
        | Some (KLoadStateProbe probe_id) \<Rightarrow> [0x7A, 9, 9] @ le_bytes 8 probe_id
        | _ \<Rightarrow> []),
      mc_decode = (\<lambda>body.
          if body = [0x1A, 0] then Inr \<lparr>cf_kind = Some KLeaveIntent\<rparr>
          else if body = [0x72, 0] then Inr \<lparr>cf_kind = Some KGameStarted\<rparr>
          else if take 3 body = [0x7A, 9, 9] then Inr \<lparr>cf_kind = Some (KLoadStateProbe (of_le_bytes (drop 3 body)))\<rparr>
          else Inl ())\<rparr>"

definition probe_write :: "u8 list \<times> nat \<Rightarrow> u8 list \<Rightarrow> (unit + unit) \<times> (u8 list \<times> nat)" where
  "probe_write s bytes =
     (if length bytes \<le> snd s then (Inr (), (fst s @ bytes, snd s - length bytes))
      else (Inl (), (fst s @ take (snd s) bytes, 0)))"

lemma probe_write_ok: "stream_ok probe_write fst"
  by (auto simp: stream_ok_def probe_write_def intro: take_is_prefix)

definition probe_calls :: "control_call list" where
  "probe_calls = [CallGameStarted, CallLoadStateProbe 7, CallLeaveIntent]"

lemma probe_calls_ok: "list_all (\<lambda>call. msg_ok probe_codec (call_frame call)) probe_calls"
  by (simp add: probe_calls_def msg_ok_def probe_codec_def)

lemma probe_calls_sent: "fst (send_all (control_send probe_codec probe_write) ([], 100) probe_calls) = Inr ()"
  by (simp add: probe_calls_def control_send_frame write_frame_def encode_frame_ok frame_bytes_def probe_codec_def
      probe_write_def CONTROL_LEN_PREFIX_def MAX_CONTROL_FRAME_LEN_def)

theorem control_stream_roundtrip_witness:
  "spawn_control_reader probe_codec 10 (fst (snd (send_all (control_send probe_codec probe_write) ([], 100) probe_calls))) =
     [GameStarted, LoadStateProbe 7, LeaveIntent]"
proof -
  have "send_all (control_send probe_codec probe_write) ([], 100) probe_calls =
      (Inr (), snd (send_all (control_send probe_codec probe_write) ([], 100) probe_calls))"
    using probe_calls_sent by (metis prod.collapse)
  from control_stream_roundtrip [OF probe_write_ok probe_calls_ok _ this prefix_order.refl, of 10]
  show ?thesis
    by (simp add: probe_calls_def)
qed

end
