(* ===== verification/MeshControlStream.thy ===== *)
theory MeshControlStream
  imports Messages Framing
begin

text \<open>
  The relay and relay control stream, \<open>transport/src/mesh_control_stream.rs\<close>: the reader, the single and
  the batched writer, and the establishment frame.  The capacity of the batch buffer is only an allocation
  hint; the size check of the first loop is modelled.
\<close>

type_synonym 'd mesh_codec = "(MeshControlFrame, 'd) msg_codec"

function read_mesh_control_frames :: "'d mesh_codec \<Rightarrow> nat \<Rightarrow> u8 list \<Rightarrow> MeshControlFrame list" where
  "read_mesh_control_frames c capacity recv =
     (case read_one_frame c recv of
        None \<Rightarrow> []
      | Some (frame, recv') \<Rightarrow>
          if mf_session frame = 0 \<and> mf_kind frame = None then read_mesh_control_frames c capacity recv'
          else
            (case capacity of
               0 \<Rightarrow> []
             | Suc n \<Rightarrow> frame # read_mesh_control_frames c n recv'))"
  by pat_completeness auto
termination
  by (relation "measure (\<lambda>(_, _, recv). length recv)") (auto dest: read_one_frame_shorter)

declare read_mesh_control_frames.simps [simp del]

definition send_mesh_control_frame where
  "send_mesh_control_frame c write_all control_send frame = write_frame (c :: 'd mesh_codec) write_all control_send frame"

fun batch_size_check :: "'d mesh_codec \<Rightarrow> MeshControlFrame list \<Rightarrow> 'd ControlStreamError + unit" where
  "batch_size_check c [] = Inr ()"
| "batch_size_check c (frame # frames) =
     (let len = length (mc_encode c frame)
      in if MAX_CONTROL_FRAME_LEN < len then Inl (FrameTooLarge len) else batch_size_check c frames)"

fun batch_encode :: "'d mesh_codec \<Rightarrow> MeshControlFrame list \<Rightarrow> u8 list \<Rightarrow> u8 list" where
  "batch_encode c [] encoded = encoded"
| "batch_encode c (frame # frames) encoded =
     batch_encode c frames
       (encoded @ le_bytes CONTROL_LEN_PREFIX (of_nat (length (mc_encode c frame)) :: u32) @ mc_encode c frame)"

definition encode_mesh_control_frames :: "'d mesh_codec \<Rightarrow> MeshControlFrame list \<Rightarrow> 'd ControlStreamError + u8 list" where
  "encode_mesh_control_frames c frames =
     (case batch_size_check c frames of Inl e \<Rightarrow> Inl e | Inr _ \<Rightarrow> Inr (batch_encode c frames []))"

definition send_mesh_control_frames ::
    "'d mesh_codec \<Rightarrow> ('s \<Rightarrow> u8 list \<Rightarrow> ('w + unit) \<times> 's) \<Rightarrow> 's \<Rightarrow> MeshControlFrame list \<Rightarrow>
       (('d, 'w) ControlSendError + unit) \<times> 's" where
  "send_mesh_control_frames c write_all control_send frames =
     (case encode_mesh_control_frames c frames of
        Inl e \<Rightarrow> (Inl (Frame e), control_send)
      | Inr encoded \<Rightarrow>
          if encoded = [] then (Inr (), control_send)
          else
            (case write_all control_send encoded of
               (Inl e, s) \<Rightarrow> (Inl (Write e), s)
             | (Inr _, s) \<Rightarrow> (Inr (), s)))"

definition establish_mesh_control where
  "establish_mesh_control c write_all control_send =
     send_mesh_control_frame (c :: 'd mesh_codec) write_all control_send MeshControlFrame_default"

section \<open>The batch is the concatenation of the ordinary frames\<close>

text \<open>The reference: encode each frame on its own, refusing the whole batch at the first that is too large.\<close>

fun encode_each :: "'d mesh_codec \<Rightarrow> MeshControlFrame list \<Rightarrow> 'd ControlStreamError + u8 list" where
  "encode_each c [] = Inr []"
| "encode_each c (frame # frames) =
     (case encode_frame c frame of
        Inl e \<Rightarrow> Inl e
      | Inr bytes \<Rightarrow> (case encode_each c frames of Inl e \<Rightarrow> Inl e | Inr rest \<Rightarrow> Inr (bytes @ rest)))"

lemma batch_encode_concat: "batch_encode c frames encoded = encoded @ concat (map (frame_bytes c) frames)"
  by (induction frames arbitrary: encoded) (simp_all add: frame_bytes_def)

lemma batch_size_check_Inr:
  "batch_size_check c frames = Inr u \<longleftrightarrow> list_all (\<lambda>frame. length (mc_encode c frame) \<le> MAX_CONTROL_FRAME_LEN) frames"
  by (induction frames) (simp_all add: Let_def)

lemma encode_mesh_control_frames_Inr:
  "encode_mesh_control_frames c frames = Inr bytes \<longleftrightarrow>
     list_all (\<lambda>frame. length (mc_encode c frame) \<le> MAX_CONTROL_FRAME_LEN) frames \<and>
     bytes = concat (map (frame_bytes c) frames)"
  by (cases "batch_size_check c frames")
     (use batch_size_check_Inr [of c frames] in \<open>auto simp: encode_mesh_control_frames_def batch_encode_concat\<close>)

text \<open>C36: The batched encoder, which checks every size first and then fills one buffer, returns exactly what
  encoding the frames one by one and joining the results would, with the same error at the same frame.\<close>

theorem encode_mesh_control_frames_equivalent: "encode_mesh_control_frames c frames = encode_each c frames"
proof (induction frames)
  case (Cons frame frames)
  then show ?case
    by (cases "batch_size_check c frames")
       (simp_all add: encode_mesh_control_frames_def batch_encode_concat encode_frame_ok Let_def flip: Cons)
qed (simp add: encode_mesh_control_frames_def)

section \<open>What one relay sends the other reads\<close>

datatype mesh_call = CallFrame MeshControlFrame | CallBatch "MeshControlFrame list" | CallEstablish

fun mesh_send where
  "mesh_send c w s (CallFrame frame) = send_mesh_control_frame c w s frame"
| "mesh_send c w s (CallBatch frames) = send_mesh_control_frames c w s frames"
| "mesh_send c w s CallEstablish = establish_mesh_control c w s"

fun mesh_frames :: "mesh_call \<Rightarrow> MeshControlFrame list" where
  "mesh_frames (CallFrame frame) = [frame]"
| "mesh_frames (CallBatch frames) = frames"
| "mesh_frames CallEstablish = [MeshControlFrame_default]"

definition dispatched :: "MeshControlFrame \<Rightarrow> bool" where
  "dispatched frame \<longleftrightarrow> \<not> (mf_session frame = 0 \<and> mf_kind frame = None)"

lemma send_mesh_control_frames_sends:
  assumes "stream_ok w written" and "list_all (msg_ok c) frames"
  shows "sends c written (mesh_send c w) mesh_frames (CallBatch frames)"
proof -
  have ok: "list_all (frame_ok c) frames" if "encode_mesh_control_frames c frames = Inr bytes" for bytes
    using assms(2) that unfolding encode_mesh_control_frames_Inr by (auto simp: list_all_iff frame_ok_def)
  show ?thesis
  proof (cases "encode_mesh_control_frames c frames")
    case (Inl e)
    then show ?thesis
      by (simp add: sends_def send_mesh_control_frames_def)
  next
    case (Inr bytes)
    then have "bytes = concat (map (frame_bytes c) frames)"
      by (simp add: encode_mesh_control_frames_Inr)
    then show ?thesis
      using Inr ok [OF Inr] stream_okD [OF assms(1)]
      by (fastforce simp: sends_def send_mesh_control_frames_def split: sum.splits prod.splits)
  qed
qed

lemma mesh_send_sends:
  assumes "stream_ok w written" and "list_all (msg_ok c) (mesh_frames call)"
  shows "sends c written (mesh_send c w) mesh_frames call"
  using assms(2)
proof (cases call)
  case (CallFrame frame)
  then show ?thesis
    by (intro sends_cong [THEN iffD2, OF _ _ write_frame_sends [OF assms(1), of c id frame]])
       (use assms(2) in \<open>simp_all add: send_mesh_control_frame_def\<close>)
next
  case (CallBatch frames)
  then show ?thesis
    using send_mesh_control_frames_sends [OF assms(1), of c frames] assms(2) by simp
next
  case CallEstablish
  then show ?thesis
    by (intro sends_cong [THEN iffD2, OF _ _ write_frame_sends [OF assms(1), of c id MeshControlFrame_default]])
       (use assms(2) in \<open>simp_all add: establish_mesh_control_def send_mesh_control_frame_def\<close>)
qed

lemma mesh_reader_frames:
  "read_mesh_control_frames c n s = take n (filter dispatched (read_frames (read_one_frame c) s))"
proof (induction c n s rule: read_mesh_control_frames.induct)
  case (1 c n s)
  show ?case
  proof (cases "read_one_frame c s")
    case None
    then show ?thesis
      by (subst read_mesh_control_frames.simps) (simp add: prefixed.read_frames_step [of c s])
  next
    case (Some a)
    then obtain frame rest where a: "read_one_frame c s = Some (frame, rest)"
      by (cases a) simp
    then have "read_frames (read_one_frame c) s = frame # read_frames (read_one_frame c) rest"
      by (simp add: prefixed.read_frames_step [of c s])
    then show ?thesis
      using 1 a by (subst read_mesh_control_frames.simps) (auto simp: dispatched_def [of frame] split: nat.splits)
  qed
qed

text \<open>C19: Over any sequence of single frames, batches and establishment frames sent on a mesh control
  stream that may fail in the middle of any write, and wherever the byte stream is cut, the peer's reader
  forwards a prefix of the frames sent, establishment frames left out.  When every send succeeded and the
  stream arrived whole it forwards all of them in order, up to the number its consumer accepts.\<close>

theorem mesh_control_roundtrip:
  assumes "stream_ok w written" and "list_all (\<lambda>call. list_all (msg_ok c) (mesh_frames call)) calls"
    and "written s = []" and "send_all (mesh_send c w) s calls = (r, s')" and "prefix p (written s')"
  shows "prefix (read_mesh_control_frames c n p) (filter dispatched (concat (map mesh_frames calls))) \<and>
    (r = Inr () \<and> p = written s' \<longrightarrow>
       read_mesh_control_frames c n p = take n (filter dispatched (concat (map mesh_frames calls))))"
proof (intro conjI impI)
  have ok: "list_all (sends c written (mesh_send c w) mesh_frames) calls"
    using assms(2) by (auto simp: list_all_iff intro!: mesh_send_sends [OF assms(1)])
  have "prefix (read_frames (read_one_frame c) p) (concat (map mesh_frames calls))"
    by (rule read_back_prefix [OF ok assms(3,4,5)])
  then have "prefix (filter dispatched (read_frames (read_one_frame c) p)) (filter dispatched (concat (map mesh_frames calls)))"
    by (auto simp: prefix_def)
  then show "prefix (read_mesh_control_frames c n p) (filter dispatched (concat (map mesh_frames calls)))"
    unfolding mesh_reader_frames by (auto intro: prefix_order.trans take_is_prefix)
  assume "r = Inr () \<and> p = written s'"
  then show "read_mesh_control_frames c n p = take n (filter dispatched (concat (map mesh_frames calls)))"
    using read_back_all [OF ok assms(3), of s'] assms(4) by (simp add: mesh_reader_frames)
qed

definition mesh_probe_codec :: "unit mesh_codec" where
  "mesh_probe_codec =
     \<lparr>mc_encode = (\<lambda>frame. if frame = MeshControlFrame_default then [] else
          (case mf_kind frame of Some (MSlotPresent slot) \<Rightarrow> le_bytes 8 (mf_session frame) @ le_bytes 4 slot | _ \<Rightarrow> [])),
      mc_decode = (\<lambda>body. if body = [] then Inr MeshControlFrame_default
          else if length body = 12 then
            Inr \<lparr>mf_session = of_le_bytes (take 8 body), mf_kind = Some (MSlotPresent (of_le_bytes (drop 8 body)))\<rparr>
          else Inl ())\<rparr>"

definition mesh_probe_write :: "u8 list \<times> nat \<Rightarrow> u8 list \<Rightarrow> (unit + unit) \<times> (u8 list \<times> nat)" where
  "mesh_probe_write s bytes =
     (if length bytes \<le> snd s then (Inr (), (fst s @ bytes, snd s - length bytes))
      else (Inl (), (fst s @ take (snd s) bytes, 0)))"

definition mesh_present :: "u64 \<Rightarrow> u32 \<Rightarrow> MeshControlFrame" where
  "mesh_present session slot = \<lparr>mf_session = session, mf_kind = Some (MSlotPresent slot)\<rparr>"

definition mesh_probe_calls :: "mesh_call list" where
  "mesh_probe_calls = [CallEstablish, CallBatch [mesh_present 5 1, mesh_present 5 2], CallBatch [], CallFrame (mesh_present 6 0)]"

lemma mesh_probe_write_ok: "stream_ok mesh_probe_write fst"
  by (auto simp: stream_ok_def mesh_probe_write_def intro: take_is_prefix)

lemma mesh_present_ok [simp]: "msg_ok mesh_probe_codec (mesh_present session slot)"
  by (auto simp: msg_ok_def mesh_probe_codec_def mesh_present_def MeshControlFrame_default_def)

lemma mesh_probe_calls_ok: "list_all (\<lambda>call. list_all (msg_ok mesh_probe_codec) (mesh_frames call)) mesh_probe_calls"
  by (simp add: mesh_probe_calls_def) (simp add: msg_ok_def mesh_probe_codec_def)

lemma mesh_present_len [simp]: "length (mc_encode mesh_probe_codec (mesh_present session slot)) = 12"
  by (simp add: mesh_probe_codec_def mesh_present_def MeshControlFrame_default_def)

lemma mesh_probe_calls_sent: "fst (send_all (mesh_send mesh_probe_codec mesh_probe_write) ([], 100) mesh_probe_calls) = Inr ()"
proof -
  have [simp]: "length (frame_bytes mesh_probe_codec (mesh_present session slot)) = 16"
    "length (frame_bytes mesh_probe_codec MeshControlFrame_default) = 4"
    "length (mc_encode mesh_probe_codec MeshControlFrame_default) = 0" for session slot
    by (simp_all add: frame_bytes_def CONTROL_LEN_PREFIX_def) (simp_all add: mesh_probe_codec_def)
  show ?thesis
    by (simp add: mesh_probe_calls_def establish_mesh_control_def send_mesh_control_frame_def write_frame_def
        send_mesh_control_frames_def encode_mesh_control_frames_def batch_encode_concat encode_frame_ok
        mesh_probe_write_def MAX_CONTROL_FRAME_LEN_def Let_def)
qed

theorem mesh_control_roundtrip_witness:
  "read_mesh_control_frames mesh_probe_codec 10
     (fst (snd (send_all (mesh_send mesh_probe_codec mesh_probe_write) ([], 100) mesh_probe_calls))) =
   [mesh_present 5 1, mesh_present 5 2, mesh_present 6 0]"
proof -
  have "send_all (mesh_send mesh_probe_codec mesh_probe_write) ([], 100) mesh_probe_calls =
      (Inr (), snd (send_all (mesh_send mesh_probe_codec mesh_probe_write) ([], 100) mesh_probe_calls))"
    using mesh_probe_calls_sent by (metis prod.collapse)
  from mesh_control_roundtrip [OF mesh_probe_write_ok mesh_probe_calls_ok _ this prefix_order.refl, of 10]
  show ?thesis
    by (simp add: mesh_probe_calls_def dispatched_def mesh_present_def MeshControlFrame_default_def)
qed

end
