(* ===== verification/Beacon.thy ===== *)
theory Beacon
  imports Framing Wire "HOL-Library.Option_ord"
begin

text \<open>
  The ack-beacon side-channel: the codec of \<open>proto/src/beacon.rs\<close> and the writer, the cursor cell and the
  reader of \<open>transport/src/beacon.rs\<close>.  \<open>Notify\<close> only wakes the driver and is not part of the state: a
  \<open>recv\<close> that would wait is the value \<open>Waiting\<close>.  The first key the pending map iterates is an argument of
  \<open>take_pending\<close>, and what the reader task does between the two looks of a \<open>recv\<close> is its argument
  \<open>reader_progress\<close>.  A failed \<open>expect\<close> is \<open>None\<close>.
\<close>

section \<open>The codec\<close>

definition BEACON_FRAME_LEN :: nat where
  "BEACON_FRAME_LEN = 4 + 8"

datatype DecodeFrameError = BadLength nat | BadSlot u32

definition beacon_encode_frame :: "SlotId \<Rightarrow> u64 \<Rightarrow> u8 list" where
  "beacon_encode_frame slot delivered_through = le_bytes 4 (ucast slot :: u32) @ le_bytes 8 delivered_through"

definition beacon_decode_frame :: "u8 list \<Rightarrow> DecodeFrameError + (SlotId \<times> u64)" where
  "beacon_decode_frame bytes =
     (if length bytes \<noteq> BEACON_FRAME_LEN then Inl (BadLength (length bytes))
      else
        (let slot_raw = of_le_bytes (take 4 bytes) :: u32;
             cursor = of_le_bytes (take 8 (drop 4 bytes)) :: u64
         in (case slot_try_from slot_raw of
               Some slot \<Rightarrow> Inr (slot, cursor)
             | None \<Rightarrow> Inl (BadSlot slot_raw))))"

section \<open>The cursor cell and the reader\<close>

record CursorCell =
  cc_pending :: "SlotId \<rightharpoonup> u64"
  cc_closed :: bool

definition CursorCell_new :: CursorCell where
  "CursorCell_new = \<lparr>cc_pending = Map.empty, cc_closed = False\<rparr>"

definition fold_cursor :: "CursorCell \<Rightarrow> SlotId \<Rightarrow> u64 \<Rightarrow> CursorCell" where
  "fold_cursor cell slot cursor =
     (let entry = (case cc_pending cell slot of Some e \<Rightarrow> e | None \<Rightarrow> cursor)
      in cell\<lparr>cc_pending := (cc_pending cell)(slot \<mapsto> (if entry < cursor then cursor else entry))\<rparr>)"

definition close_cell :: "CursorCell \<Rightarrow> CursorCell" where
  "close_cell cell = cell\<lparr>cc_closed := True\<rparr>"

definition take_pending :: "SlotId option \<Rightarrow> CursorCell \<Rightarrow> ((SlotId \<times> u64) option \<times> CursorCell) option" where
  "take_pending first_key cell =
     (case first_key of
        None \<Rightarrow> Some (None, cell)
      | Some slot \<Rightarrow>
          (case cc_pending cell slot of
             None \<Rightarrow> None
           | Some cursor \<Rightarrow> Some (Some (slot, cursor), cell\<lparr>cc_pending := (cc_pending cell)(slot := None)\<rparr>)))"

datatype RecvPoll = Ready "SlotId \<times> u64" | Terminal | Waiting

definition BeaconCursors_recv ::
    "SlotId option \<Rightarrow> (CursorCell \<Rightarrow> CursorCell) \<Rightarrow> SlotId option \<Rightarrow> CursorCell \<Rightarrow> (RecvPoll \<times> CursorCell) option" where
  "BeaconCursors_recv first_key reader_progress second_key cell = do {
     (entry, cell1) \<leftarrow> take_pending first_key cell;
     (case entry of
        Some e \<Rightarrow> Some (Ready e, cell1)
      | None \<Rightarrow>
          let cell2 = reader_progress cell1
          in if cc_closed cell2 then do {
               (last_entry, cell3) \<leftarrow> take_pending second_key cell2;
               Some (case last_entry of Some e \<Rightarrow> Ready e | None \<Rightarrow> Terminal, cell3)
             }
             else Some (Waiting, cell2))
   }"

definition beacon_read_one :: "u8 list \<Rightarrow> ((DecodeFrameError + (SlotId \<times> u64)) \<times> u8 list) option" where
  "beacon_read_one recv =
     (case read_exact BEACON_FRAME_LEN recv of
        None \<Rightarrow> None
      | Some (buf, recv') \<Rightarrow> Some (beacon_decode_frame buf, recv'))"

definition beacon_reader_step :: "CursorCell \<Rightarrow> DecodeFrameError + (SlotId \<times> u64) \<Rightarrow> CursorCell" where
  "beacon_reader_step cell decoded =
     (case decoded of Inr (slot, cursor) \<Rightarrow> fold_cursor cell slot cursor | Inl _ \<Rightarrow> cell)"

lemma beacon_read_one_shorter: "beacon_read_one s = Some (r, rest) \<Longrightarrow> length rest < length s"
  by (auto simp: beacon_read_one_def read_exact_def BEACON_FRAME_LEN_def split: if_splits)

function spawn_beacon_reader :: "CursorCell \<Rightarrow> u8 list \<Rightarrow> CursorCell" where
  "spawn_beacon_reader cell recv =
     (case beacon_read_one recv of
        None \<Rightarrow> close_cell cell
      | Some (decoded, recv') \<Rightarrow> spawn_beacon_reader (beacon_reader_step cell decoded) recv')"
  by pat_completeness auto
termination
  by (relation "measure (length \<circ> snd)") (auto dest: beacon_read_one_shorter)

declare spawn_beacon_reader.simps [simp del]

section \<open>The writer\<close>

record BeaconWriter =
  bw_last_sent :: "SlotId \<rightharpoonup> u64"
  bw_write_buf :: "u8 list"

definition BeaconWriter_new :: BeaconWriter where
  "BeaconWriter_new = \<lparr>bw_last_sent = Map.empty, bw_write_buf = []\<rparr>"

fun flush_encode :: "(SlotId \<rightharpoonup> u64) \<Rightarrow> (SlotId \<times> u64) list \<Rightarrow> u8 list \<Rightarrow> u8 list" where
  "flush_encode last_sent [] buf = buf"
| "flush_encode last_sent ((slot, cursor) # rest) buf =
     (if (case last_sent slot of Some prev \<Rightarrow> cursor \<le> prev | None \<Rightarrow> False) then flush_encode last_sent rest buf
      else flush_encode last_sent rest (buf @ beacon_encode_frame slot cursor))"

function as_chunks :: "nat \<Rightarrow> u8 list \<Rightarrow> u8 list list" where
  "as_chunks n buf = (if n = 0 \<or> length buf < n then [] else take n buf # as_chunks n (drop n buf))"
  by pat_completeness auto
termination
  by (relation "measure (length \<circ> snd)") auto

declare as_chunks.simps [simp del]

fun flush_record :: "u8 list list \<Rightarrow> (SlotId \<rightharpoonup> u64) \<Rightarrow> (SlotId \<rightharpoonup> u64) option" where
  "flush_record [] last_sent = Some last_sent"
| "flush_record (frame # frames) last_sent =
     (case beacon_decode_frame frame of
        Inl _ \<Rightarrow> None
      | Inr (slot, cursor) \<Rightarrow> flush_record frames (last_sent(slot \<mapsto> cursor)))"

definition flush ::
    "('s \<Rightarrow> u8 list \<Rightarrow> ('w + unit) \<times> 's) \<Rightarrow> BeaconWriter \<Rightarrow> 's \<Rightarrow> (SlotId \<times> u64) list \<Rightarrow> (BeaconWriter \<times> 's) option" where
  "flush write_all bw beacon_send delivered_through =
     (let buf = flush_encode (bw_last_sent bw) delivered_through [];
          bw' = bw\<lparr>bw_write_buf := buf\<rparr>
      in if buf = [] then Some (bw', beacon_send)
         else
           (case write_all beacon_send buf of
              (Inl _, s) \<Rightarrow> Some (bw', s)
            | (Inr _, s) \<Rightarrow>
                map_option (\<lambda>last_sent. (bw'\<lparr>bw_last_sent := last_sent\<rparr>, s))
                  (flush_record (as_chunks BEACON_FRAME_LEN buf) (bw_last_sent bw))))"


section \<open>The codec is a bijection\<close>

lemma length_beacon_encode [simp]: "length (beacon_encode_frame slot cursor) = BEACON_FRAME_LEN"
  by (simp add: beacon_encode_frame_def BEACON_FRAME_LEN_def)

lemma beacon_decode_encode [simp]: "beacon_decode_frame (beacon_encode_frame slot cursor) = Inr (slot, cursor)"
  by (simp add: beacon_decode_frame_def) (simp add: beacon_encode_frame_def)

lemma beacon_encode_decode:
  assumes "beacon_decode_frame bytes = Inr (slot, cursor)"
  shows "bytes = beacon_encode_frame slot cursor"
proof -
  have len: "length bytes = 12"
    using assms by (simp add: beacon_decode_frame_def BEACON_FRAME_LEN_def split: if_splits)
  have "slot_try_from (of_le_bytes (take 4 bytes)) = Some slot" "of_le_bytes (take 8 (drop 4 bytes)) = cursor"
    using assms by (auto simp: beacon_decode_frame_def Let_def split: if_splits option.splits)
  then have "beacon_encode_frame slot cursor =
      le_bytes 4 (of_le_bytes (take 4 bytes) :: u32) @ le_bytes 8 (of_le_bytes (drop 4 bytes) :: u64)"
    using len by (simp add: beacon_encode_frame_def slot_try_from_Some)
  then show ?thesis
    using le_bytes_of_le_bytes [of "take 4 bytes", where 'a = 32] le_bytes_of_le_bytes [of "drop 4 bytes", where 'a = 64] len
    by simp
qed

text \<open>C38: The beacon codec is a bijection between (slot, cursor) pairs and the byte strings it accepts: a
  frame decodes to a pair exactly when it is that pair's encoding, so no two frames are confused and
  nothing else is accepted.\<close>

theorem beacon_codec_bijective:
  "beacon_decode_frame bytes = Inr (slot, cursor) \<longleftrightarrow> bytes = beacon_encode_frame slot cursor"
  using beacon_encode_decode beacon_decode_encode by blast

interpretation beacon: framed_stream "\<lambda>(slot, cursor). beacon_encode_frame slot cursor" Inr beacon_read_one "\<lambda>_. True"
proof unfold_locales
  fix m :: "SlotId \<times> u64" and rest p
  show "beacon_read_one ((case m of (slot, cursor) \<Rightarrow> beacon_encode_frame slot cursor) @ rest) = Some (Inr m, rest)"
    by (cases m) (simp add: beacon_read_one_def read_exact_def)
  assume "strict_prefix p (case m of (slot, cursor) \<Rightarrow> beacon_encode_frame slot cursor)"
  then have "length p < BEACON_FRAME_LEN"
    by (cases m) (auto dest: prefix_length_less)
  then show "beacon_read_one p = None"
    by (simp add: beacon_read_one_def read_exact_def)
qed (rule beacon_read_one_shorter)

section \<open>The newest cursor of every slot gets through\<close>

text \<open>\<open>best\<close> is the newest cursor a list of pairs holds for a slot, none below all.\<close>

fun best :: "(SlotId \<times> u64) list \<Rightarrow> SlotId \<Rightarrow> u64 option" where
  "best [] slot = None"
| "best ((s, c) # xs) slot = (if s = slot then max (Some c) (best xs slot) else best xs slot)"

lemma max_None [simp]: "max None (x :: 'a::linorder option) = x" "max x None = x"
  by (simp_all add: max_def) (metis less_eq_option_None_is_None)

lemma best_append [simp]: "best (xs @ ys) slot = max (best xs slot) (best ys slot)"
  by (induction xs) (auto simp: max.assoc)


lemma best_notin: "slot \<notin> fst ` set xs \<Longrightarrow> best xs slot = None"
  by (induction xs) auto

definition beacon_bytes :: "(SlotId \<times> u64) list \<Rightarrow> u8 list" where
  "beacon_bytes xs = concat (map (\<lambda>(slot, cursor). beacon_encode_frame slot cursor) xs)"

definition advancing :: "(SlotId \<rightharpoonup> u64) \<Rightarrow> (SlotId \<times> u64) list \<Rightarrow> (SlotId \<times> u64) list" where
  "advancing last_sent xs = filter (\<lambda>(slot, cursor). last_sent slot < Some cursor) xs"

lemma beacon_bytes_simps [simp]:
  "beacon_bytes [] = []" "beacon_bytes ((slot, cursor) # xs) = beacon_encode_frame slot cursor @ beacon_bytes xs"
  by (simp_all add: beacon_bytes_def)

lemma beacon_bytes_append [simp]: "beacon_bytes (xs @ ys) = beacon_bytes xs @ beacon_bytes ys"
  by (simp add: beacon_bytes_def)

lemma flush_encode_advancing: "flush_encode L xs buf = buf @ beacon_bytes (advancing L xs)"
proof (induction xs arbitrary: buf)
  case (Cons x xs)
  then show ?case
    by (cases x; cases "L (fst x)") (auto simp: advancing_def)
qed (simp add: advancing_def)

lemma as_chunks_beacon: "as_chunks BEACON_FRAME_LEN (beacon_bytes xs) = map (\<lambda>(slot, cursor). beacon_encode_frame slot cursor) xs"
proof (induction xs)
  case Nil
  show ?case
    by (subst as_chunks.simps) (simp add: BEACON_FRAME_LEN_def)
next
  case (Cons x xs)
  then show ?case
    by (cases x; subst as_chunks.simps) (simp add: BEACON_FRAME_LEN_def)
qed

fun sent_after :: "(SlotId \<rightharpoonup> u64) \<Rightarrow> (SlotId \<times> u64) list \<Rightarrow> (SlotId \<rightharpoonup> u64)" where
  "sent_after L [] = L"
| "sent_after L ((slot, cursor) # xs) = sent_after (L(slot \<mapsto> cursor)) xs"

lemma flush_record_frames:
  "flush_record (map (\<lambda>(slot, cursor). beacon_encode_frame slot cursor) xs) L = Some (sent_after L xs)"
  by (induction xs arbitrary: L) auto

lemma record_advancing:
  "distinct (map fst xs) \<Longrightarrow> list_all (\<lambda>(slot, cursor). L slot < Some cursor) xs \<Longrightarrow>
    sent_after L xs slot = max (L slot) (best xs slot)"
proof (induction xs arbitrary: L)
  case (Cons x xs)
  obtain s c where x: "x = (s, c)"
    by (cases x)
  have fresh: "s \<notin> fst ` set xs" and c: "L s < Some c"
    using Cons.prems x by auto
  have "list_all (\<lambda>(slot, cursor). (L(s \<mapsto> c)) slot < Some cursor) xs"
    using Cons.prems fresh x by (force simp: list_all_iff)
  then have "sent_after (L(s \<mapsto> c)) xs slot = max ((L(s \<mapsto> c)) slot) (best xs slot)"
    using Cons.prems(1) by (intro Cons.IH) simp_all
  then show ?case
    using c best_notin [OF fresh] by (auto simp: x max_def)
qed simp

lemma best_advancing: "max (L slot) (best (advancing L xs) slot) = max (L slot) (best xs slot)"
proof (induction xs)
  case (Cons x xs)
  obtain s c where x: "x = (s, c)"
    by (cases x)
  show ?case
  proof (cases "s = slot")
    case True
    show ?thesis
    proof (cases "L slot < Some c")
      case adv: True
      then show ?thesis
        using Cons True by (simp add: x advancing_def max.left_commute [of "L slot" "Some c"])
    next
      case False
      then have "max (L slot) (Some c) = L slot"
        by (simp add: max_def)
      then show ?thesis
        using Cons True False by (simp add: x advancing_def flip: max.assoc [of "L slot" "Some c"])
    qed
  next
    case False
    then show ?thesis
      using Cons by (simp add: x advancing_def)
  qed
qed (simp add: advancing_def)

lemma distinct_advancing: "distinct (map fst xs) \<Longrightarrow> distinct (map fst (advancing L xs))"
  by (simp add: advancing_def distinct_map_filter)

lemma flush_cases:
  assumes "distinct (map fst xs)"
  obtains (quiet) bw' where "flush write_all bw s xs = Some (bw', s)" "beacon_bytes (advancing (bw_last_sent bw) xs) = []"
      "bw_last_sent bw' = bw_last_sent bw"
  | (failed) bw' e s' where "flush write_all bw s xs = Some (bw', s')"
      "beacon_bytes (advancing (bw_last_sent bw) xs) \<noteq> []"
      "write_all s (beacon_bytes (advancing (bw_last_sent bw) xs)) = (Inl e, s')" "bw_last_sent bw' = bw_last_sent bw"
  | (sent) bw' u s' where "flush write_all bw s xs = Some (bw', s')"
      "beacon_bytes (advancing (bw_last_sent bw) xs) \<noteq> []"
      "write_all s (beacon_bytes (advancing (bw_last_sent bw) xs)) = (Inr u, s')"
      "bw_last_sent bw' = (\<lambda>slot. max (bw_last_sent bw slot) (best xs slot))"
proof -
  let ?L = "bw_last_sent bw" and ?buf = "beacon_bytes (advancing (bw_last_sent bw) xs)"
  have "list_all (\<lambda>(slot, cursor). ?L slot < Some cursor) (advancing ?L xs)"
    by (auto simp: advancing_def list_all_iff)
  note rec = record_advancing [OF distinct_advancing [OF assms] this, unfolded best_advancing]
  note defs = flush_def Let_def flush_encode_advancing as_chunks_beacon flush_record_frames
  show thesis
  proof (cases "?buf = []")
    case True
    then show ?thesis
      by (intro quiet [of "bw\<lparr>bw_write_buf := ?buf\<rparr>"]) (simp_all add: defs)
  next
    case nonempty: False
    show ?thesis
    proof (cases "write_all s ?buf")
      case (Pair r s')
      show ?thesis
      proof (cases r)
        case (Inl e)
        then show ?thesis
          using Pair nonempty by (intro failed [of "bw\<lparr>bw_write_buf := ?buf\<rparr>" s' e]) (simp_all add: defs)
      next
        case (Inr u)
        then show ?thesis
          using Pair nonempty
          by (intro sent [of "bw\<lparr>bw_write_buf := ?buf, bw_last_sent := sent_after ?L (advancing ?L xs)\<rparr>" s' u])
             (simp_all add: defs rec fun_eq_iff)
      qed
    qed
  qed
qed

text \<open>A flush never panics.  It writes one buffer holding exactly the cursors that advance past what was
  last sent for their slot, and nothing when there is none.  A successful write moves each slot's
  last-sent cursor to the newest of the old value and the offered one; a failed write leaves all of them.\<close>

theorem flush_outcome:
  assumes "distinct (map fst xs)"
  shows "\<exists>bw' s'. flush write_all bw s xs = Some (bw', s') \<and>
    (let buf = beacon_bytes (advancing (bw_last_sent bw) xs)
     in if buf = [] then s' = s \<and> bw_last_sent bw' = bw_last_sent bw
        else s' = snd (write_all s buf) \<and>
          (case fst (write_all s buf) of
             Inl _ \<Rightarrow> bw_last_sent bw' = bw_last_sent bw
           | Inr _ \<Rightarrow> bw_last_sent bw' = (\<lambda>slot. max (bw_last_sent bw slot) (best xs slot))))"
  using assms
proof (cases rule: flush_cases [where write_all = write_all and bw = bw and s = s])
  case (quiet bw')
  then show ?thesis
    by simp
next
  case (failed bw' e s')
  then show ?thesis
    by simp
next
  case (sent bw' u s')
  then show ?thesis
    by simp
qed

definition probe_sink :: "u8 list \<Rightarrow> u8 list \<Rightarrow> (unit + unit) \<times> u8 list" where
  "probe_sink s bytes = (Inr (), s @ bytes)"

definition probe_cursors :: "(SlotId \<times> u64) list" where
  "probe_cursors = [(1, 5), (2, 9)]"

definition probe_writer :: BeaconWriter where
  "probe_writer = \<lparr>bw_last_sent = [1 \<mapsto> 5, 2 \<mapsto> 4], bw_write_buf = []\<rparr>"

lemma probe_advancing: "beacon_bytes (advancing (bw_last_sent probe_writer) probe_cursors) = beacon_encode_frame 2 9"
  by (simp add: probe_writer_def probe_cursors_def advancing_def)

lemma beacon_encode_nonempty [simp]: "beacon_encode_frame slot cursor \<noteq> []"
  by (simp add: beacon_encode_frame_def)

theorem flush_outcome_witness:
  "\<exists>bw'. flush probe_sink probe_writer [] probe_cursors = Some (bw', beacon_encode_frame 2 9) \<and>
     bw_last_sent bw' 1 = Some 5 \<and> bw_last_sent bw' 2 = Some 9"
proof -
  have "distinct (map fst probe_cursors)"
    by (simp add: probe_cursors_def)
  from flush_outcome [OF this, of probe_sink probe_writer "[]"] show ?thesis
    unfolding probe_advancing
    by (auto simp: probe_sink_def) (simp_all add: probe_writer_def probe_cursors_def max_def)
qed

section \<open>From the writer to the peer's driver\<close>

text \<open>Several flushes on one stream, and on the other side the reader task's frames interleaved with the
  driver's \<open>recv\<close> calls in any order.  A \<open>recv\<close> yields the slot the map iterates first, if any is pending.\<close>

fun flush_all ::
    "('s \<Rightarrow> u8 list \<Rightarrow> ('w + unit) \<times> 's) \<Rightarrow> BeaconWriter \<Rightarrow> 's \<Rightarrow> (SlotId \<times> u64) list list \<Rightarrow> (BeaconWriter \<times> 's) option" where
  "flush_all w bw s [] = Some (bw, s)"
| "flush_all w bw s (xs # xss) = do { (bw', s') \<leftarrow> flush w bw s xs; flush_all w bw' s' xss }"

datatype beacon_event = ReaderFrame "DecodeFrameError + (SlotId \<times> u64)" | DriverRecv SlotId

fun beacon_run :: "CursorCell \<Rightarrow> (SlotId \<times> u64) list \<Rightarrow> beacon_event list \<Rightarrow> (CursorCell \<times> (SlotId \<times> u64) list) option" where
  "beacon_run cell taken [] = Some (cell, taken)"
| "beacon_run cell taken (ReaderFrame decoded # evs) = beacon_run (beacon_reader_step cell decoded) taken evs"
| "beacon_run cell taken (DriverRecv slot # evs) =
     (if cc_pending cell slot = None then beacon_run cell taken evs
      else do {
        (poll, cell') \<leftarrow> BeaconCursors_recv (Some slot) id None cell;
        beacon_run cell' (case poll of Ready e \<Rightarrow> taken @ [e] | _ \<Rightarrow> taken) evs
      })"

fun reader_frames_of :: "beacon_event list \<Rightarrow> (DecodeFrameError + (SlotId \<times> u64)) list" where
  "reader_frames_of [] = []"
| "reader_frames_of (ReaderFrame decoded # evs) = decoded # reader_frames_of evs"
| "reader_frames_of (DriverRecv slot # evs) = reader_frames_of evs"

definition reliable :: "('s \<Rightarrow> u8 list \<Rightarrow> ('w + unit) \<times> 's) \<Rightarrow> ('s \<Rightarrow> u8 list) \<Rightarrow> bool" where
  "reliable w written \<longleftrightarrow> (\<forall>s bytes. \<exists>s'. w s bytes = (Inr (), s') \<and> written s' = written s @ bytes)"

lemma flush_all_written:
  assumes "reliable w written"
  shows "list_all (\<lambda>xs. distinct (map fst xs)) xss \<Longrightarrow>
    \<exists>bw' s' sent. flush_all w bw s xss = Some (bw', s') \<and> written s' = written s @ beacon_bytes sent \<and>
      (\<forall>slot. bw_last_sent bw' slot = max (bw_last_sent bw slot) (best (concat xss) slot)) \<and>
      (\<forall>slot. max (bw_last_sent bw slot) (best sent slot) = max (bw_last_sent bw slot) (best (concat xss) slot))"
proof (induction xss arbitrary: bw s)
  case Nil
  then show ?case
    by (auto intro: exI [of _ "[]"])
next
  case (Cons xs xss)
  let ?L = "bw_last_sent bw" and ?adv = "advancing (bw_last_sent bw) xs"
  have d: "distinct (map fst xs)"
    using Cons.prems by simp
  obtain bw1 s1 where f: "flush w bw s xs = Some (bw1, s1)" and w1: "written s1 = written s @ beacon_bytes ?adv"
    and L1: "\<And>slot. bw_last_sent bw1 slot = max (?L slot) (best xs slot)"
    using d
  proof (cases rule: flush_cases [where write_all = w and bw = bw and s = s])
    case (quiet bw')
    then have "?adv = []"
      by (cases ?adv) auto
    then show ?thesis
      using quiet that best_advancing [of ?L _ xs] by simp
  next
    case (failed bw' e s')
    then show ?thesis
      using assms unfolding reliable_def by (metis Inr_Inl_False fst_conv)
  next
    case (sent bw' u s')
    then have "written s' = written s @ beacon_bytes ?adv"
      using assms unfolding reliable_def by (metis snd_conv)
    then show ?thesis
      using sent that by simp
  qed
  from Cons.IH [of bw1 s1] Cons.prems obtain bw2 s2 rest where
    r: "flush_all w bw1 s1 xss = Some (bw2, s2)" "written s2 = written s1 @ beacon_bytes rest"
      "\<And>slot. bw_last_sent bw2 slot = max (bw_last_sent bw1 slot) (best (concat xss) slot)"
      "\<And>slot. max (bw_last_sent bw1 slot) (best rest slot) = max (bw_last_sent bw1 slot) (best (concat xss) slot)"
    by auto
  have "max (?L slot) (best (?adv @ rest) slot) = max (?L slot) (best (concat (xs # xss)) slot)" for slot
    using r(4) [of slot] best_advancing [of ?L slot xs] by (simp add: L1 flip: max.assoc)
  then show ?case
    using f w1 r(1,2,3) L1 by (intro exI [of _ bw2] exI [of _ s2] exI [of _ "?adv @ rest"]) (simp add: max.assoc)
qed


lemma pending_fold_cursor:
  "cc_pending (fold_cursor cell s c) slot = (if slot = s then max (cc_pending cell s) (Some c) else cc_pending cell slot)"
  by (auto simp: fold_cursor_def Let_def max_def split: option.split)

lemma recv_pending:
  "cc_pending cell slot = Some c \<Longrightarrow>
    BeaconCursors_recv (Some slot) progress k cell = Some (Ready (slot, c), cell\<lparr>cc_pending := (cc_pending cell)(slot := None)\<rparr>)"
  by (simp add: BeaconCursors_recv_def take_pending_def)

definition seen_by_driver :: "CursorCell \<Rightarrow> (SlotId \<times> u64) list \<Rightarrow> SlotId \<Rightarrow> u64 option" where
  "seen_by_driver cell taken slot = max (best taken slot) (cc_pending cell slot)"

lemma beacon_run_best:
  assumes "reader_frames_of evs = map Inr fs"
  shows "\<exists>cell' taken'. beacon_run cell taken evs = Some (cell', taken') \<and>
    (\<forall>slot. seen_by_driver cell' taken' slot = max (seen_by_driver cell taken slot) (best fs slot))"
  using assms
proof (induction evs arbitrary: cell taken fs)
  case Nil
  then show ?case
    by simp
next
  case (Cons ev evs)
  show ?case
  proof (cases ev)
    case (ReaderFrame decoded)
    then obtain s c fs' where d: "decoded = Inr (s, c)" "fs = (s, c) # fs'" "reader_frames_of evs = map Inr fs'"
      using Cons.prems by (cases fs) auto
    obtain cell' taken' where r: "beacon_run (fold_cursor cell s c) taken evs = Some (cell', taken')"
      "\<And>slot. seen_by_driver cell' taken' slot = max (seen_by_driver (fold_cursor cell s c) taken slot) (best fs' slot)"
      using Cons.IH [OF d(3), of "fold_cursor cell s c" taken] by blast
    have "seen_by_driver cell' taken' slot = max (seen_by_driver cell taken slot) (best fs slot)" for slot
      using r(2) [of slot] by (simp add: d(2) seen_by_driver_def pending_fold_cursor max.assoc)
    then show ?thesis
      using r(1) d ReaderFrame by (simp add: beacon_reader_step_def)
  next
    case (DriverRecv s)
    then have frames: "reader_frames_of evs = map Inr fs"
      using Cons.prems by simp
    show ?thesis
    proof (cases "cc_pending cell s")
      case None
      then show ?thesis
        using Cons.IH [OF frames, of cell taken] DriverRecv by simp
    next
      case (Some c)
      let ?cell = "cell\<lparr>cc_pending := (cc_pending cell)(s := None)\<rparr>"
      have "seen_by_driver ?cell (taken @ [(s, c)]) slot = seen_by_driver cell taken slot" for slot
        using Some by (simp add: seen_by_driver_def)
      then show ?thesis
        using Cons.IH [OF frames, of ?cell "taken @ [(s, c)]"] DriverRecv Some by (simp add: recv_pending)
    qed
  qed
qed

lemma spawn_beacon_reader_frames:
  "spawn_beacon_reader cell recv = close_cell (foldl beacon_reader_step cell (read_frames beacon_read_one recv))"
proof (induction cell recv rule: spawn_beacon_reader.induct)
  case (1 cell recv)
  then show ?case
    by (subst spawn_beacon_reader.simps) (auto simp: beacon.read_frames_step [of recv] split: option.split)
qed

text \<open>C18: Over a stream that delivers what is written, for any sequence of flushes, and for any interleaving
  of the peer's reader with a driver that may be arbitrarily slow, nothing panics and the newest cursor
  offered for each slot is never lost: it has been handed to the driver or is the slot's pending value,
  and the driver never sees a cursor beyond it.  It is also what the writer records as last sent.\<close>

theorem beacon_newest_cursor_survives:
  assumes "reliable w written" and "written s = []" and "list_all (\<lambda>xs. distinct (map fst xs)) batches"
  shows "\<exists>bw s'. flush_all w BeaconWriter_new s batches = Some (bw, s') \<and>
    bw_last_sent bw = best (concat batches) \<and>
    (\<forall>evs. reader_frames_of evs = read_frames beacon_read_one (written s') \<longrightarrow>
      (\<exists>cell taken. beacon_run CursorCell_new [] evs = Some (cell, taken) \<and>
        seen_by_driver cell taken = best (concat batches)))"
proof -
  obtain bw s' sent where f: "flush_all w BeaconWriter_new s batches = Some (bw, s')"
    and w': "written s' = beacon_bytes sent" and L: "bw_last_sent bw = best (concat batches)"
    and sent: "best sent = best (concat batches)"
    using flush_all_written [OF assms(1,3), of BeaconWriter_new s] assms(2)
    by (auto simp: BeaconWriter_new_def fun_eq_iff)
  have "read_frames beacon_read_one (written s') = map Inr sent"
    using beacon.read_frames_all [of sent "[]"] w' by (simp add: beacon_bytes_def beacon.read_frames_nil list_all_iff)
  moreover have "seen_by_driver CursorCell_new [] = (\<lambda>_. None)"
    by (simp add: seen_by_driver_def CursorCell_new_def fun_eq_iff)
  ultimately have "\<exists>cell taken. beacon_run CursorCell_new [] evs = Some (cell, taken) \<and> seen_by_driver cell taken = best (concat batches)"
    if "reader_frames_of evs = read_frames beacon_read_one (written s')" for evs
    using beacon_run_best [of evs sent CursorCell_new "[]"] that sent by (auto simp: fun_eq_iff)
  then show ?thesis
    using f L by blast
qed

theorem beacon_newest_cursor_survives_witness:
  "\<exists>bw s'. flush_all probe_sink BeaconWriter_new [] [[(1, 3), (2, 8)], [(1, 4)], [(1, 4)]] = Some (bw, s') \<and>
     bw_last_sent bw 1 = Some 4 \<and> bw_last_sent bw 2 = Some 8"
proof -
  let ?batches = "[[(1, 3), (2, 8)], [(1, 4)], [(1, 4)]] :: (SlotId \<times> u64) list list"
  have "reliable probe_sink id"
    by (simp add: reliable_def probe_sink_def)
  moreover have "list_all (\<lambda>xs. distinct (map fst xs)) ?batches"
    by simp
  ultimately obtain bw s' where "flush_all probe_sink BeaconWriter_new [] ?batches = Some (bw, s')"
    "bw_last_sent bw = best (concat ?batches)"
    using beacon_newest_cursor_survives [of probe_sink id "[]" ?batches] by auto
  then show ?thesis
    by (simp add: max_def)
qed

end
