(* ===== verification/ClientSend.thy ===== *)
theory ClientSend
  imports Link ControlStream DropOldest
begin

text \<open>
  The client's outbound side: the leave announcer (\<open>client/src/leave_announcer.rs\<close>), the retention ring and
  what a resume re-sends (\<open>client/src/driver/retention.rs\<close>), and one turn's wire handoff
  (\<open>client/src/driver/send.rs\<close>).  Instants and durations are natural numbers of one unit; the current time,
  the datagram limit, the outcome of \<open>send_datagram\<close> and the control stream's \<open>write_all\<close> are arguments of
  the operations that use them.  The shared \<open>result_expected\<close> flag is an argument of the reads.
\<close>

section \<open>Announcing the departure\<close>

datatype LeaveState = Idle | Pending nat | Sent

record LeaveAnnouncer =
  la_state :: LeaveState
  la_result_sent :: bool

definition LeaveAnnouncer_new :: LeaveAnnouncer where
  "LeaveAnnouncer_new = \<lparr>la_state = Idle, la_result_sent = False\<rparr>"

definition arm :: "nat \<Rightarrow> LeaveAnnouncer \<Rightarrow> nat \<Rightarrow> LeaveAnnouncer" where
  "arm now a timeout = (if la_state a \<noteq> Sent then a\<lparr>la_state := Pending (now + timeout)\<rparr> else a)"

definition deadline :: "LeaveAnnouncer \<Rightarrow> nat option" where
  "deadline a = (case la_state a of Pending d \<Rightarrow> Some d | _ \<Rightarrow> None)"

definition sent :: "LeaveAnnouncer \<Rightarrow> bool" where
  "sent a \<longleftrightarrow> la_state a = Sent"

definition note_result_sent :: "LeaveAnnouncer \<Rightarrow> LeaveAnnouncer" where
  "note_result_sent a = a\<lparr>la_result_sent := True\<rparr>"

definition awaiting_result :: "bool \<Rightarrow> LeaveAnnouncer \<Rightarrow> bool" where
  "awaiting_result result_expected a \<longleftrightarrow> result_expected \<and> \<not> la_result_sent a"

definition ready_to_send :: "bool \<Rightarrow> LeaveAnnouncer \<Rightarrow> bool \<Rightarrow> nat \<Rightarrow> bool" where
  "ready_to_send result_expected a outbound_empty in_flight \<longleftrightarrow>
     (case la_state a of Pending _ \<Rightarrow> True | _ \<Rightarrow> False) \<and> \<not> awaiting_result result_expected a \<and>
     outbound_empty \<and> in_flight = 0"

definition force_send ::
    "'d control_codec \<Rightarrow> ('s \<Rightarrow> u8 list \<Rightarrow> ('w + unit) \<times> 's) \<Rightarrow> LeaveAnnouncer \<Rightarrow> 's \<Rightarrow>
       (('d, 'w) ControlSendError + unit) \<times> LeaveAnnouncer \<times> 's" where
  "force_send c write_all a stream =
     (case send_control_leave_intent c write_all stream of
        (Inl e, s) \<Rightarrow> (Inl e, a, s)
      | (Inr _, s) \<Rightarrow> (Inr (), a\<lparr>la_state := Sent\<rparr>, s))"

definition maybe_send ::
    "'d control_codec \<Rightarrow> ('s \<Rightarrow> u8 list \<Rightarrow> ('w + unit) \<times> 's) \<Rightarrow> bool \<Rightarrow> LeaveAnnouncer \<Rightarrow> 's \<Rightarrow>
       Payload list \<Rightarrow> bool \<Rightarrow> Link \<Rightarrow> (('d, 'w) ControlSendError + unit) \<times> LeaveAnnouncer \<times> 's" where
  "maybe_send c write_all result_expected a stream outbound held_empty link =
     (if ready_to_send result_expected a (outbound = [] \<and> held_empty) (payloads_in_flight (lk_acks link)) then
        (case send_control_leave_intent c write_all stream of
           (Inl e, s) \<Rightarrow> (Inl e, a, s)
         | (Inr _, s) \<Rightarrow> (Inr (), a\<lparr>la_state := Sent\<rparr>, s))
      else (Inr (), a, stream))"

definition absorb_link_close :: "LeaveAnnouncer \<Rightarrow> 'e + unit \<Rightarrow> 'e + unit" where
  "absorb_link_close a result = (case result of Inl e \<Rightarrow> if sent a then Inr () else Inl e | Inr u \<Rightarrow> Inr u)"

section \<open>The retention ring\<close>

definition RETENTION_TURN_CAP :: nat where
  "RETENTION_TURN_CAP = 512"

definition RETENTION_BYTE_CAP :: nat where
  "RETENTION_BYTE_CAP = 256 * 1024"

record RetentionRing =
  rr_turns :: "Payload list"
  rr_bytes :: nat

definition RetentionRing_default :: RetentionRing where
  "RetentionRing_default = \<lparr>rr_turns = [], rr_bytes = 0\<rparr>"

definition retained_size :: "Payload \<Rightarrow> nat" where
  "retained_size payload = length (p_commands payload) + 32"

fun retention_evict :: "Payload list \<Rightarrow> nat \<Rightarrow> Payload list \<times> nat" where
  "retention_evict [] b = ([], b)"
| "retention_evict (p # ps) b =
     (if RETENTION_TURN_CAP < length (p # ps) \<or> (RETENTION_BYTE_CAP < b \<and> 1 < length (p # ps))
      then retention_evict ps (b - retained_size p)
      else (p # ps, b))"

definition RetentionRing_push :: "RetentionRing \<Rightarrow> Payload \<Rightarrow> RetentionRing" where
  "RetentionRing_push r payload =
     (let (turns, b) = retention_evict (rr_turns r @ [payload]) (rr_bytes r + retained_size payload)
      in \<lparr>rr_turns = turns, rr_bytes = b\<rparr>)"

definition front_seq :: "RetentionRing \<Rightarrow> u64 option" where
  "front_seq r = (case rr_turns r of [] \<Rightarrow> None | t # _ \<Rightarrow> Some (p_seq t))"

definition oldest_oversize_seq :: "codec \<Rightarrow> RetentionRing \<Rightarrow> u64 option" where
  "oldest_oversize_seq c r =
     (case map p_seq (filter (\<lambda>turn. \<not> fits_guaranteed_datagram c turn) (rr_turns r)) of
        [] \<Rightarrow> None
      | s # ss \<Rightarrow> Some (fold min ss s))"

section \<open>What a resume re-sends\<close>

record LoopState =
  ls_next_outbound_seq :: u64
  ls_retention :: RetentionRing
  ls_pending_control_redivert :: "Payload list"
  ls_announcer :: LeaveAnnouncer
  ls_flush_interval :: nat

fun redivert_pending_control ::
    "'d control_codec \<Rightarrow> ('s \<Rightarrow> u8 list \<Rightarrow> ('w + unit) \<times> 's) \<Rightarrow> 's \<Rightarrow> Payload list \<Rightarrow>
       (('d, 'w) ControlSendError + unit) \<times> 's \<times> Payload list" where
  "redivert_pending_control c write_all stream [] = (Inr (), stream, [])"
| "redivert_pending_control c write_all stream (turn # pending) =
     (case send_control_turn c write_all stream turn of
        (Inl e, s) \<Rightarrow> (Inl e, s, turn # pending)
      | (Inr _, s) \<Rightarrow> redivert_pending_control c write_all s pending)"

definition rehome_own_slot_anchor :: "Link \<Rightarrow> SlotId \<Rightarrow> u64 option \<Rightarrow> u64 option" where
  "rehome_own_slot_anchor link own_slot retention_front =
     (case retention_front of
        Some front \<Rightarrow> Some (contiguous_replayable_anchor (lk_acks link) own_slot front)
      | None \<Rightarrow> oldest_replayable_seq (lk_acks link) own_slot)"

definition same_relay_resume_cursors ::
    "(SlotId \<times> u64) list \<Rightarrow> u64 option \<Rightarrow> u64 option \<Rightarrow> SlotId \<Rightarrow> u64 \<Rightarrow> (SlotId \<times> u64) list" where
  "same_relay_resume_cursors peer_cursors oldest_replayable oldest_restaged_oversize own_slot next_outbound_seq =
     (let anchor =
        (case (oldest_replayable, oldest_restaged_oversize) of
           (Some datagram, Some oversize) \<Rightarrow> min datagram oversize
         | (Some only, None) \<Rightarrow> only
         | (None, Some only) \<Rightarrow> only
         | (None, None) \<Rightarrow> next_outbound_seq)
      in peer_cursors @ [(own_slot, anchor)])"

definition stage_control_redivert :: "Payload list \<Rightarrow> Payload \<Rightarrow> Payload list" where
  "stage_control_redivert pending turn =
     (if list_ex (\<lambda>staged. p_slot staged = p_slot turn \<and> p_seq staged = p_seq turn) pending then pending
      else pending @ [turn])"

fun reinject_turns ::
    "codec \<Rightarrow> nat option \<Rightarrow> Link \<Rightarrow> Payload list \<Rightarrow> Payload list \<Rightarrow> Link \<times> Payload list" where
  "reinject_turns c mds link pending [] = (link, pending)"
| "reinject_turns c mds link pending (turn # turns) =
     (if payload_fits c mds turn = (Inr True :: unit LinkError + bool)
      then reinject_turns c mds (Link_reinject_unacked c link turn) pending turns
      else reinject_turns c mds link (stage_control_redivert pending turn) turns)"

definition reinject_retention :: "codec \<Rightarrow> nat option \<Rightarrow> Link \<Rightarrow> LoopState \<Rightarrow> Link \<times> LoopState" where
  "reinject_retention c mds link state =
     (let (link', pending) = reinject_turns c mds link (ls_pending_control_redivert state) (rr_turns (ls_retention state))
      in (link', state\<lparr>ls_pending_control_redivert := pending\<rparr>))"

definition redivert_oversize_retention_on_same_relay_resume :: "codec \<Rightarrow> nat option \<Rightarrow> LoopState \<Rightarrow> LoopState" where
  "redivert_oversize_retention_on_same_relay_resume c mds state =
     state\<lparr>ls_pending_control_redivert :=
       foldl (\<lambda>pending turn.
           if payload_fits c mds turn = (Inr False :: unit LinkError + bool)
           then stage_control_redivert pending turn else pending)
         (ls_pending_control_redivert state) (rr_turns (ls_retention state))\<rparr>"

section \<open>One turn's wire handoff\<close>

datatype ('d, 'w, 'e) DriverError =
    LinkFailed "'e LinkError"
  | ControlStream "('d, 'w) ControlSendError"
  | ControlStreamLost
  | GameStalled
  | UnackedWindowExhausted nat nat
  | OutageBufferExhausted nat nat
  | SlotDeparted
  | EvidenceRejected
  | Evicted u32
  | TokenExpired

datatype ('d, 'w, 'e) OutboundSend = SendDone | EndSession "('d, 'w, 'e) DriverError + unit"

definition UNACKED_WINDOW_CAP :: nat where
  "UNACKED_WINDOW_CAP = 1024"

record 's Wire =
  wi_control_send :: 's
  wi_acks_owed :: bool
  wi_flush_deadline :: nat

definition send_packet ::
    "codec \<Rightarrow> nat option \<Rightarrow> (Packet \<Rightarrow> 'e SendDatagramError + unit) \<Rightarrow> Link \<Rightarrow> Payload option \<Rightarrow>
       ((('d, 'w, 'e) DriverError + bool) \<times> Link) option" where
  "send_packet c mds send_datagram link payload =
     map_option (\<lambda>(r, link').
         (case r of
            Inr redundant \<Rightarrow> Inr (0 < redundant)
          | Inl (PayloadTooLarge needed budget) \<Rightarrow> Inr False
          | Inl e \<Rightarrow> Inl (LinkFailed e), link'))
       (Link_send c mds send_datagram link payload)"

definition window_cap_error :: "Link \<Rightarrow> ('d, 'w, 'e) DriverError option" where
  "window_cap_error link =
     (let in_flight = payloads_in_flight (lk_acks link)
      in if UNACKED_WINDOW_CAP < in_flight then Some (UnackedWindowExhausted in_flight UNACKED_WINDOW_CAP) else None)"

definition send_game_turn ::
    "codec \<Rightarrow> 'd control_codec \<Rightarrow> nat option \<Rightarrow> (Packet \<Rightarrow> 'e SendDatagramError + unit) \<Rightarrow>
       ('s \<Rightarrow> u8 list \<Rightarrow> ('w + unit) \<times> 's) \<Rightarrow> nat \<Rightarrow> Link \<Rightarrow> 's Wire \<Rightarrow> LoopState \<Rightarrow> SlotId \<Rightarrow> Payload \<Rightarrow>
       (('d, 'w, 'e) OutboundSend \<times> Link \<times> 's Wire \<times> LoopState) option" where
  "send_game_turn c cc mds send_datagram write_all now link wire state own_slot payload0 = do {
     let payload = payload0\<lparr>p_seq := ls_next_outbound_seq state, p_slot := ucast own_slot\<rparr>;
     next_seq \<leftarrow> checked_add (ls_next_outbound_seq state) 1;
     let state' = state\<lparr>ls_next_outbound_seq := next_seq,
                        ls_retention := RetentionRing_push (ls_retention state) payload\<rparr>;
     (case payload_fits c mds payload of
        Inl e \<Rightarrow> Some (EndSession (Inl (LinkFailed e)), link, wire, state')
      | Inr True \<Rightarrow> do {
          (r, link') \<leftarrow> send_packet c mds send_datagram link (Some payload);
          Some (case r of
             Inr carried_redundancy \<Rightarrow>
               (let wire' = wire\<lparr>wi_acks_owed := False,
                      wi_flush_deadline := (if carried_redundancy then now + ls_flush_interval state' else wi_flush_deadline wire)\<rparr>
                in (case window_cap_error link' of
                      Some error \<Rightarrow> EndSession (Inl error)
                    | None \<Rightarrow> SendDone, link', wire', state'))
           | Inl error \<Rightarrow> (EndSession (absorb_link_close (ls_announcer state') (Inl error)), link', wire, state'))
        }
      | Inr False \<Rightarrow>
          (let (r, s) = send_control_turn cc write_all (wi_control_send wire) payload;
               wire' = wire\<lparr>wi_control_send := s\<rparr>
           in Some (case r of
                Inl error \<Rightarrow> (EndSession (absorb_link_close (ls_announcer state') (Inl (ControlStream error))), link, wire', state')
              | Inr _ \<Rightarrow> (SendDone, link, wire', state'))))
   }"


section \<open>The retention ring keeps the longest suffix that fits\<close>

definition retention_bytes :: "Payload list \<Rightarrow> nat" where
  "retention_bytes ps = sum_list (map retained_size ps)"

definition retention_over :: "Payload list \<Rightarrow> bool" where
  "retention_over ps \<longleftrightarrow> RETENTION_TURN_CAP < length ps \<or> (RETENTION_BYTE_CAP < retention_bytes ps \<and> 1 < length ps)"

definition retention_inv :: "RetentionRing \<Rightarrow> bool" where
  "retention_inv r \<longleftrightarrow> rr_bytes r = retention_bytes (rr_turns r)"

lemma retention_bytes_simps [simp]:
  "retention_bytes [] = 0" "retention_bytes (p # ps) = retained_size p + retention_bytes ps"
  "retention_bytes (ps @ qs) = retention_bytes ps + retention_bytes qs"
  by (simp_all add: retention_bytes_def)

lemma retention_evict_drop_over:
  "retention_evict ps (retention_bytes ps) = (drop_over retention_over ps, retention_bytes (drop_over retention_over ps))"
  by (induction ps) (auto simp: retention_over_def)

lemma RetentionRing_push_spec:
  "retention_inv r \<Longrightarrow> RetentionRing_push r p =
     \<lparr>rr_turns = drop_over retention_over (rr_turns r @ [p]),
      rr_bytes = retention_bytes (drop_over retention_over (rr_turns r @ [p]))\<rparr>"
  using retention_evict_drop_over [of "rr_turns r @ [p]"] by (simp add: RetentionRing_push_def retention_inv_def)

interpretation retention: drop_oldest "\<lambda>r (_ :: unit) p. Some (RetentionRing_push r p)" "\<lambda>r _. rr_turns r"
  retention_inv "\<lambda>_. retention_over"
  by unfold_locales (auto simp: RetentionRing_push_spec retention_inv_def retention_over_def)

lemma drop_over_keeps_newest: "\<not> over [x] \<Longrightarrow> \<exists>ys. drop_over over (xs @ [x]) = ys @ [x]"
  by (induction xs) auto

lemma push_retains_newest: "retention_inv r \<Longrightarrow> \<exists>older. rr_turns (RetentionRing_push r p) = older @ [p]"
  using drop_over_keeps_newest [of retention_over p "rr_turns r"]
  by (simp add: RetentionRing_push_spec retention_over_def RETENTION_TURN_CAP_def)

lemma push_all_total: "push_all (\<lambda>r (_ :: unit) p. Some (RetentionRing_push r p)) r (map (Pair ()) ps) = Some (foldl RetentionRing_push r ps)"
  by (induction ps arbitrary: r) simp_all

text \<open>Whatever turns the client sends, the retention ring is the longest suffix of them within the turn
  cap and the byte cap, a lone turn larger than the byte cap excepted, and it always holds the newest one;
  its byte count is exact.\<close>

theorem retention_longest_suffix:
  "let r = foldl RetentionRing_push RetentionRing_default ps
   in suffix (rr_turns r) ps \<and> \<not> retention_over (rr_turns r) \<and> rr_bytes r = retention_bytes (rr_turns r) \<and>
      (ps = [] \<or> last ps \<in> set (rr_turns r)) \<and>
      (\<forall>qs. suffix qs ps \<longrightarrow> \<not> retention_over qs \<longrightarrow> suffix qs (rr_turns r))"
proof -
  let ?r = "foldl RetentionRing_push RetentionRing_default ps"
  have init: "retention_inv RetentionRing_default" "rr_turns RetentionRing_default = []"
    by (simp_all add: retention_inv_def RetentionRing_default_def)
  have all: "retention_inv ?r \<and> suffix (rr_turns ?r) ps \<and> (rr_turns ?r = [] \<or> \<not> retention_over (rr_turns ?r)) \<and>
      (\<forall>qs. suffix qs ps \<longrightarrow> \<not> retention_over qs \<longrightarrow> suffix qs (rr_turns ?r))"
    using retention.run_longest [OF init, of "map (Pair ()) ps"] by (simp add: push_all_total)
  have "last ps \<in> set (rr_turns ?r)" if "ps \<noteq> []"
  proof -
    have "suffix [last ps] ps"
      using that append_butlast_last_id by (auto simp: suffix_def intro!: exI [of _ "butlast ps"])
    moreover have "\<not> retention_over [last ps]"
      by (simp add: retention_over_def RETENTION_TURN_CAP_def)
    ultimately have "suffix [last ps] (rr_turns ?r)"
      using all by blast
    then show ?thesis
      by (auto simp: suffix_def)
  qed
  then show ?thesis
    using all by (auto simp: Let_def retention_inv_def retention_over_def)
qed

definition retention_probe :: "u64 \<Rightarrow> Payload" where
  "retention_probe s =
     \<lparr>p_seq = s, p_slot = 2, p_commands = [5], p_game_frame_count = None, p_sync_generation = None,
      p_buffer_directive = None, p_state_hash = None\<rparr>"

theorem retention_longest_suffix_witness:
  "rr_turns (foldl RetentionRing_push RetentionRing_default [retention_probe 0, retention_probe 1]) =
     [retention_probe 0, retention_probe 1]"
proof -
  let ?ps = "[retention_probe 0, retention_probe 1]"
  have "\<not> retention_over ?ps"
    by (simp add: retention_over_def RETENTION_TURN_CAP_def RETENTION_BYTE_CAP_def retained_size_def retention_probe_def)
  then show ?thesis
    using retention_longest_suffix [of ?ps] unfolding Let_def by (meson suffix_order.antisym suffix_order.refl)
qed


section \<open>A re-home re-carries everything retained\<close>

definition window_keys :: "Link \<Rightarrow> (SlotId \<times> u64) set" where
  "window_keys link = fst ` set (am_unacked_payloads (lk_acks link))"

definition staged :: "Payload list \<Rightarrow> Payload \<Rightarrow> bool" where
  "staged pending turn \<longleftrightarrow> list_ex (\<lambda>t. p_slot t = p_slot turn \<and> p_seq t = p_seq turn) pending"

definition rides_datagrams :: "codec \<Rightarrow> nat option \<Rightarrow> Payload \<Rightarrow> bool" where
  "rides_datagrams c mds turn \<longleftrightarrow> payload_fits c mds turn = (Inr True :: unit LinkError + bool)"

definition recarried :: "codec \<Rightarrow> nat option \<Rightarrow> Link \<Rightarrow> Payload list \<Rightarrow> Payload \<Rightarrow> bool" where
  "recarried c mds link pending turn \<longleftrightarrow>
     (if rides_datagrams c mds turn then payload_key turn \<in> insert None (Some ` window_keys link)
      else staged pending turn)"

lemma window_keys_reinject:
  "window_keys (Link_reinject_unacked c link turn) =
     (case payload_key turn of None \<Rightarrow> window_keys link | Some key \<Rightarrow> insert key (window_keys link))"
proof (cases "slot_try_from (p_slot turn)")
  case (Some raw)
  show ?thesis
  proof (cases "map_of (am_unacked_payloads (lk_acks link)) (raw, p_seq turn)")
    case None
    then show ?thesis
      using Some by (simp add: window_keys_def Link_reinject_unacked_def reinject_unacked_def payload_key_def insert_unacked_def)
  next
    case (Some v)
    then have "(raw, p_seq turn) \<in> window_keys link"
      by (force simp: window_keys_def dest: map_of_SomeD)
    then show ?thesis
      using Some \<open>slot_try_from (p_slot turn) = Some raw\<close>
      by (auto simp: window_keys_def Link_reinject_unacked_def reinject_unacked_def payload_key_def)
  qed
qed (simp add: window_keys_def Link_reinject_unacked_def reinject_unacked_def payload_key_def)

lemma stage_control_redivert_staged:
  "prefix pending (stage_control_redivert pending turn)" "staged (stage_control_redivert pending turn) turn"
  by (auto simp: stage_control_redivert_def staged_def list_ex_iff)

lemma staged_prefix: "prefix ps qs \<Longrightarrow> staged ps turn \<Longrightarrow> staged qs turn"
  by (auto simp: staged_def prefix_def)

lemma reinject_turns_spec:
  assumes "reinject_turns c mds link pending turns = (link', pending')"
  shows "window_keys link \<subseteq> window_keys link' \<and> prefix pending pending' \<and>
    list_all (recarried c mds link' pending') turns"
  using assms
proof (induction turns arbitrary: link pending)
  case (Cons turn turns)
  show ?case
  proof (cases "rides_datagrams c mds turn")
    case True
    then have "reinject_turns c mds (Link_reinject_unacked c link turn) pending turns = (link', pending')"
      using Cons.prems by (simp add: rides_datagrams_def)
    note ih = Cons.IH [OF this]
    have "payload_key turn \<in> insert None (Some ` window_keys link')"
      using ih by (auto simp: window_keys_reinject split: option.splits)
    moreover have "window_keys link \<subseteq> window_keys link'"
      using ih by (auto simp: window_keys_reinject split: option.splits)
    ultimately show ?thesis
      using ih True by (simp add: recarried_def [of _ _ _ _ turn])
  next
    case False
    then have "reinject_turns c mds link (stage_control_redivert pending turn) turns = (link', pending')"
      using Cons.prems by (simp add: rides_datagrams_def)
    note ih = Cons.IH [OF this]
    then have "staged pending' turn" "prefix pending pending'"
      using stage_control_redivert_staged [where pending = pending and turn = turn]
      by (auto intro: staged_prefix prefix_order.trans)
    then show ?thesis
      using ih False by (simp add: recarried_def [of _ _ _ _ turn])
  qed
qed simp

text \<open>C8: After a re-home every retained turn is on its way to the new relay: one that rides datagrams on the
  new path is in the unacked window under its own slot and number, any other is staged for the control
  stream.  Nothing that was unacked or staged before is lost, and the retention ring itself is kept.\<close>

theorem rehome_recarries_retention:
  assumes "reinject_retention c mds link state = (link', state')"
  shows "window_keys link \<subseteq> window_keys link' \<and>
    prefix (ls_pending_control_redivert state) (ls_pending_control_redivert state') \<and>
    ls_retention state' = ls_retention state \<and>
    list_all (recarried c mds link' (ls_pending_control_redivert state')) (rr_turns (ls_retention state))"
proof -
  obtain pending' where
    "reinject_turns c mds link (ls_pending_control_redivert state) (rr_turns (ls_retention state)) = (link', pending')"
    and s': "state' = state\<lparr>ls_pending_control_redivert := pending'\<rparr>"
    using assms by (auto simp: reinject_retention_def split: prod.splits)
  from reinject_turns_spec [OF this(1)] show ?thesis
    by (simp add: s')
qed

definition rehome_probe :: LoopState where
  "rehome_probe = \<lparr>ls_next_outbound_seq = 2, ls_retention = \<lparr>rr_turns = [retention_probe 0, retention_probe 1], rr_bytes = 66\<rparr>,
     ls_pending_control_redivert = [], ls_announcer = LeaveAnnouncer_new, ls_flush_interval = 5\<rparr>"

theorem rehome_recarries_retention_witness:
  "staged (ls_pending_control_redivert (snd (reinject_retention proto3_codec None Link_new rehome_probe))) (retention_probe 1)"
proof -
  let ?r = "reinject_retention proto3_codec None Link_new rehome_probe"
  have "\<not> rides_datagrams proto3_codec None (retention_probe 1)"
    by (simp add: rides_datagrams_def payload_fits_def datagram_admission_budget_def)
  then show ?thesis
    using rehome_recarries_retention [of proto3_codec None Link_new rehome_probe "fst ?r" "snd ?r"]
    by (simp add: rehome_probe_def recarried_def)
qed

section \<open>The anchor of a same-relay resume\<close>

lemma fold_min_le: "fold min ss s \<le> (s :: 'a::linorder)"
  by (induction ss arbitrary: s) (auto intro: order_trans [OF _ min.cobounded2])

lemma fold_min_le_member: "q \<in> set ss \<Longrightarrow> fold min ss s \<le> (q :: 'a::linorder)"
  by (induction ss arbitrary: s) (auto intro: order_trans [OF fold_min_le min.cobounded1])

lemma oldest_oversize_seq_le:
  "turn \<in> set (rr_turns r) \<Longrightarrow> \<not> fits_guaranteed_datagram c turn \<Longrightarrow>
    \<exists>s. oldest_oversize_seq c r = Some s \<and> s \<le> p_seq turn"
proof -
  assume "turn \<in> set (rr_turns r)" "\<not> fits_guaranteed_datagram c turn"
  then have "p_seq turn \<in> set (map p_seq (filter (\<lambda>turn. \<not> fits_guaranteed_datagram c turn) (rr_turns r)))"
    by auto
  then show ?thesis
    unfolding oldest_oversize_seq_def
    by (cases "map p_seq (filter (\<lambda>turn. \<not> fits_guaranteed_datagram c turn) (rr_turns r))")
       (auto simp: fold_min_le fold_min_le_member)
qed

lemma oldest_replayable_seq_le:
  assumes "bm_wf (am_unacked_payloads (lk_acks link))" and "(slot, q) \<in> window_keys link"
  shows "\<exists>s. oldest_replayable_seq (lk_acks link) slot = Some s \<and> s \<le> q"
proof -
  have "q \<in> set (slot_seqs (am_unacked_payloads (lk_acks link)) slot)"
    using assms(2) by (simp add: set_slot_seqs window_keys_def)
  then show ?thesis
    using slot_seqs_sorted [OF assms(1), of slot]
    by (cases "slot_seqs (am_unacked_payloads (lk_acks link)) slot") (auto simp: oldest_replayable_seq_def)
qed

text \<open>C24: A same-relay re-dial always presents exactly one own-slot cursor after the peers' cursors, and it is
  at or below everything the resume can still send: every unacked turn of the slot, every retained turn
  too large for a datagram, and, when there is neither, the next turn to produce.  No re-sent turn can
  fall below the receive window it anchors.\<close>

theorem same_relay_anchor_covers:
  assumes "bm_wf (am_unacked_payloads (lk_acks link))"
  shows "\<exists>anchor. same_relay_resume_cursors peer_cursors (oldest_replayable_seq (lk_acks link) own_slot)
        (oldest_oversize_seq c r) own_slot next_seq = peer_cursors @ [(own_slot, anchor)] \<and>
      (\<forall>q. (own_slot, q) \<in> window_keys link \<longrightarrow> anchor \<le> q) \<and>
      list_all (\<lambda>turn. fits_guaranteed_datagram c turn \<or> anchor \<le> p_seq turn) (rr_turns r) \<and>
      (oldest_replayable_seq (lk_acks link) own_slot = None \<and> oldest_oversize_seq c r = None \<longrightarrow> anchor = next_seq)"
proof -
  let ?d = "oldest_replayable_seq (lk_acks link) own_slot" and ?o = "oldest_oversize_seq c r"
  define anchor where "anchor = snd (last (same_relay_resume_cursors peer_cursors ?d ?o own_slot next_seq))"
  have eq: "same_relay_resume_cursors peer_cursors ?d ?o own_slot next_seq = peer_cursors @ [(own_slot, anchor)]"
    by (simp add: anchor_def same_relay_resume_cursors_def)
  have d: "anchor \<le> s" if "?d = Some s" for s
    using that by (cases ?o) (simp_all add: anchor_def same_relay_resume_cursors_def)
  have ov: "anchor \<le> s" if "?o = Some s" for s
    using that by (cases ?d) (simp_all add: anchor_def same_relay_resume_cursors_def)
  have "anchor \<le> q" if "(own_slot, q) \<in> window_keys link" for q
    using oldest_replayable_seq_le [OF assms that] d by (auto intro: order_trans)
  moreover have "fits_guaranteed_datagram c turn \<or> anchor \<le> p_seq turn" if "turn \<in> set (rr_turns r)" for turn
    using oldest_oversize_seq_le [OF that, of c] ov by (auto intro: order_trans)
  moreover have "anchor = next_seq" if "?d = None" "?o = None"
    using that by (simp add: anchor_def same_relay_resume_cursors_def)
  ultimately show ?thesis
    using eq by (intro exI [of _ anchor]) (simp add: list_all_iff)
qed

theorem same_relay_anchor_covers_witness:
  "\<exists>anchor. same_relay_resume_cursors [(3, 9)] (oldest_replayable_seq (lk_acks Link_new) 2)
      (oldest_oversize_seq proto3_codec RetentionRing_default) 2 7 = [(3, 9), (2, anchor)] \<and> anchor = 7"
proof -
  have "bm_wf (am_unacked_payloads (lk_acks Link_new))"
    by (simp add: Link_new_def AckManager_new_def AckManager_with_policy_def)
  moreover have "oldest_replayable_seq (lk_acks Link_new) 2 = None" "oldest_oversize_seq proto3_codec RetentionRing_default = None"
    by (simp_all add: Link_new_def AckManager_new_def AckManager_with_policy_def oldest_replayable_seq_def slot_seqs_def
        oldest_oversize_seq_def RetentionRing_default_def)
  ultimately show ?thesis
    using same_relay_anchor_covers [of Link_new "[(3, 9)]" 2 proto3_codec RetentionRing_default 7] by auto
qed


section \<open>Draining the staged turns loses none\<close>

lemma send_all_append:
  "send_all send s (xs @ ys) = (case send_all send s xs of (Inl e, s') \<Rightarrow> (Inl e, s') | (Inr _, s') \<Rightarrow> send_all send s' ys)"
  by (induction xs arbitrary: s) (auto split: prod.splits sum.splits)

lemma redivert_pending_split:
  assumes "redivert_pending_control c w s pending = (r, s', rest)"
  obtains (all) "r = Inr ()" and "rest = []"
      and "send_all (control_send c w) s (map CallTurn pending) = (Inr (), s')"
  | (failed) e done_turns s1 turn later where "r = Inl e" and "pending = done_turns @ rest" and "rest = turn # later"
      and "send_all (control_send c w) s (map CallTurn done_turns) = (Inr (), s1)"
      and "send_control_turn c w s1 turn = (Inl e, s')"
  using assms
proof (induction pending arbitrary: s thesis)
  case Nil
  then show ?case
    by simp
next
  case (Cons turn pending)
  obtain r1 s1 where t: "send_control_turn c w s turn = (r1, s1)"
    by (cases "send_control_turn c w s turn")
  show ?case
  proof (cases r1)
    case (Inl e)
    then show ?thesis
      using Cons.prems(2) [of e "[]" turn pending s] Cons.prems(3) t by simp
  next
    case (Inr u)
    then have step: "redivert_pending_control c w s1 pending = (r, s', rest)"
      using Cons.prems(3) t by simp
    show ?thesis
    proof (rule Cons.IH [OF _ _ step])
      assume "r = Inr ()" "rest = []" "send_all (control_send c w) s1 (map CallTurn pending) = (Inr (), s')"
      then show ?thesis
        using Cons.prems(1) t Inr by simp
    next
      fix e done_turns s2 turn' later
      assume "r = Inl e" "pending = done_turns @ rest" "rest = turn' # later"
        "send_all (control_send c w) s1 (map CallTurn done_turns) = (Inr (), s2)" "send_control_turn c w s2 turn' = (Inl e, s')"
      then show ?thesis
        using Cons.prems(2) [of e "turn # done_turns" turn' later s2] t Inr by simp
    qed
  qed
qed

lemma redivert_as_send_all:
  assumes "redivert_pending_control c w s pending = (r, s', rest)"
  obtains done_turns where "pending = done_turns @ rest"
    and "send_all (control_send c w) s (map CallTurn (done_turns @ take 1 rest)) = (r, s')"
    and "r = Inr () \<longleftrightarrow> rest = []"
  using assms
proof (cases rule: redivert_pending_split)
  case all
  then show ?thesis
    using that [of pending] by simp
next
  case (failed e done_turns s1 turn later)
  then show ?thesis
    using that [of done_turns] by (simp add: send_all_append)
qed



definition turn_codec :: "unit control_codec" where
  "turn_codec =
     \<lparr>mc_encode = (\<lambda>frame. case cf_kind frame of Some (KOversizeTurn turn) \<Rightarrow> le_bytes 8 (p_seq turn) | _ \<Rightarrow> []),
      mc_decode = (\<lambda>body. Inr \<lparr>cf_kind = Some (KOversizeTurn (retention_probe (of_le_bytes body)))\<rparr>)\<rparr>"


section \<open>The departure is announced once, after the drain\<close>

text \<open>The driver's use of the announcer as a step relation: the game's signal, the result report, the check
  after anything that may have changed the drain state, and the safety timeout, whose branch is armed on
  \<open>deadline\<close>.  The log records what went onto the control stream, and for an intent why.\<close>

datatype announcement = ResultWritten | IntentDrained "Payload list" bool nat | IntentForced nat nat

inductive announcer_step ::
    "'d control_codec \<Rightarrow> ('s \<Rightarrow> u8 list \<Rightarrow> ('w + unit) \<times> 's) \<Rightarrow> bool \<Rightarrow>
       LeaveAnnouncer \<times> announcement list \<Rightarrow> LeaveAnnouncer \<times> announcement list \<Rightarrow> bool"
  for c w result_expected where
  signal: "announcer_step c w result_expected (a, log) (arm now a timeout, log)"
| result: "\<not> la_result_sent a \<Longrightarrow> announcer_step c w result_expected (a, log) (note_result_sent a, log @ [ResultWritten])"
| check: "maybe_send c w result_expected a s outbound held_empty link = (r, a', s') \<Longrightarrow>
    announcer_step c w result_expected (a, log)
      (a', if a' = a then log else log @ [IntentDrained outbound held_empty (payloads_in_flight (lk_acks link))])"
| timeout: "deadline a = Some d \<Longrightarrow> d \<le> now \<Longrightarrow> force_send c w a s = (r, a', s') \<Longrightarrow>
    announcer_step c w result_expected (a, log) (a', if a' = a then log else log @ [IntentForced d now])"

inductive_cases announcer_stepE: "announcer_step c w result_expected (a, log) y"

definition is_intent :: "announcement \<Rightarrow> bool" where
  "is_intent x \<longleftrightarrow> x \<noteq> ResultWritten"

definition justified :: "bool \<Rightarrow> announcement list \<Rightarrow> announcement \<Rightarrow> bool" where
  "justified result_expected earlier x \<longleftrightarrow>
     (case x of
        ResultWritten \<Rightarrow> ResultWritten \<notin> set earlier
      | IntentDrained outbound held_empty in_flight \<Rightarrow>
          outbound = [] \<and> held_empty \<and> in_flight = 0 \<and> (result_expected \<longrightarrow> ResultWritten \<in> set earlier)
      | IntentForced d now \<Rightarrow> d \<le> now)"

fun all_justified :: "bool \<Rightarrow> announcement list \<Rightarrow> announcement list \<Rightarrow> bool" where
  "all_justified result_expected earlier [] = True"
| "all_justified result_expected earlier (x # xs) =
     (justified result_expected earlier x \<and> all_justified result_expected (earlier @ [x]) xs)"

lemma all_justified_snoc:
  "all_justified re earlier (xs @ [x]) \<longleftrightarrow> all_justified re earlier xs \<and> justified re (earlier @ xs) x"
  by (induction xs arbitrary: earlier) auto

definition announcer_inv :: "bool \<Rightarrow> LeaveAnnouncer \<times> announcement list \<Rightarrow> bool" where
  "announcer_inv re = (\<lambda>(a, log).
     length (filter is_intent log) = (if sent a then 1 else 0) \<and>
     (la_result_sent a \<longleftrightarrow> ResultWritten \<in> set log) \<and> all_justified re [] log)"

lemmas announcer_defs = announcer_inv_def sent_def is_intent_def justified_def all_justified_snoc arm_def note_result_sent_def
  maybe_send_def force_send_def ready_to_send_def awaiting_result_def deadline_def

lemma announcer_step_inv:
  assumes "announcer_step c w re x y" and "announcer_inv re x"
  shows "announcer_inv re y"
  using assms
proof (cases rule: announcer_step.cases)
  case (check a s outbound held_empty link r a' s' log)
  then show ?thesis
    using assms(2) by (auto simp: announcer_defs split: if_splits prod.splits sum.splits LeaveState.splits)
next
  case (timeout a d now s r a' s' log)
  then show ?thesis
    using assms(2) by (auto simp: announcer_defs split: if_splits prod.splits sum.splits LeaveState.splits)
qed (auto simp: announcer_defs)


lemma probe_intent_sent: "fst (send_control_leave_intent probe_codec probe_write ([], 100)) = Inr ()"
  by (simp add: send_control_leave_intent_def write_frame_def encode_frame_ok frame_bytes_def probe_codec_def
      probe_write_def CONTROL_LEN_PREFIX_def MAX_CONTROL_FRAME_LEN_def)


end
