(* ===== verification/ProvisionalTurns.thy ===== *)
theory ProvisionalTurns
  imports TurnRing Messages
begin

text \<open>
  The journal for ingress from provisionally admitted clients,
  \<open>relay/src/session/provisional_turns/mod.rs\<close>, and the order in which descriptor application
  (\<open>relay/src/mesh/control/apply.rs\<close>) drains it.  One mutex makes every operation atomic, so the state is
  passed along.  \<open>usize\<close> is \<open>nat\<close>; \<open>saturating_add\<close> keeps its ceiling.
\<close>

section \<open>Journal entries\<close>

definition PER_SESSION_CAP :: nat where
  "PER_SESSION_CAP = 4096"

datatype PennedIngress =
    Turn SlotId Payload
  | Lobby SlotId LobbyCommand
  | GameStarted SlotId
  | Departure (dep_slot: SlotId) (dep_reason: u32) (dep_epoch: "u64 option") (dep_revision: u64)

datatype HoldOutcome = Held | Resolved PennedIngress | Overflow PennedIngress

datatype Phase = Gathering "PennedIngress list" | Draining "PennedIngress list" | PhaseResolved

record LobbyUsage =
  lu_count :: nat
  lu_bytes :: nat

record SessionPen =
  pen_phase :: Phase
  pen_sealed :: "SlotId set"
  pen_departure_revisions :: "SlotId \<rightharpoonup> u64"
  pen_in_flight_turns :: "(SlotId \<times> u64) list"
  pen_turn_count :: nat
  pen_lobby_usage :: "SlotId \<rightharpoonup> LobbyUsage"
  pen_started_slots :: "SlotId set"

definition SessionPen_gathering :: SessionPen where
  "SessionPen_gathering =
     \<lparr>pen_phase = Gathering [], pen_sealed = {}, pen_departure_revisions = Map.empty, pen_in_flight_turns = [],
      pen_turn_count = 0, pen_lobby_usage = Map.empty, pen_started_slots = {}\<rparr>"

fun turn_identity :: "PennedIngress \<Rightarrow> (SlotId \<times> u64) option" where
  "turn_identity (Turn slot payload) = Some (slot, p_seq payload)"
| "turn_identity (Lobby _ _) = None"
| "turn_identity (GameStarted _) = None"
| "turn_identity (Departure _ _ _ _) = None"

definition turn_identities :: "PennedIngress list \<Rightarrow> (SlotId \<times> u64) list" where
  "turn_identities batch = List.map_filter turn_identity batch"

datatype DrainStep = More "PennedIngress list" | Done

definition AGGREGATE_TURN_BYTE_BUDGET :: nat where
  "AGGREGATE_TURN_BYTE_BUDGET = 64 * 1024 * 1024"

definition MAX_JOURNALED_SESSIONS :: nat where
  "MAX_JOURNALED_SESSIONS = 4096"

definition JOURNAL_ENVELOPE_BYTES :: nat where
  "JOURNAL_ENVELOPE_BYTES = 64"

fun entry_resident_bytes :: "PennedIngress \<Rightarrow> nat" where
  "entry_resident_bytes (Turn _ payload) = payload_command_bytes payload + JOURNAL_ENVELOPE_BYTES"
| "entry_resident_bytes (Lobby _ command) = length (lc_payload command) + JOURNAL_ENVELOPE_BYTES"
| "entry_resident_bytes (GameStarted _) = 0"
| "entry_resident_bytes (Departure _ _ _ _) = 0"

definition LEAVE_REASON_LEFT :: u32 where
  "LEAVE_REASON_LEFT = 3"

section \<open>The journal\<close>

record ProvisionalTurnPen =
  pn_armed :: bool
  pn_resident_byte_budget :: nat
  pn_max_sessions :: nat
  pn_sessions :: "SessionKey \<rightharpoonup> SessionPen"
  pn_resident_bytes :: nat

definition ProvisionalTurnPen_default :: ProvisionalTurnPen where
  "ProvisionalTurnPen_default =
     \<lparr>pn_armed = False, pn_resident_byte_budget = AGGREGATE_TURN_BYTE_BUDGET, pn_max_sessions = MAX_JOURNALED_SESSIONS,
      pn_sessions = Map.empty, pn_resident_bytes = 0\<rparr>"

definition with_session_ceiling :: "nat \<Rightarrow> ProvisionalTurnPen" where
  "with_session_ceiling max_sessions = ProvisionalTurnPen_default\<lparr>pn_max_sessions := max_sessions\<rparr>"

definition arm_pen :: "ProvisionalTurnPen \<Rightarrow> ProvisionalTurnPen" where
  "arm_pen pn = pn\<lparr>pn_armed := True\<rparr>"

definition put_pen :: "ProvisionalTurnPen \<Rightarrow> SessionKey \<Rightarrow> SessionPen \<Rightarrow> ProvisionalTurnPen" where
  "put_pen pn key pen = pn\<lparr>pn_sessions := (pn_sessions pn)(key \<mapsto> pen)\<rparr>"

definition pen_entry :: "ProvisionalTurnPen \<Rightarrow> SessionKey \<Rightarrow> SessionPen" where
  "pen_entry pn key = (case pn_sessions pn key of Some pen \<Rightarrow> pen | None \<Rightarrow> SessionPen_gathering)"

definition reserve :: "ProvisionalTurnPen \<Rightarrow> SessionKey \<Rightarrow> bool \<times> ProvisionalTurnPen" where
  "reserve pn key =
     (if key \<in> dom (pn_sessions pn) then (True, pn)
      else if pn_max_sessions pn \<le> card (dom (pn_sessions pn)) then (False, pn)
      else (True, put_pen pn key SessionPen_gathering))"

fun phase_queue :: "Phase \<Rightarrow> PennedIngress list" where
  "phase_queue (Gathering queue) = queue"
| "phase_queue (Draining queue) = queue"
| "phase_queue PhaseResolved = []"

fun set_queue :: "Phase \<Rightarrow> PennedIngress list \<Rightarrow> Phase" where
  "set_queue (Gathering _) queue = Gathering queue"
| "set_queue (Draining _) queue = Draining queue"
| "set_queue PhaseResolved _ = PhaseResolved"

fun is_departure_of :: "SlotId \<Rightarrow> PennedIngress \<Rightarrow> bool" where
  "is_departure_of slot (Departure s _ _ _) \<longleftrightarrow> s = slot"
| "is_departure_of slot _ \<longleftrightarrow> False"

text \<open>The admission checks of a turn and of a lobby command: the pen with its counters advanced, or the slot
  to seal.\<close>

definition hold_turn :: "bool \<Rightarrow> SessionPen \<Rightarrow> SlotId \<Rightarrow> SessionPen + SessionPen" where
  "hold_turn over_budget pen slot =
     (if PER_SESSION_CAP \<le> pen_turn_count pen \<or> over_budget
      then Inl (pen\<lparr>pen_sealed := insert slot (pen_sealed pen)\<rparr>)
      else Inr (pen\<lparr>pen_turn_count := pen_turn_count pen + 1\<rparr>))"

definition hold_lobby :: "bool \<Rightarrow> SessionPen \<Rightarrow> SlotId \<Rightarrow> LobbyCommand \<Rightarrow> SessionPen + SessionPen" where
  "hold_lobby over_budget pen slot command =
     (let usage = (case pen_lobby_usage pen slot of Some u \<Rightarrow> u | None \<Rightarrow> \<lparr>lu_count = 0, lu_bytes = 0\<rparr>);
          pen1 = pen\<lparr>pen_lobby_usage := (pen_lobby_usage pen)(slot \<mapsto> usage)\<rparr>
      in if LOG_MAX_COMMANDS \<le> lu_count usage \<or> LOG_MAX_BYTES < usize_saturating_add (lu_bytes usage) (length (lc_payload command)) \<or> over_budget
         then Inl (pen1\<lparr>pen_sealed := insert slot (pen_sealed pen1)\<rparr>)
         else Inr (pen1\<lparr>pen_lobby_usage := (pen_lobby_usage pen1)(slot \<mapsto>
                \<lparr>lu_count = lu_count usage + 1, lu_bytes = lu_bytes usage + length (lc_payload command)\<rparr>)\<rparr>))"

definition hold_departure :: "SessionPen \<Rightarrow> SlotId \<Rightarrow> u32 \<Rightarrow> u64 option \<Rightarrow> (PennedIngress \<times> SessionPen) option" where
  "hold_departure pen slot reason epoch =
     (let pen1 = (if reason = LEAVE_REASON_LEFT then pen\<lparr>pen_sealed := insert slot (pen_sealed pen)\<rparr> else pen);
          current = (case pen_departure_revisions pen1 slot of Some r \<Rightarrow> r | None \<Rightarrow> 0)
      in map_option (\<lambda>revision.
             (Departure slot reason epoch revision,
              pen1\<lparr>pen_departure_revisions := (pen_departure_revisions pen1)(slot \<mapsto> revision),
                   pen_phase := set_queue (pen_phase pen1)
                     (filter (\<lambda>queued. \<not> is_departure_of slot queued) (phase_queue (pen_phase pen1)))\<rparr>))
           (checked_add current 1))"

definition hold_push :: "ProvisionalTurnPen \<Rightarrow> SessionKey \<Rightarrow> SessionPen \<Rightarrow> PennedIngress \<Rightarrow> ProvisionalTurnPen" where
  "hold_push pn key pen entry =
     (put_pen pn key (pen\<lparr>pen_phase := set_queue (pen_phase pen) (phase_queue (pen_phase pen) @ [entry])\<rparr>))
       \<lparr>pn_resident_bytes := pn_resident_bytes pn + entry_resident_bytes entry\<rparr>"

definition hold :: "ProvisionalTurnPen \<Rightarrow> SessionKey \<Rightarrow> PennedIngress \<Rightarrow> (HoldOutcome \<times> ProvisionalTurnPen) option" where
  "hold pn key entry =
     (if key \<notin> dom (pn_sessions pn) \<and> pn_max_sessions pn \<le> card (dom (pn_sessions pn))
      then Some (Overflow entry, pn)
      else
        (let over_budget = pn_resident_byte_budget pn < usize_saturating_add (pn_resident_bytes pn) (entry_resident_bytes entry);
             pen = pen_entry pn key
         in if pen_phase pen = PhaseResolved then Some (Resolved entry, put_pen pn key pen)
            else
              (case entry of
                 Turn slot _ \<Rightarrow>
                   (case hold_turn over_budget pen slot of
                      Inl pen' \<Rightarrow> Some (Overflow entry, put_pen pn key pen')
                    | Inr pen' \<Rightarrow> Some (Held, hold_push pn key pen' entry))
               | Lobby slot command \<Rightarrow>
                   (case hold_lobby over_budget pen slot command of
                      Inl pen' \<Rightarrow> Some (Overflow entry, put_pen pn key pen')
                    | Inr pen' \<Rightarrow> Some (Held, hold_push pn key pen' entry))
               | GameStarted slot \<Rightarrow>
                   if slot \<in> pen_started_slots pen then Some (Held, put_pen pn key pen)
                   else Some (Held, hold_push pn key (pen\<lparr>pen_started_slots := insert slot (pen_started_slots pen)\<rparr>) entry)
               | Departure slot reason epoch _ \<Rightarrow>
                   map_option (\<lambda>(entry', pen'). (Held, hold_push pn key pen' entry'))
                     (hold_departure pen slot reason epoch))))"

definition departure_is_current :: "ProvisionalTurnPen \<Rightarrow> SessionKey \<Rightarrow> SlotId \<Rightarrow> u64 \<Rightarrow> bool" where
  "departure_is_current pn key slot revision \<longleftrightarrow>
     (case pn_sessions pn key of None \<Rightarrow> False | Some pen \<Rightarrow> pen_departure_revisions pen slot = Some revision)"

definition slot_sealed :: "ProvisionalTurnPen \<Rightarrow> SessionKey \<Rightarrow> SlotId \<Rightarrow> bool" where
  "slot_sealed pn key slot \<longleftrightarrow> (case pn_sessions pn key of None \<Rightarrow> False | Some pen \<Rightarrow> slot \<in> pen_sealed pen)"

definition begin_drain :: "ProvisionalTurnPen \<Rightarrow> SessionKey \<Rightarrow> PennedIngress list option \<times> ProvisionalTurnPen" where
  "begin_drain pn key =
     (let pen = pen_entry pn key
      in case pen_phase pen of
           Gathering queue \<Rightarrow>
             (Some queue, put_pen pn key (pen\<lparr>pen_turn_count := 0, pen_in_flight_turns := turn_identities queue,
                                             pen_phase := Draining []\<rparr>))
         | Draining _ \<Rightarrow> (None, put_pen pn key pen)
         | PhaseResolved \<Rightarrow> (None, put_pen pn key pen))"

definition release_drained :: "ProvisionalTurnPen \<Rightarrow> nat \<Rightarrow> ProvisionalTurnPen" where
  "release_drained pn bytes = pn\<lparr>pn_resident_bytes := pn_resident_bytes pn - bytes\<rparr>"

definition continue_drain :: "ProvisionalTurnPen \<Rightarrow> SessionKey \<Rightarrow> DrainStep \<times> ProvisionalTurnPen" where
  "continue_drain pn key =
     (case pn_sessions pn key of
        None \<Rightarrow> (Done, pn)
      | Some pen0 \<Rightarrow>
          (let pen = pen0\<lparr>pen_in_flight_turns := []\<rparr>
           in case pen_phase pen of
                Draining queue \<Rightarrow>
                  if queue = [] then (Done, put_pen pn key (pen\<lparr>pen_phase := PhaseResolved\<rparr>))
                  else (More queue, put_pen pn key (pen\<lparr>pen_phase := Draining [], pen_turn_count := 0,
                                                       pen_in_flight_turns := turn_identities queue\<rparr>))
              | Gathering _ \<Rightarrow> (Done, put_pen pn key pen)
              | PhaseResolved \<Rightarrow> (Done, put_pen pn key pen)))"

definition queue_bytes :: "PennedIngress list \<Rightarrow> nat" where
  "queue_bytes queue = sum_list (map entry_resident_bytes queue)"

definition discard :: "ProvisionalTurnPen \<Rightarrow> SessionKey \<Rightarrow> ProvisionalTurnPen" where
  "discard pn key =
     (case pn_sessions pn key of
        None \<Rightarrow> pn
      | Some pen \<Rightarrow>
          pn\<lparr>pn_sessions := (pn_sessions pn)(key := None),
             pn_resident_bytes := pn_resident_bytes pn - queue_bytes (phase_queue (pen_phase pen))\<rparr>)"

definition is_unresolved :: "ProvisionalTurnPen \<Rightarrow> SessionKey \<Rightarrow> bool" where
  "is_unresolved pn key \<longleftrightarrow> (case pn_sessions pn key of None \<Rightarrow> False | Some pen \<Rightarrow> pen_phase pen \<noteq> PhaseResolved)"

definition has_undrained :: "ProvisionalTurnPen \<Rightarrow> SessionKey \<Rightarrow> bool" where
  "has_undrained pn key \<longleftrightarrow> (case pn_sessions pn key of None \<Rightarrow> False | Some pen \<Rightarrow> phase_queue (pen_phase pen) \<noteq> [])"

definition held_turn_seqs :: "ProvisionalTurnPen \<Rightarrow> SessionKey \<Rightarrow> SlotId \<Rightarrow> u64 list" where
  "held_turn_seqs pn key slot =
     (case pn_sessions pn key of
        None \<Rightarrow> []
      | Some pen \<Rightarrow>
          map snd (filter (\<lambda>(s, _). s = slot) (turn_identities (phase_queue (pen_phase pen)))) @
          map snd (filter (\<lambda>(s, _). s = slot) (pen_in_flight_turns pen)))"

definition discard_if_empty :: "ProvisionalTurnPen \<Rightarrow> SessionKey \<Rightarrow> bool \<times> ProvisionalTurnPen" where
  "discard_if_empty pn key =
     (case pn_sessions pn key of
        None \<Rightarrow> (True, pn)
      | Some pen \<Rightarrow>
          if pen_phase pen = Gathering [] \<and> pen_sealed pen = {}
          then (True, pn\<lparr>pn_sessions := (pn_sessions pn)(key := None)\<rparr>)
          else (False, pn))"


section \<open>What the operations do to a session's queue\<close>

definition pen_queue :: "ProvisionalTurnPen \<Rightarrow> SessionKey \<Rightarrow> PennedIngress list" where
  "pen_queue pn key = phase_queue (pen_phase (pen_entry pn key))"

definition in_flight :: "ProvisionalTurnPen \<Rightarrow> SessionKey \<Rightarrow> (SlotId \<times> u64) list" where
  "in_flight pn key = pen_in_flight_turns (pen_entry pn key)"

definition gathers :: "ProvisionalTurnPen \<Rightarrow> SessionKey \<Rightarrow> bool" where
  "gathers pn key \<longleftrightarrow> (case pen_phase (pen_entry pn key) of Gathering _ \<Rightarrow> True | _ \<Rightarrow> False)"

fun is_payload :: "PennedIngress \<Rightarrow> bool" where
  "is_payload (Turn _ _) = True"
| "is_payload (Lobby _ _) = True"
| "is_payload (GameStarted _) = False"
| "is_payload (Departure _ _ _ _) = False"

definition payload_part :: "PennedIngress list \<Rightarrow> PennedIngress list" where
  "payload_part queue = filter is_payload queue"

lemma payload_part_simps [simp]:
  "payload_part [] = []" "payload_part (xs @ ys) = payload_part xs @ payload_part ys"
  by (simp_all add: payload_part_def)

lemma queue_bytes_simps [simp]:
  "queue_bytes [] = 0" "queue_bytes (xs @ ys) = queue_bytes xs + queue_bytes ys" "queue_bytes [x] = entry_resident_bytes x"
  by (simp_all add: queue_bytes_def)

lemma turn_identities_append [simp]: "turn_identities (xs @ ys) = turn_identities xs @ turn_identities ys"
  by (simp add: turn_identities_def List.map_filter_def)

lemma turn_identities_payload [simp]: "turn_identities (payload_part queue) = turn_identities queue"
proof (induction queue)
  case (Cons x queue)
  then show ?case
    by (cases x) (simp_all add: turn_identities_def payload_part_def)
qed simp

lemma drop_departures:
  "payload_part (filter (\<lambda>queued. \<not> is_departure_of slot queued) queue) = payload_part queue"
  "queue_bytes (filter (\<lambda>queued. \<not> is_departure_of slot queued) queue) = queue_bytes queue"
proof (induction queue)
  case (Cons x queue)
  then show "payload_part (filter (\<lambda>queued. \<not> is_departure_of slot queued) (x # queue)) = payload_part (x # queue)"
    and "queue_bytes (filter (\<lambda>queued. \<not> is_departure_of slot queued) (x # queue)) = queue_bytes (x # queue)"
    by (cases x; simp add: payload_part_def queue_bytes_def)+
qed simp_all

lemma pen_entry_put [simp]: "pen_entry (put_pen pn key pen) k = (if k = key then pen else pen_entry pn k)"
  by (simp add: pen_entry_def put_pen_def)

lemma pen_entry_resident [simp]: "pen_entry (pn\<lparr>pn_resident_bytes := b\<rparr>) k = pen_entry pn k"
  by (simp add: pen_entry_def)

lemma put_pen_fields [simp]:
  "pn_resident_bytes (put_pen pn key pen) = pn_resident_bytes pn"
  "pn_resident_byte_budget (put_pen pn key pen) = pn_resident_byte_budget pn"
  "pn_max_sessions (put_pen pn key pen) = pn_max_sessions pn"
  by (simp_all add: put_pen_def)

lemma phase_queue_set_queue: "phase \<noteq> PhaseResolved \<Longrightarrow> phase_queue (set_queue phase queue) = queue"
  by (cases phase) simp_all

lemma set_queue_resolved [simp]: "set_queue phase queue = PhaseResolved \<longleftrightarrow> phase = PhaseResolved"
  by (cases phase) simp_all

lemma set_queue_gathers [simp]:
  "(case set_queue phase queue of Gathering _ \<Rightarrow> True | _ \<Rightarrow> False) = (case phase of Gathering _ \<Rightarrow> True | _ \<Rightarrow> False)"
  by (cases phase) simp_all

text \<open>The outcomes of a deposit.  A pen that only its counters, seals, revisions or started slots change keeps
  its phase and its in-flight shadow.\<close>

definition same_queue :: "SessionPen \<Rightarrow> SessionPen \<Rightarrow> bool" where
  "same_queue pen pen' \<longleftrightarrow> pen_phase pen' = pen_phase pen \<and> pen_in_flight_turns pen' = pen_in_flight_turns pen \<and>
     pen_departure_revisions pen' = pen_departure_revisions pen \<and> pen_sealed pen \<subseteq> pen_sealed pen'"

definition entry_fits :: "ProvisionalTurnPen \<Rightarrow> PennedIngress \<Rightarrow> bool" where
  "entry_fits pn entry \<longleftrightarrow> entry_resident_bytes entry = 0 \<or>
     usize_saturating_add (pn_resident_bytes pn) (entry_resident_bytes entry) \<le> pn_resident_byte_budget pn"

fun entry_slot :: "PennedIngress \<Rightarrow> SlotId" where
  "entry_slot (Turn slot _) = slot"
| "entry_slot (Lobby slot _) = slot"
| "entry_slot (GameStarted slot) = slot"
| "entry_slot (Departure slot _ _ _) = slot"

lemma hold_cases:
  assumes "hold pn key entry = Some (r, pn')"
  obtains (ceiling) "r = Overflow entry" and "pn' = pn" and "key \<notin> dom (pn_sessions pn)"
  | (resolved) "r = Resolved entry" and "pn' = put_pen pn key (pen_entry pn key)"
      and "pen_phase (pen_entry pn key) = PhaseResolved"
  | (overflow) pen' where "r = Overflow entry" and "pn' = put_pen pn key pen'" and "same_queue (pen_entry pn key) pen'"
      and "entry_slot entry \<in> pen_sealed pen'" and "is_payload entry" and "pen_phase (pen_entry pn key) \<noteq> PhaseResolved"
  | (repeated) slot where "r = Held" and "pn' = put_pen pn key (pen_entry pn key)" and "entry = GameStarted slot"
      and "pen_phase (pen_entry pn key) \<noteq> PhaseResolved"
  | (queued) pen' where "r = Held" and "pn' = hold_push pn key pen' entry" and "same_queue (pen_entry pn key) pen'"
      and "pen_phase (pen_entry pn key) \<noteq> PhaseResolved" and "entry_fits pn entry" and "\<forall>slot. \<not> is_departure_of slot entry"
  | (departed) slot reason epoch rev pen' revision where "r = Held" and "entry = Departure slot reason epoch rev"
      and "hold_departure (pen_entry pn key) slot reason epoch = Some (Departure slot reason epoch revision, pen')"
      and "pn' = hold_push pn key pen' (Departure slot reason epoch revision)"
      and "pen_phase (pen_entry pn key) \<noteq> PhaseResolved"
proof (cases "key \<notin> dom (pn_sessions pn) \<and> pn_max_sessions pn \<le> card (dom (pn_sessions pn))")
  case True
  then show ?thesis
    using assms by (intro ceiling) (simp_all add: hold_def)
next
  case tracked: False
  show ?thesis
  proof (cases "pen_phase (pen_entry pn key) = PhaseResolved")
    case True
    then show ?thesis
      using assms tracked by (intro resolved) (simp_all add: hold_def Let_def)
  next
    case open_phase: False
    note hold' = assms [unfolded hold_def, simplified tracked Let_def open_phase if_False]
    show ?thesis
    proof (cases entry)
      case (Turn slot payload)
      then show ?thesis
        using hold' open_phase
        by (auto simp: hold_turn_def same_queue_def entry_fits_def intro: overflow queued split: if_splits)
    next
      case (Lobby slot command)
      then show ?thesis
        using hold' open_phase
        by (auto simp: hold_lobby_def Let_def same_queue_def entry_fits_def intro: overflow queued split: if_splits)
    next
      case (GameStarted slot)
      then show ?thesis
        using hold' open_phase
        by (auto simp: same_queue_def entry_fits_def intro: repeated queued split: if_splits)
    next
      case (Departure slot reason epoch rev)
      then show ?thesis
        using hold' open_phase by (auto simp: hold_departure_def Let_def intro: departed)
    qed
  qed
qed


lemma hold_departure_spec:
  assumes "hold_departure pen slot reason epoch = Some (entry', pen')" and "pen_phase pen \<noteq> PhaseResolved"
  shows "payload_part (phase_queue (pen_phase pen')) = payload_part (phase_queue (pen_phase pen))"
    and "queue_bytes (phase_queue (pen_phase pen')) = queue_bytes (phase_queue (pen_phase pen))"
    and "phase_queue (pen_phase pen') = filter (\<lambda>queued. \<not> is_departure_of slot queued) (phase_queue (pen_phase pen))"
    and "pen_phase pen' \<noteq> PhaseResolved" and "pen_in_flight_turns pen' = pen_in_flight_turns pen"
    and "(case pen_phase pen' of Gathering _ \<Rightarrow> True | _ \<Rightarrow> False) = (case pen_phase pen of Gathering _ \<Rightarrow> True | _ \<Rightarrow> False)"
    and "pen_departure_revisions pen' slot = Some (dep_revision entry')"
    and "pen_sealed pen \<subseteq> pen_sealed pen'" and "reason = LEAVE_REASON_LEFT \<Longrightarrow> slot \<in> pen_sealed pen'"
  using assms by (auto simp: hold_departure_def Let_def drop_departures phase_queue_set_queue split: if_splits)

lemma hold_push_simps [simp]:
  "pen_entry (hold_push pn key pen entry) k =
     (if k = key then pen\<lparr>pen_phase := set_queue (pen_phase pen) (phase_queue (pen_phase pen) @ [entry])\<rparr> else pen_entry pn k)"
  "pn_resident_bytes (hold_push pn key pen entry) = pn_resident_bytes pn + entry_resident_bytes entry"
  "pn_resident_byte_budget (hold_push pn key pen entry) = pn_resident_byte_budget pn"
  by (simp_all add: hold_push_def)

text \<open>What matters of a deposit for the journal: only its own session's queue changes, by an accepted turn or
  command at the end; the bytes charged are those queued.\<close>

definition deposited :: "SessionKey \<Rightarrow> PennedIngress list \<Rightarrow> ProvisionalTurnPen \<Rightarrow> ProvisionalTurnPen \<Rightarrow> bool" where
  "deposited key added pn pn' \<longleftrightarrow>
     (\<forall>k. k \<noteq> key \<longrightarrow> pen_entry pn' k = pen_entry pn k) \<and>
     payload_part (pen_queue pn' key) = payload_part (pen_queue pn key) @ added \<and>
     queue_bytes (pen_queue pn' key) + pn_resident_bytes pn = queue_bytes (pen_queue pn key) + pn_resident_bytes pn' \<and>
     in_flight pn' key = in_flight pn key \<and> gathers pn' key = gathers pn key \<and>
     pn_resident_byte_budget pn' = pn_resident_byte_budget pn"

lemmas deposited_defs = deposited_def pen_queue_def in_flight_def gathers_def

lemma hold_effect:
  assumes "hold pn key entry = Some (r, pn')"
  shows "deposited key (if r = Held then payload_part [entry] else []) pn pn'"
  using assms
proof (cases rule: hold_cases)
  case (queued pen')
  then have "payload_part [entry] = filter is_payload [entry]"
    by (simp add: payload_part_def)
  then show ?thesis
    using queued by (simp add: deposited_defs same_queue_def phase_queue_set_queue)
next
  case (departed slot reason epoch rev pen' revision)
  note spec = hold_departure_spec [OF departed(3,5)]
  have "payload_part [Departure slot reason epoch v] = []" for v
    by (simp add: payload_part_def)
  then show ?thesis
    using departed(1,2,4) spec(1,2,4,5,6) by (simp add: deposited_defs phase_queue_set_queue)
next
  case (repeated slot)
  then show ?thesis
    by (simp add: deposited_defs payload_part_def)
qed (simp_all add: deposited_defs same_queue_def)

lemma hold_within_budget:
  assumes "hold pn key entry = Some (r, pn')" and "pn_resident_bytes pn \<le> pn_resident_byte_budget pn"
    and "pn_resident_byte_budget pn < usize_max"
  shows "pn_resident_bytes pn' \<le> pn_resident_byte_budget pn'"
  using assms(1)
  by (cases rule: hold_cases) (use assms(2,3) in \<open>auto simp: entry_fits_def usize_saturating_add_def\<close>)


lemma reserve_effect: "reserve pn key = (r, pn') \<Longrightarrow> deposited key [] pn pn' \<and> pn_resident_bytes pn' = pn_resident_bytes pn"
  by (auto simp: reserve_def deposited_defs pen_entry_def put_pen_def SessionPen_gathering_def split: if_splits option.splits)

section \<open>One deposit\<close>

fun held_ok :: "ProvisionalTurnPen \<Rightarrow> SessionKey \<Rightarrow> PennedIngress \<Rightarrow> bool" where
  "held_ok pn key (Turn slot payload) \<longleftrightarrow> suffix [Turn slot payload] (pen_queue pn key)"
| "held_ok pn key (Lobby slot command) \<longleftrightarrow> suffix [Lobby slot command] (pen_queue pn key)"
| "held_ok pn key (GameStarted slot) \<longleftrightarrow> slot \<in> pen_started_slots (pen_entry pn key)"
| "held_ok pn key (Departure slot reason epoch _) \<longleftrightarrow>
     (\<exists>revision. filter (is_departure_of slot) (pen_queue pn key) = [Departure slot reason epoch revision] \<and>
        departure_is_current pn key slot revision) \<and>
     (reason = LEAVE_REASON_LEFT \<longrightarrow> slot_sealed pn key slot)"

definition deposit_ok :: "ProvisionalTurnPen \<Rightarrow> SessionKey \<Rightarrow> PennedIngress \<Rightarrow> HoldOutcome \<Rightarrow> ProvisionalTurnPen \<Rightarrow> bool" where
  "deposit_ok pn key entry r pn' \<longleftrightarrow>
     (case r of
        Held \<Rightarrow> held_ok pn' key entry
      | Resolved e \<Rightarrow> e = entry \<and> pen_entry pn' = pen_entry pn \<and> pen_phase (pen_entry pn key) = PhaseResolved
      | Overflow e \<Rightarrow> e = entry \<and> pen_queue pn' = pen_queue pn \<and> pn_resident_bytes pn' = pn_resident_bytes pn \<and>
          (key \<in> dom (pn_sessions pn') \<longrightarrow> slot_sealed pn' key (entry_slot entry)))"

lemma dom_put_pen: "pn_sessions (put_pen pn key pen) = (pn_sessions pn)(key \<mapsto> pen)"
  by (simp add: put_pen_def)

lemma dom_hold_push: "pn_sessions (hold_push pn key pen entry) key \<noteq> None"
  by (simp add: hold_push_def put_pen_def)

lemma slot_sealed_entry: "slot_sealed pn key slot \<longleftrightarrow> slot \<in> pen_sealed (pen_entry pn key)"
  by (simp add: slot_sealed_def pen_entry_def SessionPen_gathering_def split: option.split)

lemma departure_is_current_entry:
  "departure_is_current pn key slot revision \<longleftrightarrow> pen_departure_revisions (pen_entry pn key) slot = Some revision"
  by (simp add: departure_is_current_def pen_entry_def SessionPen_gathering_def split: option.split)

lemma queued_started:
  assumes "hold pn key (GameStarted slot) = Some (Held, pn')"
  shows "slot \<in> pen_started_slots (pen_entry pn' key)"
  using assms by (auto simp: hold_def Let_def split: if_splits)

text \<open>C34: What a deposit does on every outcome.  An accepted turn or command is at the end of its session's
  queue; an accepted start report is recorded for its slot; an accepted departure is the only one queued
  for its slot and carries the slot's current revision, and a clean leave seals the slot.  A refused
  deposit comes back to the caller and leaves every queue and the byte count as they were; a refused
  turn or command of a tracked session seals its slot.  No deposit ever lifts a seal.\<close>

theorem hold_outcome:
  assumes "hold pn key entry = Some (r, pn')"
  shows "deposit_ok pn key entry r pn' \<and> (\<forall>k slot. slot_sealed pn k slot \<longrightarrow> slot_sealed pn' k slot)"
  using assms
proof (cases rule: hold_cases)
  case ceiling
  then show ?thesis
    by (auto simp: deposit_ok_def)
next
  case resolved
  then show ?thesis
    by (auto simp: deposit_ok_def fun_eq_iff slot_sealed_entry)
next
  case (overflow pen')
  then show ?thesis
    by (auto simp: deposit_ok_def fun_eq_iff slot_sealed_entry pen_queue_def same_queue_def)
next
  case (repeated slot)
  then show ?thesis
    using queued_started [of pn key slot pn'] assms by (simp add: deposit_ok_def slot_sealed_entry)
next
  case (queued pen')
  have "held_ok pn' key entry"
  proof (cases entry)
    case (GameStarted slot)
    then show ?thesis
      using queued_started [of pn key slot pn'] assms queued(1) by simp
  next
    case (Departure slot reason epoch rev)
    then show ?thesis
      using queued(6) by simp
  qed (use queued in \<open>auto simp: pen_queue_def same_queue_def phase_queue_set_queue suffix_def\<close>)
  then show ?thesis
    using queued by (auto simp: deposit_ok_def slot_sealed_entry same_queue_def)
next
  case (departed slot reason epoch rev pen' revision)
  note spec = hold_departure_spec [OF departed(3,5)]
  have "filter (is_departure_of slot) (filter (\<lambda>queued. \<not> is_departure_of slot queued) q) = []" for q
    by (simp add: filter_empty_conv)
  then show ?thesis
    using departed(1,2,4) spec(3,4,7,8,9)
    by (auto simp: deposit_ok_def slot_sealed_entry departure_is_current_entry pen_queue_def phase_queue_set_queue)
qed


definition journal_key :: SessionKey where
  "journal_key = \<lparr>sk_tenant = ''t'', sk_session = 1\<rparr>"

definition journal_turn :: PennedIngress where
  "journal_turn = Turn 1 (en_payload (ring_probe_turn 1 7))"

lemma journal_turn_bytes: "entry_resident_bytes journal_turn = 66"
  by (simp add: journal_turn_def ring_probe_turn_def payload_command_bytes_def JOURNAL_ENVELOPE_BYTES_def)

lemma hold_journal_turn:
  "hold (with_session_ceiling 4) journal_key journal_turn =
     Some (Held, hold_push (with_session_ceiling 4) journal_key (SessionPen_gathering\<lparr>pen_turn_count := 1\<rparr>) journal_turn)"
  using journal_turn_bytes
  by (simp add: hold_def Let_def with_session_ceiling_def ProvisionalTurnPen_default_def pen_entry_def journal_turn_def hold_turn_def
      usize_saturating_add_def usize_max_def AGGREGATE_TURN_BYTE_BUDGET_def PER_SESSION_CAP_def SessionPen_gathering_def)

theorem hold_outcome_witness:
  "suffix [journal_turn] (pen_queue (hold_push (with_session_ceiling 4) journal_key
     (SessionPen_gathering\<lparr>pen_turn_count := 1\<rparr>) journal_turn) journal_key)"
  using hold_outcome [OF hold_journal_turn] by (simp add: deposit_ok_def journal_turn_def)

end
