(* ===== verification/JournalSystem.thy ===== *)
theory JournalSystem
  imports ProvisionalTurns
begin

text \<open>
  The provisional-ingress journal together with the drain loop of descriptor application, as a step
  relation, and its two invariants: nothing accepted is lost or reordered, and the byte budget is exact.
\<close>

section \<open>The journal and the drain loop as a system\<close>

text \<open>Descriptor application drains one session at a time and finishes each batch before it asks for more
  (\<open>relay/src/mesh/control/apply.rs\<close>); deposits, admissions, retirements and emptied closes may come
  between any two of its steps.  \<open>js_hands\<close> is the batch the loop of a session has taken and not yet
  released.  The remaining fields are history: the turns and lobby commands accepted for a session since
  its journal began, those of batches replayed to completion, and those of the batch being replayed.\<close>

record journal_sys =
  js_pen :: ProvisionalTurnPen
  js_hands :: "SessionKey \<rightharpoonup> PennedIngress list"
  js_accepted :: "SessionKey \<Rightarrow> PennedIngress list"
  js_finished :: "SessionKey \<Rightarrow> PennedIngress list"
  js_current :: "SessionKey \<Rightarrow> PennedIngress list"

definition journal_init :: "nat \<Rightarrow> journal_sys" where
  "journal_init max_sessions =
     \<lparr>js_pen = with_session_ceiling max_sessions, js_hands = Map.empty, js_accepted = (\<lambda>_. []),
      js_finished = (\<lambda>_. []), js_current = (\<lambda>_. [])\<rparr>"

inductive journal_step :: "journal_sys \<Rightarrow> journal_sys \<Rightarrow> bool" where
  deposit: "hold (js_pen s) key entry = Some (r, pn) \<Longrightarrow>
    journal_step s (s\<lparr>js_pen := pn, js_accepted := (js_accepted s)
      (key := js_accepted s key @ (if r = Held then payload_part [entry] else []))\<rparr>)"
| admission: "reserve (js_pen s) key = (r, pn) \<Longrightarrow> journal_step s (s\<lparr>js_pen := pn\<rparr>)"
| begin_batch: "js_hands s key = None \<Longrightarrow> begin_drain (js_pen s) key = (Some batch, pn) \<Longrightarrow>
    journal_step s (s\<lparr>js_pen := pn, js_hands := (js_hands s)(key \<mapsto> batch),
      js_current := (js_current s)(key := payload_part batch)\<rparr>)"
| begin_refused: "begin_drain (js_pen s) key = (None, pn) \<Longrightarrow> journal_step s (s\<lparr>js_pen := pn\<rparr>)"
| release: "js_hands s key = Some batch \<Longrightarrow>
    journal_step s (s\<lparr>js_pen := release_drained (js_pen s) (queue_bytes batch), js_hands := (js_hands s)(key \<mapsto> [])\<rparr>)"
| continue_more: "js_hands s key = Some [] \<Longrightarrow> continue_drain (js_pen s) key = (More batch, pn) \<Longrightarrow>
    journal_step s (s\<lparr>js_pen := pn, js_hands := (js_hands s)(key \<mapsto> batch),
      js_finished := (js_finished s)(key := js_finished s key @ js_current s key),
      js_current := (js_current s)(key := payload_part batch)\<rparr>)"
| continue_done: "js_hands s key = Some [] \<Longrightarrow> continue_drain (js_pen s) key = (Done, pn) \<Longrightarrow>
    journal_step s (s\<lparr>js_pen := pn, js_hands := (js_hands s)(key := None),
      js_finished := (js_finished s)(key := js_finished s key @ js_current s key),
      js_current := (js_current s)(key := [])\<rparr>)"
| retire: "journal_step s (s\<lparr>js_pen := discard (js_pen s) key, js_accepted := (js_accepted s)(key := []),
      js_finished := (js_finished s)(key := []), js_current := (js_current s)(key := [])\<rparr>)"
| close: "discard_if_empty (js_pen s) key = (r, pn) \<Longrightarrow> journal_step s (s\<lparr>js_pen := pn\<rparr>)"

inductive_cases journal_stepE: "journal_step s s'"

subsection \<open>Order and completeness\<close>

definition session_ok :: "journal_sys \<Rightarrow> SessionKey \<Rightarrow> bool" where
  "session_ok s key \<longleftrightarrow>
     js_accepted s key = js_finished s key @ js_current s key @ payload_part (pen_queue (js_pen s) key) \<and>
     in_flight (js_pen s) key = turn_identities (js_current s key) \<and>
     (gathers (js_pen s) key \<longrightarrow> js_finished s key = [] \<and> js_current s key = [])"

lemmas session_defs = session_ok_def pen_queue_def in_flight_def gathers_def

lemma turn_identities_Nil [simp]: "turn_identities [] = []"
  by (simp add: turn_identities_def)

lemma SessionPen_gathering_simps [simp]:
  "pen_phase SessionPen_gathering = Gathering []" "pen_in_flight_turns SessionPen_gathering = []"
  by (simp_all add: SessionPen_gathering_def)

lemma pen_entry_del [simp]:
  "pen_entry (pn\<lparr>pn_sessions := (pn_sessions pn)(key := None)\<rparr>) k = (if k = key then SessionPen_gathering else pen_entry pn k)"
  by (simp add: pen_entry_def)

lemma pen_entry_Some: "pn_sessions pn key = Some pen \<Longrightarrow> pen_entry pn key = pen"
  by (simp add: pen_entry_def)

lemma pen_entry_None: "pn_sessions pn key = None \<Longrightarrow> pen_entry pn key = SessionPen_gathering"
  by (simp add: pen_entry_def)

lemma pen_entry_discard: "pen_entry (discard pn key) k = (if k = key then SessionPen_gathering else pen_entry pn k)"
  by (auto simp: discard_def pen_entry_def split: option.split)

lemma pen_entry_release [simp]: "pen_entry (release_drained pn b) k = pen_entry pn k"
  by (simp add: release_drained_def)

lemma deposited_session_ok:
  assumes "deposited key added (js_pen s) pn" and "session_ok s k"
  shows "session_ok (s\<lparr>js_pen := pn, js_accepted := (js_accepted s)(key := js_accepted s key @ added)\<rparr>) k"
  using assms by (cases "k = key") (simp_all add: session_ok_def deposited_def, simp add: pen_queue_def in_flight_def gathers_def)

lemma begin_drain_Some:
  assumes "begin_drain pn key = (Some batch, pn')"
  shows "pen_phase (pen_entry pn key) = Gathering batch"
    and "pn' = put_pen pn key ((pen_entry pn key)\<lparr>pen_turn_count := 0, pen_in_flight_turns := turn_identities batch, pen_phase := Draining []\<rparr>)"
  using assms by (auto simp: begin_drain_def Let_def split: Phase.splits)

lemma begin_drain_None:
  assumes "begin_drain pn key = (None, pn')"
  shows "pn' = put_pen pn key (pen_entry pn key)"
  using assms by (auto simp: begin_drain_def Let_def split: Phase.splits)

lemma continue_drain_More:
  assumes "continue_drain pn key = (More batch, pn')"
  shows "pen_phase (pen_entry pn key) = Draining batch"
    and "pn' = put_pen pn key ((pen_entry pn key)\<lparr>pen_phase := Draining [], pen_turn_count := 0, pen_in_flight_turns := turn_identities batch\<rparr>)"
  using assms by (auto simp: continue_drain_def Let_def pen_entry_def split: option.splits Phase.splits if_splits)

lemma continue_drain_Done:
  assumes "continue_drain pn key = (Done, pn')"
  obtains (untracked) "pn_sessions pn key = None" and "pn' = pn"
  | (resolved) "pen_phase (pen_entry pn key) = Draining []"
      and "pn' = put_pen pn key ((pen_entry pn key)\<lparr>pen_in_flight_turns := [], pen_phase := PhaseResolved\<rparr>)"
  | (idle) "\<forall>queue. pen_phase (pen_entry pn key) \<noteq> Draining queue"
      and "pn' = put_pen pn key ((pen_entry pn key)\<lparr>pen_in_flight_turns := []\<rparr>)"
  using assms by (auto simp: continue_drain_def Let_def pen_entry_def split: option.splits Phase.splits if_splits)

lemma discard_if_empty_cases:
  assumes "discard_if_empty pn key = (r, pn')"
  obtains (kept) "pn' = pn" | (removed) "pn' = pn\<lparr>pn_sessions := (pn_sessions pn)(key := None)\<rparr>"
      and "pen_phase (pen_entry pn key) = Gathering []" and "pen_sealed (pen_entry pn key) = {}"
  using assms by (auto simp: discard_if_empty_def pen_entry_def split: option.splits if_splits)


lemma journal_step_session_ok:
  assumes "journal_step s s'" and "\<And>k. session_ok s k"
  shows "session_ok s' k"
  using assms(1)
proof (cases rule: journal_step.cases)
  case (deposit key entry r pn)
  then show ?thesis
    using deposited_session_ok [OF hold_effect [OF deposit(2)] assms(2)] by simp
next
  case (admission key r pn)
  then show ?thesis
    using deposited_session_ok [OF reserve_effect [OF admission(2), THEN conjunct1] assms(2)] by simp
next
  case (begin_batch key batch pn)
  then show ?thesis
    using assms(2) [of k] begin_drain_Some [OF begin_batch(3)] by (auto simp: session_defs)
next
  case (begin_refused key pn)
  then show ?thesis
    using assms(2) [of k] begin_drain_None [OF begin_refused(2)] by (auto simp: session_defs)
next
  case (release key batch)
  then show ?thesis
    using assms(2) [of k] by (simp add: session_defs)
next
  case (continue_more key batch pn)
  then show ?thesis
    using assms(2) [of k] continue_drain_More [OF continue_more(3)] by (auto simp: session_defs)
next
  case (continue_done key pn)
  from continue_done(3) show ?thesis
    by (cases rule: continue_drain_Done)
       (use continue_done(1) assms(2) [of k] in \<open>auto simp: session_defs pen_entry_None split: Phase.splits\<close>)
next
  case (retire key)
  then show ?thesis
    using assms(2) [of k] by (simp add: session_defs pen_entry_discard)
next
  case (close key r pn)
  from close(2) show ?thesis
    by (cases rule: discard_if_empty_cases) (use close(1) assms(2) [of k] in \<open>auto simp: session_defs\<close>)
qed

lemma journal_session_ok:
  assumes "journal_step\<^sup>*\<^sup>* (journal_init n) s"
  shows "session_ok s k"
  using assms
proof (induction arbitrary: k rule: rtranclp_induct)
  case base
  show ?case
    by (simp add: session_defs journal_init_def with_session_ceiling_def ProvisionalTurnPen_default_def pen_entry_def)
next
  case (step y z)
  then show ?case
    using journal_step_session_ok by blast
qed

text \<open>C3: However deposits, admissions, drains, retirements and emptied closes interleave, the journal loses,
  reorders and repeats nothing it accepted: the turns and lobby commands accepted for a session are, in
  order, those of the batches replayed to completion, those of the batch being replayed and those still
  queued.  Once the session is resolved all of them have been handed to the drain.  The receipts a
  resuming connection is seeded from name every accepted turn that is not yet replayed to completion.\<close>

theorem journal_keeps_accepted_ingress:
  assumes "journal_step\<^sup>*\<^sup>* (journal_init n) s"
  shows "js_accepted s key = js_finished s key @ js_current s key @ payload_part (pen_queue (js_pen s) key) \<and>
    (pen_phase (pen_entry (js_pen s) key) = PhaseResolved \<longrightarrow> js_accepted s key = js_finished s key @ js_current s key) \<and>
    (key \<in> dom (pn_sessions (js_pen s)) \<longrightarrow>
       set (held_turn_seqs (js_pen s) key slot) =
         {q. (slot, q) \<in> set (turn_identities (drop (length (js_finished s key)) (js_accepted s key)))})"
proof -
  have ok: "session_ok s key"
    by (rule journal_session_ok [OF assms])
  let ?pen = "pen_entry (js_pen s) key"
  have "set (held_turn_seqs (js_pen s) key slot) =
      {q. (slot, q) \<in> set (turn_identities (phase_queue (pen_phase ?pen)) @ pen_in_flight_turns ?pen)}"
    if "key \<in> dom (pn_sessions (js_pen s))"
    using that by (auto simp: held_turn_seqs_def pen_entry_def image_iff)
  moreover have "turn_identities (drop (length (js_finished s key)) (js_accepted s key)) =
      pen_in_flight_turns ?pen @ turn_identities (phase_queue (pen_phase ?pen))"
    using ok by (simp add: session_defs)
  ultimately show ?thesis
    using ok by (auto simp: session_defs)
qed

subsection \<open>The byte budget\<close>

definition js_bytes :: "journal_sys \<Rightarrow> SessionKey \<Rightarrow> nat" where
  "js_bytes s key = queue_bytes (pen_queue (js_pen s) key) +
     (case js_hands s key of None \<Rightarrow> 0 | Some batch \<Rightarrow> queue_bytes batch)"

text \<open>The total of a finitely supported charge; every step changes the charge of one session.\<close>

definition total_bytes :: "(SessionKey \<Rightarrow> nat) \<Rightarrow> nat \<Rightarrow> bool" where
  "total_bytes f n \<longleftrightarrow> (\<exists>K. finite K \<and> (\<forall>k. k \<notin> K \<longrightarrow> f k = 0) \<and> n = sum f K)"

lemma total_bytes_update:
  assumes "total_bytes f n" and "\<And>k. k \<noteq> key \<Longrightarrow> g k = f k" and "m + f key = n + g key"
  shows "total_bytes g m"
proof -
  obtain K where K: "finite K" "\<And>k. k \<notin> K \<Longrightarrow> f k = 0" "n = sum f K"
    using assms(1) by (auto simp: total_bytes_def)
  let ?K = "insert key K"
  have "sum f ?K = n"
    using K by (cases "key \<in> K") (auto simp: insert_absorb)
  moreover have "sum f ?K = f key + sum f (?K - {key})" "sum g ?K = g key + sum g (?K - {key})"
    using K(1) sum.remove [of ?K key f] sum.remove [of ?K key g] by simp_all
  moreover have "sum g (?K - {key}) = sum f (?K - {key})"
    using assms(2) by (intro sum.cong) auto
  ultimately have "m = sum g ?K"
    using assms(3) by simp
  moreover have "g k = 0" if "k \<notin> ?K" for k
    using that K(2) assms(2) by simp
  ultimately show ?thesis
    unfolding total_bytes_def using K(1) by (intro exI [of _ ?K]) simp
qed

lemma total_bytes_member: "total_bytes f n \<Longrightarrow> f k \<le> n"
  unfolding total_bytes_def by (metis member_le_sum zero_le)

definition budget_ok :: "journal_sys \<Rightarrow> bool" where
  "budget_ok s \<longleftrightarrow> total_bytes (js_bytes s) (pn_resident_bytes (js_pen s)) \<and>
     pn_resident_bytes (js_pen s) \<le> pn_resident_byte_budget (js_pen s) \<and>
     pn_resident_byte_budget (js_pen s) = AGGREGATE_TURN_BYTE_BUDGET"

lemmas budget_defs = js_bytes_def pen_queue_def

lemma budget_ok_step:
  assumes "budget_ok s" and "\<And>k. k \<noteq> key \<Longrightarrow> js_bytes s' k = js_bytes s k"
    and "pn_resident_bytes (js_pen s') + js_bytes s key = pn_resident_bytes (js_pen s) + js_bytes s' key"
    and "pn_resident_bytes (js_pen s') \<le> pn_resident_byte_budget (js_pen s')"
    and "pn_resident_byte_budget (js_pen s') = pn_resident_byte_budget (js_pen s)"
  shows "budget_ok s'"
  using assms total_bytes_update [of "js_bytes s" "pn_resident_bytes (js_pen s)" key "js_bytes s'"]
  by (simp add: budget_ok_def)


lemma journal_step_budget_ok:
  assumes "journal_step s s'" and "budget_ok s"
  shows "budget_ok s'"
proof -
  have less_budget: "pn_resident_bytes (js_pen s) - b \<le> AGGREGATE_TURN_BYTE_BUDGET" for b
    using assms(2) by (auto simp: budget_ok_def intro: order_trans [OF diff_le_self])
  from assms(1) show ?thesis
  proof (cases rule: journal_step.cases)
    case (deposit key entry r pn)
    have within: "pn_resident_bytes pn \<le> pn_resident_byte_budget pn"
      using hold_within_budget [OF deposit(2)] assms(2)
      by (simp add: budget_ok_def AGGREGATE_TURN_BYTE_BUDGET_def usize_max_def)
    show ?thesis
      using deposit(1) within hold_effect [OF deposit(2)]
      by (intro budget_ok_step [OF assms(2), of key]) (simp_all add: deposited_def budget_defs)
  next
    case (admission key r pn)
    then show ?thesis
      using reserve_effect [OF admission(2)] assms(2)
      by (intro budget_ok_step [OF assms(2), of key]) (simp_all add: deposited_def budget_defs budget_ok_def)
  next
    case (begin_batch key batch pn)
    then show ?thesis
      using begin_drain_Some [OF begin_batch(3)] assms(2)
      by (intro budget_ok_step [OF assms(2), of key]) (simp_all add: budget_defs budget_ok_def)
  next
    case (begin_refused key pn)
    then show ?thesis
      using begin_drain_None [OF begin_refused(2)] assms(2)
      by (intro budget_ok_step [OF assms(2), of key]) (simp_all add: budget_defs budget_ok_def)
  next
    case (release key batch)
    have "js_bytes s key \<le> pn_resident_bytes (js_pen s)"
      using assms(2) total_bytes_member by (auto simp: budget_ok_def)
    then show ?thesis
      using release less_budget assms(2)
      by (intro budget_ok_step [OF assms(2), of key]) (simp_all add: budget_defs budget_ok_def, simp_all add: release_drained_def)
  next
    case (continue_more key batch pn)
    then show ?thesis
      using continue_drain_More [OF continue_more(3)] assms(2)
      by (intro budget_ok_step [OF assms(2), of key]) (simp_all add: budget_defs budget_ok_def)
  next
    case (continue_done key pn)
    from continue_done(3) show ?thesis
      by (cases rule: continue_drain_Done; intro budget_ok_step [OF assms(2), of key])
         (use continue_done(1,2) assms(2) in \<open>simp_all add: budget_defs budget_ok_def\<close>)
  next
    case (retire key)
    have "js_bytes s key \<le> pn_resident_bytes (js_pen s)"
      using assms(2) total_bytes_member by (auto simp: budget_ok_def)
    moreover have "pn_resident_bytes (discard (js_pen s) key) = pn_resident_bytes (js_pen s) - queue_bytes (pen_queue (js_pen s) key)"
      "pn_resident_byte_budget (discard (js_pen s) key) = pn_resident_byte_budget (js_pen s)"
      by (auto simp: discard_def pen_queue_def pen_entry_def split: option.split)
    ultimately show ?thesis
      using retire less_budget assms(2)
      by (intro budget_ok_step [OF assms(2), of key]) (simp_all add: js_bytes_def budget_ok_def pen_queue_def pen_entry_discard)
  next
    case (close key r pn)
    from close(2) show ?thesis
      by (cases rule: discard_if_empty_cases; intro budget_ok_step [OF assms(2), of key])
         (use close(1) assms(2) in \<open>simp_all add: budget_defs budget_ok_def\<close>)
  qed
qed

text \<open>C16: However deposits, admissions, drains, retirements and emptied closes interleave, the relay-wide byte
  count is exactly what the journal keeps resident, the queued entries of every session and the batches
  drains have taken and not released, and it never exceeds the budget: no release or discard ever
  subtracts more than was charged.\<close>

theorem journal_budget_exact:
  assumes "journal_step\<^sup>*\<^sup>* (journal_init n) s"
  shows "total_bytes (js_bytes s) (pn_resident_bytes (js_pen s)) \<and> pn_resident_bytes (js_pen s) \<le> AGGREGATE_TURN_BYTE_BUDGET"
proof -
  have "budget_ok s"
    using assms
  proof (induction rule: rtranclp_induct)
    case base
    have "js_bytes (journal_init n) key = 0" for key
      by (simp add: budget_defs journal_init_def with_session_ceiling_def ProvisionalTurnPen_default_def pen_entry_def)
    then show ?case
      by (auto simp: budget_ok_def total_bytes_def journal_init_def with_session_ceiling_def ProvisionalTurnPen_default_def
          intro!: exI [of _ "{}"])
  next
    case (step y z)
    then show ?case
      using journal_step_budget_ok by blast
  qed
  then show ?thesis
    by (simp add: budget_ok_def)
qed


subsection \<open>A concrete run\<close>

definition journal_one :: journal_sys where
  "journal_one = (journal_init 4)\<lparr>
     js_pen := hold_push (with_session_ceiling 4) journal_key (SessionPen_gathering\<lparr>pen_turn_count := 1\<rparr>) journal_turn,
     js_accepted := (\<lambda>_. [])(journal_key := [journal_turn])\<rparr>"

lemma journal_one_reached: "journal_step\<^sup>*\<^sup>* (journal_init 4) journal_one"
proof -
  have "hold (js_pen (journal_init 4)) journal_key journal_turn =
      Some (Held, hold_push (with_session_ceiling 4) journal_key (SessionPen_gathering\<lparr>pen_turn_count := 1\<rparr>) journal_turn)"
    using hold_journal_turn by (simp add: journal_init_def)
  from journal_step.deposit [OF this] show ?thesis
    by (intro r_into_rtranclp) (simp add: journal_one_def journal_init_def payload_part_def journal_turn_def)
qed

lemma journal_one_queue: "pen_queue (js_pen journal_one) journal_key = [journal_turn]"
  by (simp add: journal_one_def pen_queue_def)

theorem journal_keeps_accepted_ingress_witness:
  "set (held_turn_seqs (js_pen journal_one) journal_key 1) = {7} \<and> payload_part (pen_queue (js_pen journal_one) journal_key) = [journal_turn]"
proof -
  have "journal_key \<in> dom (pn_sessions (js_pen journal_one))"
    by (simp add: journal_one_def hold_push_def put_pen_def)
  moreover have "turn_identities [journal_turn] = [(1, 7)]"
    by (simp add: turn_identities_def journal_turn_def ring_probe_turn_def)
  ultimately show ?thesis
    using journal_keeps_accepted_ingress [OF journal_one_reached, of journal_key 1]
    by (simp add: journal_one_queue) (simp add: journal_one_def journal_init_def payload_part_def journal_turn_def)
qed

theorem journal_budget_exact_witness:
  "total_bytes (js_bytes journal_one) 66 \<and> pn_resident_bytes (js_pen journal_one) = 66"
proof -
  have "pn_resident_bytes (js_pen journal_one) = 66"
    using journal_turn_bytes by (simp add: journal_one_def with_session_ceiling_def ProvisionalTurnPen_default_def)
  then show ?thesis
    using journal_budget_exact [OF journal_one_reached] by simp
qed

end
