(* ===== verification/Trackers.thy ===== *)
theory Trackers
  imports Wire "HOL-Library.Option_ord"
begin

text \<open>
  The two trackers the game loop of a client owns: \<open>DirectiveTracker\<close>
  (\<open>client/src/directive.rs\<close>), which turns the redundant and reordered stamps of the turn stream
  into at most one pending buffer change, and \<open>LeaveTracker\<close> (\<open>client/src/leave/mod.rs\<close>), which
  surfaces every synced leave once.  Both are polled once per simulation step, as the game loop in
  their module comments does: drain what arrived, then poll with the frame about to be simulated.
\<close>

section \<open>Buffer directives\<close>

record DirectiveTracker =
  dt_highest_seq :: u32
  dt_highest_seq_tiebreak :: "u64 option"
  dt_pending :: "BufferDirective option"

definition DirectiveTracker_new :: DirectiveTracker where
  "DirectiveTracker_new = \<lparr>dt_highest_seq = 0, dt_highest_seq_tiebreak = None, dt_pending = None\<rparr>"

definition DirectiveTracker_observe :: "DirectiveTracker \<Rightarrow> BufferDirective \<Rightarrow> u32 \<Rightarrow> DirectiveTracker" where
  "DirectiveTracker_observe t d next_frame =
     (if bd_decision_seq d < dt_highest_seq t then t
      else if bd_decision_seq d = dt_highest_seq t \<and>
              bd_authority_relay_id d \<le> dt_highest_seq_tiebreak t then t
      else t\<lparr>dt_highest_seq := bd_decision_seq d,
             dt_highest_seq_tiebreak := bd_authority_relay_id d,
             dt_pending := (if next_frame \<le> bd_apply_at_frame d then Some d else None)\<rparr>)"

definition DirectiveTracker_take_due :: "DirectiveTracker \<Rightarrow> u32 \<Rightarrow> BufferDirective option \<times> DirectiveTracker" where
  "DirectiveTracker_take_due t next_frame =
     (case dt_pending t of
        None \<Rightarrow> (None, t)
      | Some d \<Rightarrow>
          if bd_apply_at_frame d \<le> next_frame then (Some d, t\<lparr>dt_pending := None\<rparr>) else (None, t))"

text \<open>The game loop: at each frame the stamps that arrived are observed, then the tracker is polled.\<close>

fun directive_play :: "DirectiveTracker \<Rightarrow> u32 \<Rightarrow> BufferDirective list list \<Rightarrow> BufferDirective option list" where
  "directive_play t frame [] = []"
| "directive_play t frame (stamps # later) =
     (let (due, t') = DirectiveTracker_take_due
                        (fold (\<lambda>d t. DirectiveTracker_observe t d frame) stamps t) frame
      in due # directive_play t' (frame + 1) later)"

subsection \<open>The winning decision\<close>

text \<open>
  The specification: decisions are ranked by sequence number and then by the relay that authored
  them, the rank of no decision at all being the least.  The tracker's state at the start of a frame
  is a function of the winner so far and of that frame.
\<close>

definition decision_rank :: "BufferDirective \<Rightarrow> u32 \<times> u64 option" where
  "decision_rank d = (bd_decision_seq d, bd_authority_relay_id d)"

definition held_rank :: "BufferDirective option \<Rightarrow> u32 \<times> u64 option" where
  "held_rank w = (case w of None \<Rightarrow> (0, None) | Some d \<Rightarrow> decision_rank d)"

definition outrank :: "BufferDirective \<Rightarrow> BufferDirective option \<Rightarrow> BufferDirective option" where
  "outrank d w = (if held_rank w < decision_rank d then Some d else w)"

definition winning :: "BufferDirective list \<Rightarrow> BufferDirective option" where
  "winning ds = fold outrank ds None"

definition applied_at :: "u32 \<Rightarrow> BufferDirective option \<Rightarrow> BufferDirective option" where
  "applied_at frame w = (case w of
     None \<Rightarrow> None | Some d \<Rightarrow> if bd_apply_at_frame d = frame then Some d else None)"

definition tracker_at :: "BufferDirective option \<Rightarrow> u32 \<Rightarrow> DirectiveTracker" where
  "tracker_at w frame =
     \<lparr>dt_highest_seq = fst (held_rank w), dt_highest_seq_tiebreak = snd (held_rank w),
      dt_pending = (case w of
        None \<Rightarrow> None | Some d \<Rightarrow> if frame \<le> bd_apply_at_frame d then Some d else None)\<rparr>"

lemma tracker_new: "DirectiveTracker_new = tracker_at None frame"
  by (simp add: DirectiveTracker_new_def tracker_at_def held_rank_def)

lemma observe_tracker_at:
  "DirectiveTracker_observe (tracker_at w frame) d frame = tracker_at (outrank d w) frame"
  by (auto simp: DirectiveTracker_observe_def tracker_at_def outrank_def decision_rank_def
      held_rank_def [of "Some d"] less_prod_def' split: prod.splits)

lemma observe_all_tracker_at:
  "fold (\<lambda>d t. DirectiveTracker_observe t d frame) ds (tracker_at w frame) =
   tracker_at (fold outrank ds w) frame"
  by (induction ds arbitrary: w) (simp_all add: observe_tracker_at)

lemma next_frame_le: "frame + 1 \<le> a \<longleftrightarrow> frame \<le> a \<and> a \<noteq> frame" if "frame \<noteq> - 1" for frame a :: u32
  using unat_not_max [OF that] by (auto simp: word_arith word_unat_eq_iff)

lemma take_due_tracker_at:
  assumes "frame \<noteq> - 1"
  shows "DirectiveTracker_take_due (tracker_at w frame) frame =
    (applied_at frame w, tracker_at w (frame + 1))"
proof (cases w)
  case (Some d)
  consider "bd_apply_at_frame d = frame" | "bd_apply_at_frame d < frame" | "frame < bd_apply_at_frame d"
    by fastforce
  then show ?thesis
  proof cases
    case 1
    then show ?thesis
      using next_frame_le [OF assms, of frame] Some
      by (simp add: DirectiveTracker_take_due_def tracker_at_def applied_at_def)
  next
    case 2
    then have "\<not> frame + 1 \<le> bd_apply_at_frame d" "\<not> frame \<le> bd_apply_at_frame d" "bd_apply_at_frame d \<noteq> frame"
      by (auto simp: next_frame_le [OF assms])
    then show ?thesis
      using Some by (simp add: DirectiveTracker_take_due_def tracker_at_def applied_at_def)
  next
    case 3
    then have "frame + 1 \<le> bd_apply_at_frame d" "frame \<le> bd_apply_at_frame d" "\<not> bd_apply_at_frame d \<le> frame"
      "bd_apply_at_frame d \<noteq> frame"
      by (auto simp: next_frame_le [OF assms])
    then show ?thesis
      using Some by (simp add: DirectiveTracker_take_due_def tracker_at_def applied_at_def)
  qed
qed (simp add: DirectiveTracker_take_due_def tracker_at_def applied_at_def held_rank_def)

lemma take_due_tracker_at_fst: "fst (DirectiveTracker_take_due (tracker_at w frame) frame) = applied_at frame w"
  by (auto simp: DirectiveTracker_take_due_def tracker_at_def applied_at_def split: option.splits)

lemma directive_play_tracker_at:
  assumes "i < length steps" and "unat frame + length steps \<le> 2 ^ 32"
  shows "directive_play (tracker_at w frame) frame steps ! i =
    applied_at (frame + of_nat i) (fold outrank (concat (take (Suc i) steps)) w)"
  using assms
proof (induction steps arbitrary: frame w i)
  case (Cons stamps later)
  let ?w = "fold outrank stamps w"
  show ?case
  proof (cases i)
    case 0
    then show ?thesis
      by (simp add: observe_all_tracker_at case_prod_beta take_due_tracker_at_fst)
  next
    case (Suc j)
    have "frame \<noteq> - 1"
      using Cons.prems Suc by (auto simp: unsigned_minus_1_eq_mask mask_eq_exp_minus_1)
    moreover have "unat (frame + 1) + length later \<le> 2 ^ 32"
      using Cons.prems(2) unat_not_max(2) [OF \<open>frame \<noteq> - 1\<close>] by simp
    ultimately show ?thesis
      using Cons.prems(1) Suc Cons.IH [of j "frame + 1" ?w]
      by (simp add: observe_all_tracker_at take_due_tracker_at algebra_simps)
  qed
qed simp

lemma outrank_held: "held_rank (outrank d w) = max (held_rank w) (decision_rank d)"
  by (auto simp: outrank_def held_rank_def [of "Some d"] max_def)

lemma winning_snoc: "winning (ds @ [d]) = outrank d (winning ds)"
  by (simp add: winning_def)

lemma winning_rank: "d \<in> set ds \<Longrightarrow> decision_rank d \<le> held_rank (winning ds)"
  by (induction ds rule: rev_induct) (auto simp: winning_snoc outrank_held le_max_iff_disj)

lemma no_rank_least: "(0, None) \<le> held_rank w"
  by (cases "held_rank w") (auto simp: less_eq_prod_def)

lemma winning_Some:
  assumes "winning ds = Some d"
  shows "d \<in> set ds" and "(0, None) < decision_rank d"
proof -
  have "d \<in> set ds \<and> (0, None) < decision_rank d"
    using assms
  proof (induction ds arbitrary: d rule: rev_induct)
    case (snoc x ds)
    then show ?case
      using no_rank_least [of "winning ds"] by (auto simp: winning_snoc outrank_def split: if_splits)
  qed (simp add: winning_def)
  then show "d \<in> set ds" "(0, None) < decision_rank d"
    by auto
qed

lemma winning_None: "winning ds = None \<Longrightarrow> d \<in> set ds \<Longrightarrow> \<not> (0, None) < decision_rank d"
  using winning_rank [of d ds] by (simp add: held_rank_def not_less)

lemma winning_set:
  assumes "set ds = set es" and "inj_on decision_rank (set ds)"
  shows "winning ds = winning es"
proof (cases "winning ds")
  case None
  then show ?thesis
    using assms(1) winning_None [OF None] winning_Some [of es] by (cases "winning es") auto
next
  case (Some d)
  then obtain e where e: "winning es = Some e"
    using assms(1) winning_Some [OF Some] winning_None [of es d] by (cases "winning es") auto
  have "decision_rank d \<le> decision_rank e" "decision_rank e \<le> decision_rank d"
    using winning_rank [of d es] winning_rank [of e ds] winning_Some [OF Some] winning_Some [OF e] assms(1)
      Some e by (simp_all add: held_rank_def)
  then have "decision_rank d = decision_rank e"
    by simp
  moreover have "d \<in> set ds" "e \<in> set ds"
    using winning_Some [OF Some] winning_Some [OF e] assms(1) by auto
  ultimately have "d = e"
    using assms(2) by (simp add: inj_on_eq_iff)
  then show ?thesis
    using Some e by simp
qed

text \<open>C11: A buffer change takes effect at the same frame on every client.  Two clients play the game
  loop, from whatever frame each began at.  At a frame by which both have been given the same
  decisions, however often, in whatever order and at whatever earlier frames the copies arrived, they
  apply the same change or none, as long as no two decisions share both sequence number and author:
  the change of the highest-ranked decision, if this frame is the one it names.\<close>
theorem clients_apply_same_directive:
  assumes "i < length xs" and "unat f + length xs \<le> 2 ^ 32"
    and "j < length ys" and "unat g + length ys \<le> 2 ^ 32"
    and "f + of_nat i = g + of_nat j"
    and "set (concat (take (Suc i) xs)) = set (concat (take (Suc j) ys))"
    and "inj_on decision_rank (set (concat (take (Suc i) xs)))"
  shows "directive_play DirectiveTracker_new f xs ! i = directive_play DirectiveTracker_new g ys ! j"
  using winning_set [OF assms(6,7)] directive_play_tracker_at [OF assms(1,2), of None]
    directive_play_tracker_at [OF assms(3,4), of None] assms(5)
  by (simp add: winning_def flip: tracker_new)


theorem clients_apply_same_directive_witness:
  "directive_play DirectiveTracker_new 9
     [[\<lparr>bd_buffer_turns = 4, bd_apply_at_frame = 11, bd_decision_seq = 2, bd_authority_relay_id = Some 1\<rparr>,
       \<lparr>bd_buffer_turns = 3, bd_apply_at_frame = 11, bd_decision_seq = 1, bd_authority_relay_id = Some 1\<rparr>], [],
      [\<lparr>bd_buffer_turns = 5, bd_apply_at_frame = 11, bd_decision_seq = 2, bd_authority_relay_id = Some 7\<rparr>]] ! 2 =
   directive_play DirectiveTracker_new 10
     [[\<lparr>bd_buffer_turns = 5, bd_apply_at_frame = 11, bd_decision_seq = 2, bd_authority_relay_id = Some 7\<rparr>,
       \<lparr>bd_buffer_turns = 3, bd_apply_at_frame = 11, bd_decision_seq = 1, bd_authority_relay_id = Some 1\<rparr>],
      [\<lparr>bd_buffer_turns = 4, bd_apply_at_frame = 11, bd_decision_seq = 2, bd_authority_relay_id = Some 1\<rparr>]] ! 1"
  by (rule clients_apply_same_directive) (simp_all add: decision_rank_def inj_on_def insert_commute)

section \<open>Synced leaves\<close>

record TrackedLeave =
  tl_directive :: LeaveDirective
  tl_surfaced :: bool

type_synonym LeaveTracker = "TrackedLeave list"

definition LeaveTracker_new :: LeaveTracker where
  "LeaveTracker_new = []"

definition LeaveTracker_contains :: "LeaveTracker \<Rightarrow> u32 \<Rightarrow> bool" where
  "LeaveTracker_contains leaves slot = list_ex (\<lambda>l. ld_slot (tl_directive l) = slot) leaves"

definition LeaveTracker_observe :: "LeaveTracker \<Rightarrow> LeaveDirective \<Rightarrow> LeaveTracker" where
  "LeaveTracker_observe leaves d =
     (if slot_try_from (ld_slot d) = None then leaves
      else case find (\<lambda>l. ld_slot (tl_directive l) = ld_slot d) leaves of
             Some existing \<Rightarrow> leaves
           | None \<Rightarrow> leaves @ [\<lparr>tl_directive = d, tl_surfaced = False\<rparr>])"

fun LeaveTracker_expedite :: "LeaveTracker \<Rightarrow> u32 \<Rightarrow> bool \<times> LeaveTracker" where
  "LeaveTracker_expedite [] slot = (False, [])"
| "LeaveTracker_expedite (l # leaves) slot =
     (if ld_slot (tl_directive l) = slot \<and> \<not> tl_surfaced l
      then (True, l\<lparr>tl_directive := (tl_directive l)\<lparr>ld_apply_at_frame := 0, ld_final_turn_count := None\<rparr>\<rparr> # leaves)
      else let (found, leaves') = LeaveTracker_expedite leaves slot in (found, l # leaves'))"

definition leave_is_due :: "u32 \<Rightarrow> (SlotId \<Rightarrow> u64) \<Rightarrow> LeaveDirective \<Rightarrow> bool" where
  "leave_is_due next_frame consumed d =
     (case ld_final_turn_count d of
        Some count \<Rightarrow> count \<le> consumed (ucast (ld_slot d))
      | None \<Rightarrow> ld_apply_at_frame d \<le> next_frame)"

fun LeaveTracker_take_due ::
    "LeaveTracker \<Rightarrow> u32 \<Rightarrow> (SlotId \<Rightarrow> u64) \<Rightarrow> (SlotId \<times> u32) list \<times> LeaveTracker" where
  "LeaveTracker_take_due [] next_frame consumed = ([], [])"
| "LeaveTracker_take_due (l # leaves) next_frame consumed =
     (let (due, leaves') = LeaveTracker_take_due leaves next_frame consumed
      in if tl_surfaced l then (due, l # leaves')
         else if leave_is_due next_frame consumed (tl_directive l)
         then ((ucast (ld_slot (tl_directive l)), ld_reason (tl_directive l)) # due,
               l\<lparr>tl_surfaced := True\<rparr> # leaves')
         else (due, l # leaves'))"

text \<open>
  One step of the game loop: the directives that arrived, the frame about to be simulated and how many
  turns of every slot the client has consumed.
\<close>

type_synonym leave_input = "LeaveDirective list \<times> u32 \<times> (SlotId \<Rightarrow> u64)"

definition leave_step :: "LeaveTracker \<Rightarrow> leave_input \<Rightarrow> (SlotId \<times> u32) list \<times> LeaveTracker" where
  "leave_step t = (\<lambda>(arrived, next_frame, consumed).
     LeaveTracker_take_due (foldl LeaveTracker_observe t arrived) next_frame consumed)"

fun leave_play :: "LeaveTracker \<Rightarrow> leave_input list \<Rightarrow> (SlotId \<times> u32) list list" where
  "leave_play t [] = []"
| "leave_play t (x # xs) = (let (due, t') = leave_step t x in due # leave_play t' xs)"

subsection \<open>What is surfaced\<close>

definition lookup_leave :: "LeaveTracker \<Rightarrow> SlotId \<Rightarrow> TrackedLeave option" where
  "lookup_leave leaves s = find (\<lambda>l. ld_slot (tl_directive l) = ucast s) leaves"

definition leaves_wf :: "LeaveTracker \<Rightarrow> bool" where
  "leaves_wf leaves \<longleftrightarrow> distinct (map (ld_slot \<circ> tl_directive) leaves) \<and>
     list_all (\<lambda>l. ld_slot (tl_directive l) < 256) leaves"

lemma leaves_wf_new [simp]: "leaves_wf LeaveTracker_new"
  by (simp add: leaves_wf_def LeaveTracker_new_def)

lemma find_None_slots:
  "find (\<lambda>l. ld_slot (tl_directive l) = s) leaves = None \<longleftrightarrow> s \<notin> set (map (ld_slot \<circ> tl_directive) leaves)"
  by (auto simp: find_None_iff)

lemma observe_wf:
  assumes "leaves_wf leaves"
  shows "leaves_wf (LeaveTracker_observe leaves d)"
  using assms
  by (auto simp: leaves_wf_def LeaveTracker_observe_def slot_try_from_def find_None_slots split: option.splits)

lemma find_append: "find P (xs @ ys) = (case find P xs of None \<Rightarrow> find P ys | Some x \<Rightarrow> Some x)"
  by (induction xs) auto

lemma lookup_observe:
  "lookup_leave (LeaveTracker_observe leaves d) s =
     (case lookup_leave leaves s of
        Some l \<Rightarrow> Some l
      | None \<Rightarrow> if ld_slot d = ucast s then Some \<lparr>tl_directive = d, tl_surfaced = False\<rparr> else None)"
proof (cases "ld_slot d = ucast s")
  case True
  then show ?thesis
    by (auto simp: lookup_leave_def LeaveTracker_observe_def find_append split: option.splits)
next
  case False
  then show ?thesis
    by (auto simp: lookup_leave_def LeaveTracker_observe_def find_append split: option.splits)
qed

lemma lookup_observe_all:
  "lookup_leave (foldl LeaveTracker_observe leaves ds) s =
     (case lookup_leave leaves s of
        Some l \<Rightarrow> Some l
      | None \<Rightarrow> map_option (\<lambda>d. \<lparr>tl_directive = d, tl_surfaced = False\<rparr>) (find (\<lambda>d. ld_slot d = ucast s) ds))"
  by (induction ds arbitrary: leaves) (auto simp: lookup_observe split: option.splits)

lemma observe_all_wf: "leaves_wf leaves \<Longrightarrow> leaves_wf (foldl LeaveTracker_observe leaves ds)"
  by (induction ds arbitrary: leaves) (auto simp: observe_wf)

definition poll_leave :: "u32 \<Rightarrow> (SlotId \<Rightarrow> u64) \<Rightarrow> TrackedLeave \<Rightarrow> TrackedLeave" where
  "poll_leave f consumed l =
     (if leave_is_due f consumed (tl_directive l) then l\<lparr>tl_surfaced := True\<rparr> else l)"

lemma take_due_tracker: "snd (LeaveTracker_take_due leaves f consumed) = map (poll_leave f consumed) leaves"
  by (induction leaves) (auto simp: poll_leave_def case_prod_beta Let_def)

lemma poll_leave_directive [simp]: "tl_directive (poll_leave f consumed l) = tl_directive l"
  by (simp add: poll_leave_def)

lemma take_due_wf: "leaves_wf leaves \<Longrightarrow> leaves_wf (snd (LeaveTracker_take_due leaves f consumed))"
  by (simp add: leaves_wf_def take_due_tracker comp_def list.pred_map)

lemma lookup_take_due:
  "lookup_leave (snd (LeaveTracker_take_due leaves f consumed)) s =
   map_option (poll_leave f consumed) (lookup_leave leaves s)"
  unfolding take_due_tracker lookup_leave_def by (induction leaves) auto

lemma take_due_result:
  "fst (LeaveTracker_take_due leaves f consumed) =
   map (\<lambda>l. (ucast (ld_slot (tl_directive l)), ld_reason (tl_directive l)))
     (filter (\<lambda>l. \<not> tl_surfaced l \<and> leave_is_due f consumed (tl_directive l)) leaves)"
  by (induction leaves) (auto simp: case_prod_beta Let_def)

lemma lookup_leave_wf:
  assumes "leaves_wf leaves"
  shows "lookup_leave leaves s = Some l \<longleftrightarrow> l \<in> set leaves \<and> ld_slot (tl_directive l) = ucast s"
  using assms unfolding lookup_leave_def leaves_wf_def
  by (induction leaves) (auto simp: image_iff)

lemma slot_of_wf:
  assumes "leaves_wf leaves" and "l \<in> set leaves"
  shows "ucast (ld_slot (tl_directive l)) = s \<longleftrightarrow> ld_slot (tl_directive l) = (ucast (s :: SlotId) :: u32)"
proof -
  have "slot_try_from (ld_slot (tl_directive l)) = Some (ucast (ld_slot (tl_directive l)))"
    using assms by (auto simp: leaves_wf_def list_all_iff slot_try_from_def)
  then show ?thesis
    by (metis option.inject slot_try_from_Some)
qed

lemma take_due_surfaces:
  assumes "leaves_wf leaves"
  shows "(s, r) \<in> set (fst (LeaveTracker_take_due leaves f consumed)) \<longleftrightarrow>
    (\<exists>l. lookup_leave leaves s = Some l \<and> \<not> tl_surfaced l \<and>
         leave_is_due f consumed (tl_directive l) \<and> r = ld_reason (tl_directive l))"
  unfolding take_due_result lookup_leave_wf [OF assms]
  using slot_of_wf [OF assms] by (auto simp: image_iff eq_commute [of s])

definition leave_state :: "leave_input list \<Rightarrow> LeaveTracker" where
  "leave_state xs = foldl (\<lambda>t x. snd (leave_step t x)) LeaveTracker_new xs"

definition first_leave :: "SlotId \<Rightarrow> leave_input list \<Rightarrow> LeaveDirective option" where
  "first_leave s xs = find (\<lambda>d. ld_slot d = ucast s) (concat (map fst xs))"

definition due_at :: "leave_input \<Rightarrow> LeaveDirective \<Rightarrow> bool" where
  "due_at x d = leave_is_due (fst (snd x)) (snd (snd x)) d"

lemma leave_state_Nil: "leave_state [] = LeaveTracker_new"
  by (simp add: leave_state_def)

lemma leave_state_snoc: "leave_state (xs @ [x]) = snd (leave_step (leave_state xs) x)"
  by (simp add: leave_state_def)

lemma leave_state_wf: "leaves_wf (leave_state xs)"
  by (induction xs rule: rev_induct)
    (simp_all add: leave_state_Nil leave_state_snoc leave_step_def case_prod_beta take_due_wf observe_all_wf)

lemma leave_play_nth:
  "i < length xs \<Longrightarrow> leave_play t xs ! i = fst (leave_step (foldl (\<lambda>t x. snd (leave_step t x)) t (take i xs)) (xs ! i))"
  by (induction xs arbitrary: t i) (auto simp: case_prod_beta Let_def nth_Cons split: nat.splits)

lemma first_leave_snoc:
  "first_leave s (xs @ [x]) = (case first_leave s xs of
     Some d \<Rightarrow> Some d | None \<Rightarrow> find (\<lambda>d. ld_slot d = ucast s) (fst x))"
  by (simp add: first_leave_def find_append)

definition surfaced_before :: "SlotId \<Rightarrow> leave_input list \<Rightarrow> LeaveDirective \<Rightarrow> bool" where
  "surfaced_before s xs d \<longleftrightarrow> (\<exists>j < length xs. first_leave s (take (Suc j) xs) \<noteq> None \<and> due_at (xs ! j) d)"

lemma surfaced_before_Nil [simp]: "\<not> surfaced_before s [] d"
  by (simp add: surfaced_before_def)

lemma surfaced_before_snoc:
  "surfaced_before s (xs @ [x]) d \<longleftrightarrow> surfaced_before s xs d \<or> first_leave s (xs @ [x]) \<noteq> None \<and> due_at x d"
  by (auto simp: surfaced_before_def less_Suc_eq nth_append)

lemma first_leave_None_surfaced: "first_leave s xs = None \<Longrightarrow> \<not> surfaced_before s xs d"
proof -
  assume "first_leave s xs = None"
  moreover have "concat (map fst xs) = concat (map fst (take n xs)) @ concat (map fst (drop n xs))" for n
    by (metis append_take_drop_id concat_append map_append)
  ultimately have "first_leave s (take n xs) = None" for n
    unfolding first_leave_def by (metis (no_types, lifting) find_None_iff in_set_conv_decomp append.assoc append_Cons)
  then show ?thesis
    by (simp add: surfaced_before_def)
qed

lemma leave_state_lookup:
  "lookup_leave (leave_state xs) s =
   map_option (\<lambda>d. \<lparr>tl_directive = d, tl_surfaced = surfaced_before s xs d\<rparr>) (first_leave s xs)"
proof (induction xs rule: rev_induct)
  case Nil
  then show ?case
    by (simp add: leave_state_Nil LeaveTracker_new_def lookup_leave_def first_leave_def)
next
  case (snoc x xs)
  show ?case
  proof (cases "first_leave s xs")
    case None
    then show ?thesis
      using snoc first_leave_None_surfaced [OF None]
      by (auto simp: leave_state_snoc leave_step_def case_prod_beta lookup_take_due lookup_observe_all
          first_leave_snoc surfaced_before_snoc poll_leave_def due_at_def option.map_comp comp_def
          intro!: option.map_cong)
  next
    case (Some d)
    then show ?thesis
      using snoc
      by (auto simp: leave_state_snoc leave_step_def case_prod_beta lookup_take_due lookup_observe_all
          first_leave_snoc surfaced_before_snoc poll_leave_def due_at_def)
  qed
qed

text \<open>C25: A synced leave reaches the game once, with the first directive seen for its slot.  At a step
  of the game loop the tracker surfaces a slot with a reason exactly when a directive for the slot has
  arrived by then, the reason is that of the first one, it is due at this step (the client has consumed
  the final turn count it names, or, without a count, reached its frame), and it was not due at any
  earlier step since it arrived; later copies, of the same authority or another, change nothing.\<close>
theorem leave_surfaces_exactly:
  assumes "i < length xs"
  shows "(s, r) \<in> set (leave_play LeaveTracker_new xs ! i) \<longleftrightarrow>
    (\<exists>d. first_leave s (take (Suc i) xs) = Some d \<and> r = ld_reason d \<and> due_at (xs ! i) d \<and>
      (\<forall>j < i. first_leave s (take (Suc j) xs) \<noteq> None \<longrightarrow> \<not> due_at (xs ! j) d))"
proof -
  let ?ds = "foldl LeaveTracker_observe (leave_state (take i xs)) (fst (xs ! i))"
  have "leaves_wf ?ds"
    by (simp add: leave_state_wf observe_all_wf)
  note surfaces = take_due_surfaces [OF this]
  have "leave_play LeaveTracker_new xs ! i = fst (leave_step (leave_state (take i xs)) (xs ! i))"
    unfolding leave_state_def by (rule leave_play_nth [OF assms])
  then have play: "leave_play LeaveTracker_new xs ! i =
      fst (LeaveTracker_take_due ?ds (fst (snd (xs ! i))) (snd (snd (xs ! i))))"
    by (simp add: leave_step_def case_prod_beta)
  have "surfaced_before s (take i xs) d \<longleftrightarrow>
      (\<exists>j < i. first_leave s (take (Suc j) xs) \<noteq> None \<and> due_at (xs ! j) d)" for d
    using assms by (auto simp: surfaced_before_def min_def Suc_le_eq)
  moreover have "first_leave s (take (Suc i) xs) = (case first_leave s (take i xs) of
      Some d \<Rightarrow> Some d | None \<Rightarrow> find (\<lambda>d. ld_slot d = ucast s) (fst (xs ! i)))"
    using assms by (simp add: take_Suc_conv_app_nth first_leave_snoc)
  ultimately show ?thesis
    using assms first_leave_None_surfaced [of s "take i xs"]
    by (auto simp: play surfaces lookup_observe_all leave_state_lookup due_at_def split: option.splits)
      (metis option.distinct(1))
qed

theorem leave_surfaces_exactly_witness:
  "(3, 7) \<in> set (leave_play LeaveTracker_new
     [([\<lparr>ld_slot = 3, ld_reason = 7, ld_apply_at_frame = 5, ld_leave_seq = 1, ld_final_turn_count = Some 2,
         ld_finalized = False\<rparr>], 5, \<lambda>_. 1),
      ([\<lparr>ld_slot = 3, ld_reason = 8, ld_apply_at_frame = 1, ld_leave_seq = 2, ld_final_turn_count = None,
         ld_finalized = False\<rparr>], 5, \<lambda>_. 2)] ! 1)"
  by (subst leave_surfaces_exactly) (simp_all add: first_leave_def due_at_def leave_is_due_def word_le_nat_alt)

text \<open>
  A leave expedited by a client that is leaving lockstep itself surfaces at the very next poll,
  whatever coordinate it was scheduled at, and with the reason it carried.
\<close>

theorem expedite_surfaces:
  assumes "lookup_leave leaves s = Some l" and "\<not> tl_surfaced l" and "leaves_wf leaves"
    and "LeaveTracker_expedite leaves (ucast s) = (found, leaves')"
  shows "found \<and> (s, ld_reason (tl_directive l)) \<in> set (fst (LeaveTracker_take_due leaves' f consumed))"
  using assms
proof (induction leaves arbitrary: leaves')
  case (Cons k leaves)
  show ?case
  proof (cases "ld_slot (tl_directive k) = ucast s")
    case True
    then have "k = l"
      using Cons.prems(1) by (simp add: lookup_leave_def)
    then show ?thesis
      using Cons.prems True slot_of_wf [OF Cons.prems(3), of k s]
      by (auto simp: leave_is_due_def case_prod_beta Let_def)
  next
    case False
    have "leaves_wf leaves"
      using Cons.prems(3) by (simp add: leaves_wf_def)
    moreover have "lookup_leave leaves s = Some l"
      using Cons.prems(1) False by (simp add: lookup_leave_def)
    moreover have "leaves' = k # tl leaves'" "LeaveTracker_expedite leaves (ucast s) = (found, tl leaves')"
      using Cons.prems(4) False by (auto simp: Let_def split: prod.splits)
    ultimately have "found \<and> (s, ld_reason (tl_directive l)) \<in> set (fst (LeaveTracker_take_due (tl leaves') f consumed))"
      using Cons.IH Cons.prems(2) by blast
    with \<open>leaves' = k # tl leaves'\<close> show ?thesis
      by (cases leaves') (auto simp: Let_def split: prod.splits)
  qed
qed (simp add: lookup_leave_def)

end
