(* ===== verification/SignalWindows.thy ===== *)
theory SignalWindows
  imports Prelude
begin

text \<open>
  The signal windows of the buffer control law (\<open>relay/src/consensus/law.rs\<close>): \<open>RttWindow\<close>, the recent
  maximum of a slot's round trips kept in constant time by a monotonic queue over two ring buffers,
  and \<open>BucketedMax\<close>, a sliding maximum kept as one maximum per bucket.  Arrays are lists of their
  fixed length; reading an array at an index the code computed is \<^const>\<open>rust_index\<close>, whose
  \<^const>\<open>None\<close> is the panic of an index out of range.
\<close>

section \<open>The recent round-trip maximum\<close>

definition RTT_WINDOW_SIZE :: nat where
  "RTT_WINDOW_SIZE = 32"

record RttWindow =
  rw_samples :: "u32 list"
  rw_head :: nat
  rw_len :: nat
  rw_max_indices :: "u8 list"
  rw_max_head :: nat
  rw_max_len :: nat

definition RttWindow_default :: RttWindow where
  "RttWindow_default =
     \<lparr>rw_samples = replicate RTT_WINDOW_SIZE 0, rw_head = 0, rw_len = 0,
      rw_max_indices = replicate RTT_WINDOW_SIZE 0, rw_max_head = 0, rw_max_len = 0\<rparr>"

definition rtt_expire :: "RttWindow \<Rightarrow> RttWindow" where
  "rtt_expire w =
     (if rw_len w = RTT_WINDOW_SIZE \<and> 0 < rw_max_len w \<and>
         unat (rw_max_indices w ! rw_max_head w) = rw_head w
      then w\<lparr>rw_max_head := (rw_max_head w + 1) mod RTT_WINDOW_SIZE, rw_max_len := rw_max_len w - 1\<rparr>
      else w)"

function rtt_pop_dominated :: "RttWindow \<Rightarrow> u32 \<Rightarrow> RttWindow option" where
  "rtt_pop_dominated w rtt =
     (if 0 < rw_max_len w then
        let back = (rw_max_head w + rw_max_len w - 1) mod RTT_WINDOW_SIZE
        in (case rust_index (rw_samples w) (unat (rw_max_indices w ! back)) of
              None \<Rightarrow> None
            | Some sample \<Rightarrow>
                if rtt < sample then Some w
                else rtt_pop_dominated (w\<lparr>rw_max_len := rw_max_len w - 1\<rparr>) rtt)
      else Some w)"
  by pat_completeness auto
termination
  by (relation "measure (\<lambda>(w, _). rw_max_len w)") auto

declare rtt_pop_dominated.simps [simp del]

definition rtt_store :: "RttWindow \<Rightarrow> u32 \<Rightarrow> RttWindow" where
  "rtt_store w rtt =
     (let sample_index = rw_head w;
          max_tail = (rw_max_head w + rw_max_len w) mod RTT_WINDOW_SIZE
      in w\<lparr>rw_samples := (rw_samples w)[sample_index := rtt],
           rw_max_indices := (rw_max_indices w)[max_tail := of_nat sample_index],
           rw_max_len := rw_max_len w + 1,
           rw_head := (rw_head w + 1) mod RTT_WINDOW_SIZE,
           rw_len := (if rw_len w < RTT_WINDOW_SIZE then rw_len w + 1 else rw_len w)\<rparr>)"

definition RttWindow_push :: "RttWindow \<Rightarrow> u32 \<Rightarrow> RttWindow option" where
  "RttWindow_push w rtt =
     (if rtt = 0 then Some w
      else map_option (\<lambda>w'. rtt_store w' rtt) (rtt_pop_dominated (rtt_expire w) rtt))"

definition RttWindow_max :: "RttWindow \<Rightarrow> u32 option" where
  "RttWindow_max w =
     (if rw_max_len w = 0 then Some 0
      else rust_index (rw_samples w) (unat (rw_max_indices w ! rw_max_head w)))"

fun rtt_push_all :: "RttWindow \<Rightarrow> u32 list \<Rightarrow> RttWindow option" where
  "rtt_push_all w [] = Some w"
| "rtt_push_all w (r # rs) = (case RttWindow_push w r of None \<Rightarrow> None | Some w' \<Rightarrow> rtt_push_all w' rs)"

subsection \<open>The queue holds the samples nothing newer dominates\<close>

text \<open>
  The window after the nonzero samples \<open>ps\<close>: sample number \<open>p\<close> sits in slot \<open>p mod 32\<close>, and the
  queue holds, oldest first, the slots of the samples of the window larger than everything after them.
\<close>

definition rtt_queue :: "RttWindow \<Rightarrow> u8 list" where
  "rtt_queue w = map (\<lambda>t. rw_max_indices w ! ((rw_max_head w + t) mod RTT_WINDOW_SIZE)) [0..<rw_max_len w]"

definition undominated :: "u32 list \<Rightarrow> nat \<Rightarrow> bool" where
  "undominated ps p \<longleftrightarrow> (\<forall>q. p < q \<and> q < length ps \<longrightarrow> ps ! q < ps ! p)"

definition dominators :: "u32 list \<Rightarrow> nat list" where
  "dominators ps = filter (undominated ps) [length ps - RTT_WINDOW_SIZE..<length ps]"

definition rtt_holds :: "RttWindow \<Rightarrow> u32 list \<Rightarrow> bool" where
  "rtt_holds w ps \<longleftrightarrow>
     length (rw_samples w) = RTT_WINDOW_SIZE \<and> length (rw_max_indices w) = RTT_WINDOW_SIZE \<and>
     rw_max_head w < RTT_WINDOW_SIZE \<and>
     rw_head w = length ps mod RTT_WINDOW_SIZE \<and> rw_len w = min (length ps) RTT_WINDOW_SIZE \<and>
     (\<forall>p < length ps. length ps \<le> p + RTT_WINDOW_SIZE \<longrightarrow> rw_samples w ! (p mod RTT_WINDOW_SIZE) = ps ! p) \<and>
     map unat (rtt_queue w) = map (\<lambda>p. p mod RTT_WINDOW_SIZE) (dominators ps)"

lemma length_rtt_queue [simp]: "length (rtt_queue w) = rw_max_len w"
  by (simp add: rtt_queue_def)

lemma rtt_queue_Cons:
  assumes "0 < rw_max_len w"
  shows "rtt_queue w = rw_max_indices w ! (rw_max_head w mod RTT_WINDOW_SIZE) #
    rtt_queue (w\<lparr>rw_max_head := (rw_max_head w + 1) mod RTT_WINDOW_SIZE, rw_max_len := rw_max_len w - 1\<rparr>)"
  using assms
  by (cases "rw_max_len w") (auto simp: rtt_queue_def upt_conv_Cons map_Suc_upt [symmetric] mod_simps simp del: upt_Suc)

lemma rtt_queue_snoc:
  assumes "0 < rw_max_len w"
  shows "rtt_queue w = rtt_queue (w\<lparr>rw_max_len := rw_max_len w - 1\<rparr>) @
    [rw_max_indices w ! ((rw_max_head w + rw_max_len w - 1) mod RTT_WINDOW_SIZE)]"
  using assms by (cases "rw_max_len w") (auto simp: rtt_queue_def)

lemma mod_window_inj:
  fixes a b n :: nat
  assumes "a mod n = b mod n" and "a \<le> b" and "b < a + n"
  shows "a = b"
proof -
  have "n dvd b - a"
    using assms(1) mod_eq_dvd_iff_nat [OF assms(2), of n] by simp
  then show ?thesis
    using assms(2,3) by (auto dest: dvd_imp_le)
qed

lemma dominators_range:
  assumes "p \<in> set (dominators ps)"
  shows "p < length ps" and "length ps \<le> p + RTT_WINDOW_SIZE"
  using assms by (auto simp: dominators_def)

lemma dominators_sorted: "sorted_wrt (<) (dominators ps)"
  unfolding dominators_def by (intro sorted_wrt_filter) (rule sorted_wrt_upt)

lemma dominators_decreasing: "sorted_wrt (\<lambda>p q. ps ! q < ps ! p) (dominators ps)"
proof (rule sorted_wrt_mono_rel [OF _ dominators_sorted])
  fix p q
  assume "p \<in> set (dominators ps)" "q \<in> set (dominators ps)" "p < q"
  then show "ps ! q < ps ! p"
    by (auto simp: dominators_def undominated_def)
qed

lemma dominators_snoc:
  assumes "0 < RTT_WINDOW_SIZE"
  shows "dominators (ps @ [r]) =
    filter (\<lambda>p. r < ps ! p) (filter (\<lambda>p. length ps < p + RTT_WINDOW_SIZE) (dominators ps)) @ [length ps]"
proof -
  let ?n = "length ps"
  have "[Suc ?n - RTT_WINDOW_SIZE..<Suc ?n] = filter (\<lambda>p. ?n < p + RTT_WINDOW_SIZE) [?n - RTT_WINDOW_SIZE..<?n] @ [?n]"
  proof (cases "RTT_WINDOW_SIZE \<le> ?n")
    case True
    then have "[?n - RTT_WINDOW_SIZE..<?n] = (?n - RTT_WINDOW_SIZE) # [Suc ?n - RTT_WINDOW_SIZE..<?n]"
      using assms by (simp add: upt_conv_Cons Suc_diff_le)
    moreover have "filter (\<lambda>p. ?n < p + RTT_WINDOW_SIZE) [Suc ?n - RTT_WINDOW_SIZE..<?n] = [Suc ?n - RTT_WINDOW_SIZE..<?n]"
      by (rule filter_True) auto
    ultimately show ?thesis
      using True assms by (simp add: upt_Suc)
  next
    case False
    then show ?thesis
      by (simp add: filter_True)
  qed
  moreover have "undominated (ps @ [r]) ?n"
    by (auto simp: undominated_def)
  moreover have "undominated (ps @ [r]) p \<longleftrightarrow> undominated ps p \<and> r < ps ! p" if "p < ?n" for p
    using that by (auto simp: undominated_def nth_append less_Suc_eq split: if_splits)
  ultimately show ?thesis
    by (auto simp: dominators_def intro: filter_cong)
qed

definition rtt_mid :: "RttWindow \<Rightarrow> u32 list \<Rightarrow> nat list \<Rightarrow> bool" where
  "rtt_mid w ps ds \<longleftrightarrow>
     length (rw_samples w) = RTT_WINDOW_SIZE \<and> length (rw_max_indices w) = RTT_WINDOW_SIZE \<and>
     rw_max_head w < RTT_WINDOW_SIZE \<and>
     rw_head w = length ps mod RTT_WINDOW_SIZE \<and> rw_len w = min (length ps) RTT_WINDOW_SIZE \<and>
     (\<forall>p < length ps. length ps \<le> p + RTT_WINDOW_SIZE \<longrightarrow> rw_samples w ! (p mod RTT_WINDOW_SIZE) = ps ! p) \<and>
     map unat (rtt_queue w) = map (\<lambda>p. p mod RTT_WINDOW_SIZE) ds"

lemma rtt_holds_mid: "rtt_holds w ps \<longleftrightarrow> rtt_mid w ps (dominators ps)"
  by (simp add: rtt_holds_def rtt_mid_def)

lemma rtt_mid_len: "rtt_mid w ps ds \<Longrightarrow> rw_max_len w = length ds"
  by (metis rtt_mid_def length_map length_rtt_queue)

lemma rtt_expire_mid:
  assumes "rtt_holds w ps"
  shows "rtt_mid (rtt_expire w) ps (filter (\<lambda>p. length ps < p + RTT_WINDOW_SIZE) (dominators ps))"
proof (cases "dominators ps")
  case Nil
  then show ?thesis
    using assms rtt_mid_len [of w ps "[]"] by (simp add: rtt_holds_mid rtt_expire_def)
next
  case (Cons d ds)
  let ?n = "length ps"
  let ?w = "w\<lparr>rw_max_head := (rw_max_head w + 1) mod RTT_WINDOW_SIZE, rw_max_len := rw_max_len w - 1\<rparr>"
  have mid: "rtt_mid w ps (d # ds)"
    using assms Cons by (simp add: rtt_holds_mid)
  then have len: "0 < rw_max_len w"
    by (simp add: rtt_mid_len)
  then have front: "unat (rw_max_indices w ! rw_max_head w) = d mod RTT_WINDOW_SIZE"
    and rest: "map unat (rtt_queue ?w) = map (\<lambda>p. p mod RTT_WINDOW_SIZE) ds"
    using mid rtt_queue_Cons [OF len] by (auto simp: rtt_mid_def)
  have d: "d < ?n" "?n \<le> d + RTT_WINDOW_SIZE"
    using dominators_range [of d ps] Cons by auto
  have later: "?n < p + RTT_WINDOW_SIZE" if "p \<in> set ds" for p
    using dominators_sorted [of ps] Cons d that by auto
  show ?thesis
  proof (cases "?n = d + RTT_WINDOW_SIZE")
    case True
    then have "rtt_expire w = ?w"
      using mid len front by (simp add: rtt_expire_def rtt_mid_def)
    then show ?thesis
      using mid rest True later Cons by (auto simp: rtt_mid_def RTT_WINDOW_SIZE_def filter_True)
  next
    case False
    have "d mod RTT_WINDOW_SIZE \<noteq> ?n mod RTT_WINDOW_SIZE"
      using mod_window_inj [of d RTT_WINDOW_SIZE ?n] d False by auto
    then have "rtt_expire w = w"
      using mid front by (simp add: rtt_expire_def rtt_mid_def)
    then show ?thesis
      using mid False d later Cons by (simp add: filter_True)
  qed
qed

lemma rtt_pop_mid:
  assumes "rtt_mid w ps ds" and "sorted_wrt (\<lambda>p q. ps ! q < ps ! p) ds"
    and "\<And>p. p \<in> set ds \<Longrightarrow> p < length ps \<and> length ps \<le> p + RTT_WINDOW_SIZE"
  shows "\<exists>w'. rtt_pop_dominated w r = Some w' \<and> rtt_mid w' ps (filter (\<lambda>p. r < ps ! p) ds)"
  using assms
proof (induction ds arbitrary: w rule: rev_induct)
  case Nil
  then show ?case
    using rtt_mid_len [OF Nil(1)] by (simp add: rtt_pop_dominated.simps)
next
  case (snoc d ds)
  let ?w = "w\<lparr>rw_max_len := rw_max_len w - 1\<rparr>"
  have len: "0 < rw_max_len w"
    using rtt_mid_len [OF snoc.prems(1)] by simp
  have rear: "unat (rw_max_indices w ! ((rw_max_head w + rw_max_len w - 1) mod RTT_WINDOW_SIZE)) = d mod RTT_WINDOW_SIZE"
    and rest: "map unat (rtt_queue ?w) = map (\<lambda>p. p mod RTT_WINDOW_SIZE) ds"
    using snoc.prems(1) rtt_queue_snoc [OF len] by (auto simp: rtt_mid_def)
  have sample: "rust_index (rw_samples w) (d mod RTT_WINDOW_SIZE) = Some (ps ! d)"
    using snoc.prems(1,3) by (simp add: rtt_mid_def rust_index_def RTT_WINDOW_SIZE_def)
  show ?case
  proof (cases "r < ps ! d")
    case True
    then have "\<forall>p \<in> set ds. r < ps ! p"
      using snoc.prems(2) by (auto simp: sorted_wrt_append)
    then show ?thesis
      using True snoc.prems(1) len rear sample by (simp add: rtt_pop_dominated.simps [of w] filter_True)
  next
    case False
    have "rtt_mid ?w ps ds"
      using snoc.prems(1) rest by (simp add: rtt_mid_def)
    then have "\<exists>w'. rtt_pop_dominated ?w r = Some w' \<and> rtt_mid w' ps (filter (\<lambda>p. r < ps ! p) ds)"
      using snoc by (auto simp: sorted_wrt_append)
    then show ?thesis
      using False len rear sample by (simp add: rtt_pop_dominated.simps [of w])
  qed
qed

lemma rtt_queue_store:
  assumes "rw_max_len w < RTT_WINDOW_SIZE" and "length (rw_max_indices w) = RTT_WINDOW_SIZE"
  shows "rtt_queue (rtt_store w r) = rtt_queue w @ [of_nat (rw_head w)]"
proof -
  let ?k = "(rw_max_head w + rw_max_len w) mod RTT_WINDOW_SIZE"
  have "?k \<noteq> (rw_max_head w + t) mod RTT_WINDOW_SIZE" if "t < rw_max_len w" for t
    using mod_window_inj [of "rw_max_head w + t" RTT_WINDOW_SIZE "rw_max_head w + rw_max_len w"] that assms(1) by auto
  moreover have "?k < length (rw_max_indices w)"
    using assms by (simp add: RTT_WINDOW_SIZE_def)
  ultimately show ?thesis
    by (simp add: rtt_queue_def rtt_store_def Let_def)
qed

lemma length_dominators_kept: "length (filter (\<lambda>p. length ps < p + RTT_WINDOW_SIZE) (dominators ps)) < RTT_WINDOW_SIZE"
proof -
  let ?ds = "filter (\<lambda>p. length ps < p + RTT_WINDOW_SIZE) (dominators ps)"
  have "distinct ?ds"
    by (simp add: dominators_def)
  then have "length ?ds = card (set ?ds)"
    by (rule distinct_card [symmetric])
  also have "\<dots> \<le> card {Suc (length ps) - RTT_WINDOW_SIZE..<length ps}"
    by (rule card_mono) (auto simp: dominators_def)
  also have "\<dots> < RTT_WINDOW_SIZE"
    by (auto simp: RTT_WINDOW_SIZE_def)
  finally show ?thesis .
qed

lemma rtt_store_holds:
  assumes mid: "rtt_mid w ps ds" and "length ds < RTT_WINDOW_SIZE" and "dominators (ps @ [r]) = ds @ [length ps]"
  shows "rtt_holds (rtt_store w r) (ps @ [r])"
proof -
  let ?n = "length ps"
  have len: "rw_max_len w < RTT_WINDOW_SIZE" "length (rw_max_indices w) = RTT_WINDOW_SIZE" "rw_head w < RTT_WINDOW_SIZE"
    using assms rtt_mid_len [OF mid] by (auto simp: rtt_mid_def RTT_WINDOW_SIZE_def)
  have "unat (of_nat (rw_head w) :: u8) = ?n mod RTT_WINDOW_SIZE"
    using mid len by (simp add: rtt_mid_def unat_of_nat RTT_WINDOW_SIZE_def)
  then have "map unat (rtt_queue (rtt_store w r)) = map (\<lambda>p. p mod RTT_WINDOW_SIZE) (dominators (ps @ [r]))"
    using mid assms(3) rtt_queue_store [OF len(1,2)] by (simp add: rtt_mid_def)
  moreover have "(rw_samples w)[?n mod RTT_WINDOW_SIZE := r] ! (p mod RTT_WINDOW_SIZE) = (ps @ [r]) ! p"
    if "p < Suc ?n" "Suc ?n \<le> p + RTT_WINDOW_SIZE" for p
  proof (cases "p = ?n")
    case True
    then show ?thesis
      using mid by (simp add: rtt_mid_def RTT_WINDOW_SIZE_def)
  next
    case False
    then have "p mod RTT_WINDOW_SIZE \<noteq> ?n mod RTT_WINDOW_SIZE"
      using mod_window_inj [of p RTT_WINDOW_SIZE ?n] that by auto
    then show ?thesis
      using mid that False by (auto simp: rtt_mid_def nth_append)
  qed
  ultimately show ?thesis
    using mid by (auto simp: rtt_holds_def rtt_mid_def rtt_store_def Let_def mod_Suc_eq min_def)
qed

lemma rtt_push_holds:
  assumes "rtt_holds w ps" and "r \<noteq> 0"
  shows "\<exists>w'. RttWindow_push w r = Some w' \<and> rtt_holds w' (ps @ [r])"
proof -
  let ?kept = "filter (\<lambda>p. length ps < p + RTT_WINDOW_SIZE) (dominators ps)"
  obtain w' where w': "rtt_pop_dominated (rtt_expire w) r = Some w'" "rtt_mid w' ps (filter (\<lambda>p. r < ps ! p) ?kept)"
    using rtt_pop_mid [OF rtt_expire_mid [OF assms(1)], of r] dominators_decreasing [of ps] dominators_range [of _ ps]
    by (auto simp: sorted_wrt_filter)
  have "length (filter (\<lambda>p. r < ps ! p) ?kept) < RTT_WINDOW_SIZE"
    using length_dominators_kept [of ps] le_less_trans length_filter_le by blast
  moreover have "dominators (ps @ [r]) = filter (\<lambda>p. r < ps ! p) ?kept @ [length ps]"
    by (rule dominators_snoc) (simp add: RTT_WINDOW_SIZE_def)
  ultimately have "rtt_holds (rtt_store w' r) (ps @ [r])"
    by (rule rtt_store_holds [OF w'(2)])
  then show ?thesis
    using assms(2) w'(1) by (simp add: RttWindow_push_def)
qed

lemma rtt_default_holds: "rtt_holds RttWindow_default []"
  by (simp add: rtt_holds_def RttWindow_default_def rtt_queue_def dominators_def RTT_WINDOW_SIZE_def)

lemma rtt_push_all_holds:
  "rtt_holds w ps \<Longrightarrow> \<exists>w'. rtt_push_all w rs = Some w' \<and> rtt_holds w' (ps @ filter (\<lambda>r. r \<noteq> 0) rs)"
proof (induction rs arbitrary: w ps)
  case (Cons r rs)
  show ?case
  proof (cases "r = 0")
    case True
    then show ?thesis
      using Cons by (simp add: RttWindow_push_def)
  next
    case False
    then show ?thesis
      using rtt_push_holds [OF Cons.prems False] Cons.IH by force
  qed
qed simp

definition recent_rtt_max :: "u32 list \<Rightarrow> u32" where
  "recent_rtt_max rs =
     (let ps = filter (\<lambda>r. r \<noteq> 0) rs in fold max (drop (length ps - RTT_WINDOW_SIZE) ps) 0)"

lemma fold_max_eqI:
  fixes m :: "'a::linorder"
  assumes "m \<in> set xs" and "\<And>x. x \<in> set xs \<Longrightarrow> x \<le> m" and "z \<le> m"
  shows "fold max xs z = m"
proof -
  have "fold max xs z = Max (insert z (set xs))"
    by (metis Max.set_eq_fold list.simps(15))
  also have "\<dots> = m"
    using assms by (intro Max_eqI) auto
  finally show ?thesis .
qed

lemma dominators_front:
  assumes "dominators ps = d # ds" and "length ps - RTT_WINDOW_SIZE \<le> q" and "q < length ps"
  shows "ps ! q \<le> ps ! d"
proof -
  let ?W = "{length ps - RTT_WINDOW_SIZE..<length ps}"
  define m where "m = Max ((!) ps ` ?W)"
  define p where "p = Max {i \<in> ?W. ps ! i = m}"
  have le: "ps ! i \<le> m" if "i \<in> ?W" for i
    using that by (simp add: m_def)
  have "m \<in> (!) ps ` ?W"
    unfolding m_def using assms(2,3) by (intro Max_in) auto
  then have "{i \<in> ?W. ps ! i = m} \<noteq> {}"
    by auto
  then have p: "p \<in> {i \<in> ?W. ps ! i = m}"
    unfolding p_def by (intro Max_in) auto
  have "ps ! j < ps ! p" if "p < j" "j < length ps" for j
  proof -
    have "j \<in> ?W"
      using p that by auto
    moreover have "ps ! j \<noteq> m"
    proof
      assume "ps ! j = m"
      then have "j \<le> p"
        unfolding p_def using \<open>j \<in> ?W\<close> by (intro Max_ge) auto
      then show False
        using that by simp
    qed
    ultimately show ?thesis
      using le [of j] p by simp
  qed
  then have "p \<in> set (dominators ps)"
    using p by (auto simp: dominators_def undominated_def)
  then have "ps ! p \<le> ps ! d"
    using dominators_decreasing [of ps] assms(1) by (auto intro: less_imp_le)
  then show ?thesis
    using le [of q] p assms(2,3) by simp
qed

lemma rtt_holds_max:
  assumes "rtt_holds w (filter (\<lambda>r. r \<noteq> 0) rs)"
  shows "RttWindow_max w = Some (recent_rtt_max rs)"
proof -
  let ?ps = "filter (\<lambda>r. r \<noteq> 0) rs"
  let ?recent = "drop (length ?ps - RTT_WINDOW_SIZE) ?ps"
  have mid: "rtt_mid w ?ps (dominators ?ps)"
    using assms by (simp add: rtt_holds_mid)
  show ?thesis
  proof (cases "dominators ?ps")
    case Nil
    have "?ps = []"
    proof (rule ccontr)
      assume "?ps \<noteq> []"
      then have "length ?ps - 1 \<in> set (dominators ?ps)"
        by (auto simp: dominators_def undominated_def RTT_WINDOW_SIZE_def)
      then show False
        using Nil by simp
    qed
    then show ?thesis
      using rtt_mid_len [OF mid] Nil by (simp add: RttWindow_max_def recent_rtt_max_def)
  next
    case (Cons d ds)
    have d: "d < length ?ps" "length ?ps \<le> d + RTT_WINDOW_SIZE"
      using dominators_range [of d ?ps] Cons by auto
    have len: "0 < rw_max_len w"
      using rtt_mid_len [OF mid] Cons by simp
    have "unat (rw_max_indices w ! rw_max_head w) = d mod RTT_WINDOW_SIZE"
      using mid Cons rtt_queue_Cons [OF len] by (auto simp: rtt_mid_def)
    moreover have "rust_index (rw_samples w) (d mod RTT_WINDOW_SIZE) = Some (?ps ! d)"
      using mid d by (simp add: rtt_mid_def rust_index_def RTT_WINDOW_SIZE_def)
    moreover have "fold max ?recent 0 = ?ps ! d"
    proof (rule fold_max_eqI)
      have "?recent ! (d - (length ?ps - RTT_WINDOW_SIZE)) \<in> set ?recent"
        using d by (intro nth_mem) auto
      then show "?ps ! d \<in> set ?recent"
        using d by simp
      show "x \<le> ?ps ! d" if "x \<in> set ?recent" for x
        using that dominators_front [OF Cons] by (auto simp: in_set_conv_nth)
    qed simp
    ultimately show ?thesis
      using len by (simp add: RttWindow_max_def recent_rtt_max_def)
  qed
qed

text \<open>C26: The constant-time round-trip window is the plain recent maximum.  Whatever round trips are
  pushed, no array access is out of range, and the window's answer is the maximum of the last 32
  nonzero samples, or 0 when there is none; a zero, which means no measurement, never counts.\<close>
theorem rtt_window_max_equivalent:
  "\<exists>w. rtt_push_all RttWindow_default rs = Some w \<and> RttWindow_max w = Some (recent_rtt_max rs)"
  using rtt_push_all_holds [OF rtt_default_holds, of rs] rtt_holds_max by auto

section \<open>A sliding maximum in buckets\<close>

record BucketedMax =
  bm_buckets :: "u32 list"
  bm_head :: nat
  bm_head_start :: "u32 option"

definition BucketedMax_default :: "nat \<Rightarrow> BucketedMax" where
  "BucketedMax_default n = \<lparr>bm_buckets = replicate n 0, bm_head = 0, bm_head_start = None\<rparr>"

fun bm_slide :: "nat \<Rightarrow> BucketedMax \<Rightarrow> BucketedMax" where
  "bm_slide 0 b = b"
| "bm_slide (Suc m) b =
     (let head = (bm_head b + 1) mod length (bm_buckets b)
      in bm_slide m (b\<lparr>bm_head := head, bm_buckets := (bm_buckets b)[head := 0]\<rparr>))"

definition bm_advance :: "BucketedMax \<Rightarrow> u32 \<Rightarrow> u32 \<Rightarrow> BucketedMax" where
  "bm_advance b at span =
     (case bm_head_start b of
        None \<Rightarrow> b\<lparr>bm_head_start := Some at\<rparr>
      | Some start \<Rightarrow>
          let elapsed = saturating_sub at start;
              advance = elapsed div span
          in if length (bm_buckets b) \<le> unat advance
             then b\<lparr>bm_buckets := replicate (length (bm_buckets b)) 0, bm_head_start := Some at\<rparr>
             else (bm_slide (unat advance) b)\<lparr>bm_head_start := Some (start + advance * span)\<rparr>)"

definition BucketedMax_observe :: "BucketedMax \<Rightarrow> u32 \<Rightarrow> u32 \<Rightarrow> u32 \<Rightarrow> BucketedMax" where
  "BucketedMax_observe b at v bucket_span =
     (let b' = bm_advance b at (max bucket_span 1)
      in b'\<lparr>bm_buckets := (bm_buckets b')[bm_head b' := max (bm_buckets b' ! bm_head b') v]\<rparr>)"

definition max_over_last :: "BucketedMax \<Rightarrow> nat \<Rightarrow> u32" where
  "max_over_last b n_buckets =
     fold max (map (\<lambda>age. bm_buckets b ! ((bm_head b + length (bm_buckets b) - age) mod length (bm_buckets b)))
       [0..<min n_buckets (length (bm_buckets b))]) 0"

definition bm_observe_all :: "BucketedMax \<Rightarrow> u32 \<Rightarrow> (u32 \<times> u32) list \<Rightarrow> BucketedMax" where
  "bm_observe_all b bucket_span obs = foldl (\<lambda>b (at, v). BucketedMax_observe b at v bucket_span) b obs"

subsection \<open>Each bucket is the maximum of its slice of the coordinate axis\<close>

definition bucket :: "BucketedMax \<Rightarrow> nat \<Rightarrow> u32" where
  "bucket b age = bm_buckets b ! ((bm_head b + length (bm_buckets b) - age) mod length (bm_buckets b))"

definition greatest :: "((u32 \<times> u32) \<Rightarrow> bool) \<Rightarrow> (u32 \<times> u32) list \<Rightarrow> u32" where
  "greatest P obs = fold max (map snd (filter P obs)) 0"

lemma greatest_snoc: "greatest P (obs @ [x]) = (if P x then max (greatest P obs) (snd x) else greatest P obs)"
  by (simp add: greatest_def max.commute)

lemma greatest_Nil [simp]: "greatest P [] = 0"
  by (simp add: greatest_def)

lemma greatest_none: "(\<And>x. x \<in> set obs \<Longrightarrow> \<not> P x) \<Longrightarrow> greatest P obs = 0"
  by (simp add: greatest_def filter_False)

lemma greatest_cong: "(\<And>x. x \<in> set obs \<Longrightarrow> P x \<longleftrightarrow> Q x) \<Longrightarrow> greatest P obs = greatest Q obs"
  unfolding greatest_def by (metis filter_cong)

lemma bucket_step:
  assumes "k < length (bm_buckets b)"
  shows "bucket (b\<lparr>bm_head := (bm_head b + 1) mod length (bm_buckets b),
      bm_buckets := (bm_buckets b)[(bm_head b + 1) mod length (bm_buckets b) := 0]\<rparr>) k =
    (if k = 0 then 0 else bucket b (k - 1))"
proof -
  let ?n = "length (bm_buckets b)"
  let ?h = "(bm_head b + 1) mod ?n"
  have n: "0 < ?n"
    using assms by linarith
  show ?thesis
  proof (cases k)
    case 0
    then show ?thesis
      using n by (simp add: bucket_def)
  next
    case (Suc j)
    have "(?h + ?n - k) mod ?n = (?h + (?n - k)) mod ?n"
      using assms by simp
    also have "\<dots> = (bm_head b + 1 + (?n - k)) mod ?n"
      by (simp add: mod_simps)
    also have "\<dots> = (bm_head b + ?n - j) mod ?n"
      using assms Suc by (simp add: algebra_simps Suc_diff_Suc)
    finally have i: "(?h + ?n - k) mod ?n = (bm_head b + ?n - j) mod ?n" .
    have "(bm_head b + ?n - j) mod ?n \<noteq> (bm_head b + 1) mod ?n"
    proof
      assume eq: "(bm_head b + ?n - j) mod ?n = (bm_head b + 1) mod ?n"
      have "bm_head b + 1 = bm_head b + ?n - j"
        using mod_window_inj [OF eq [symmetric]] assms Suc by linarith
      then show False
        using assms Suc by linarith
    qed
    then show ?thesis
      using i Suc by (simp add: bucket_def)
  qed
qed

lemma length_bm_slide [simp]: "length (bm_buckets (bm_slide m b)) = length (bm_buckets b)"
  by (induction m b rule: bm_slide.induct) (simp_all add: Let_def)

lemma bucket_slide:
  assumes "m < length (bm_buckets b)" and "k < length (bm_buckets b)"
  shows "bucket (bm_slide m b) k = (if k < m then 0 else bucket b (k - m))"
  using assms
proof (induction m b rule: bm_slide.induct)
  case (2 m b)
  then have "bm_buckets b \<noteq> []"
    by auto
  with 2 show ?case
    using bucket_step [of "k - m" b] by (auto simp: Let_def)
qed simp

lemma bm_slide_head: "bm_head b < length (bm_buckets b) \<Longrightarrow> bm_head (bm_slide m b) < length (bm_buckets b)"
proof (induction m b rule: bm_slide.induct)
  case (2 m b)
  then have "Suc (bm_head b) mod length (bm_buckets b) < length (bm_buckets b)"
    by (intro mod_less_divisor) linarith
  with 2 show ?case
    by (simp add: Let_def)
qed simp

definition in_bucket :: "nat \<Rightarrow> nat \<Rightarrow> nat \<Rightarrow> u32 \<times> u32 \<Rightarrow> bool" where
  "in_bucket start span age x \<longleftrightarrow> start \<le> unat (fst x) + age * span \<and> unat (fst x) + age * span < start + span"

definition bm_holds :: "BucketedMax \<Rightarrow> u32 \<Rightarrow> u32 \<Rightarrow> (u32 \<times> u32) list \<Rightarrow> bool" where
  "bm_holds b start span obs \<longleftrightarrow>
     bm_head b < length (bm_buckets b) \<and> bm_head_start b = Some start \<and>
     (\<forall>x \<in> set obs. unat (fst x) < unat start + unat span) \<and>
     (\<forall>age < length (bm_buckets b). bucket b age = greatest (in_bucket (unat start) (unat span) age) obs)"

lemma bucket_update:
  assumes "bm_head b < length (bm_buckets b)" and "k < length (bm_buckets b)"
  shows "bucket (b\<lparr>bm_buckets := (bm_buckets b)[bm_head b := v]\<rparr>) k = (if k = 0 then v else bucket b k)"
proof (cases "k = 0")
  case False
  let ?n = "length (bm_buckets b)"
  have "(bm_head b + ?n - k) mod ?n \<noteq> bm_head b"
  proof
    assume "(bm_head b + ?n - k) mod ?n = bm_head b"
    then have eq: "(bm_head b + ?n - k) mod ?n = (bm_head b + ?n) mod ?n"
      using assms(1) by simp
    have "bm_head b + ?n - k = bm_head b + ?n"
      using mod_window_inj [OF eq] assms False by linarith
    then show False
      using assms False by linarith
  qed
  then show ?thesis
    using False by (simp add: bucket_def)
qed (use assms in \<open>simp add: bucket_def\<close>)

lemma bm_put_holds:
  assumes "bm_holds b start span obs" and "start \<le> at" and "unat at < unat start + unat span"
  shows "bm_holds (b\<lparr>bm_buckets := (bm_buckets b)[bm_head b := max (bm_buckets b ! bm_head b) v]\<rparr>) start span
    (obs @ [(at, v)])"
proof -
  have "bm_buckets b ! bm_head b = bucket b 0"
    using assms(1) by (simp add: bm_holds_def bucket_def)
  moreover have "in_bucket (unat start) (unat span) age (at, v) \<longleftrightarrow> age = 0" for age
    using assms(2,3) by (cases age) (auto simp: in_bucket_def word_arith)
  ultimately show ?thesis
    using assms bucket_update [of b] by (auto simp: bm_holds_def greatest_snoc)
qed

lemma bm_advance_holds:
  assumes "bm_holds b start span obs" and "start \<le> at" and "0 < span"
  shows "\<exists>start'. bm_holds (bm_advance b at span) start' span obs \<and> start' \<le> at \<and> unat at < unat start' + unat span"
proof -
  let ?n = "length (bm_buckets b)"
  define adv where "adv = (at - start) div span"
  have sat: "saturating_sub at start = at - start"
    using assms(2) by (simp add: saturating_sub_def)
  have adv: "unat adv = (unat at - unat start) div unat span"
    using assms(2) by (simp add: adv_def unat_div_distrib unat_sub)
  have start: "bm_head_start b = Some start" and old: "\<And>x. x \<in> set obs \<Longrightarrow> unat (fst x) < unat start + unat span"
    using assms(1) by (auto simp: bm_holds_def)
  have span: "0 < unat span"
    using assms(3) by (simp add: word_arith)
  show ?thesis
  proof (cases "?n \<le> unat adv")
    case True
    have "?n * unat span \<le> unat adv * unat span"
      using True by simp
    also have "\<dots> \<le> unat at - unat start"
      unfolding adv by (rule div_times_less_eq_dividend)
    finally have far: "unat start + ?n * unat span \<le> unat at"
      using assms(2) by (simp add: word_arith)
    have "\<not> in_bucket (unat at) (unat span) age x" if "x \<in> set obs" "age < ?n" for x age
    proof -
      have "unat (fst x) + age * unat span < unat start + (age + 1) * unat span"
        using old [OF that(1)] by (simp add: algebra_simps)
      also have "\<dots> \<le> unat start + ?n * unat span"
        using that(2) by (intro add_left_mono mult_right_mono) auto
      finally show ?thesis
        using far by (simp add: in_bucket_def)
    qed
    then have "bm_holds (bm_advance b at span) at span obs"
      using assms(1) True sat start far span
      by (auto simp: bm_holds_def bm_advance_def adv_def Let_def bucket_def greatest_none dest: old)
        (metis gr_implies_not0 mod_less_divisor neq0_conv nth_replicate)
    then show ?thesis
      using span by auto
  next
    case False
    let ?s = "start + adv * span" and ?b = "(bm_slide (unat adv) b)\<lparr>bm_head_start := Some (start + adv * span)\<rparr>"
    have "unat adv * unat span \<le> unat at - unat start"
      unfolding adv by (rule div_times_less_eq_dividend)
    moreover have "unat at < 2 ^ LENGTH(32)"
      by (rule unat_less)
    ultimately have s: "unat ?s = unat start + unat adv * unat span" and le: "unat ?s \<le> unat at"
      using assms(2) by (simp_all add: unat_word_ariths word_arith)
    have "unat at - unat start < (unat adv + 1) * unat span"
      unfolding adv using dividend_less_times_div [OF span] by (simp add: algebra_simps)
    then have near: "unat at < unat ?s + unat span"
      using assms(2) s by (simp add: word_arith algebra_simps)
    have "bucket ?b age = greatest (in_bucket (unat ?s) (unat span) age) obs" if "age < ?n" for age
    proof (cases "age < unat adv")
      case True
      have "\<not> in_bucket (unat ?s) (unat span) age x" if "x \<in> set obs" for x
      proof -
        have "unat (fst x) + age * unat span < unat start + (age + 1) * unat span"
          using old [OF that] by (simp add: algebra_simps)
        also have "\<dots> \<le> unat ?s"
          unfolding s using True by (intro add_left_mono mult_right_mono) auto
        finally show ?thesis
          by (simp add: in_bucket_def)
      qed
      then show ?thesis
        using bucket_slide [of "unat adv" b age] that True False by (simp add: bucket_def greatest_none)
    next
      case later: False
      have "age * unat span = (age - unat adv) * unat span + unat adv * unat span"
        using later by (simp flip: distrib_right)
      then have "in_bucket (unat ?s) (unat span) age x \<longleftrightarrow> in_bucket (unat start) (unat span) (age - unat adv) x" for x
        unfolding in_bucket_def s by simp
      moreover have "bucket ?b age = bucket b (age - unat adv)"
        using bucket_slide [of "unat adv" b age] that later False by (simp add: bucket_def)
      ultimately show ?thesis
        using assms(1) that greatest_cong [of obs "in_bucket (unat ?s) (unat span) age"
            "in_bucket (unat start) (unat span) (age - unat adv)"]
        by (simp add: bm_holds_def)
    qed
    then have "bm_holds ?b ?s span obs"
      using assms(1) bm_slide_head [of b "unat adv"] old s by (fastforce simp: bm_holds_def)
    moreover have "bm_advance b at span = ?b"
      using False sat start by (simp add: bm_advance_def adv_def Let_def)
    ultimately show ?thesis
      using le near by (auto simp: word_arith)
  qed
qed

lemma length_bm_advance [simp]: "length (bm_buckets (bm_advance b at span)) = length (bm_buckets b)"
  by (auto simp: bm_advance_def Let_def split: option.splits)

lemma length_bm_observe [simp]: "length (bm_buckets (BucketedMax_observe b at v span)) = length (bm_buckets b)"
  by (simp add: BucketedMax_observe_def Let_def)

lemma length_bm_observe_all [simp]: "length (bm_buckets (bm_observe_all b span obs)) = length (bm_buckets b)"
  unfolding bm_observe_all_def by (induction obs arbitrary: b) auto

lemma bm_first_holds:
  assumes "0 < n" and "0 < span"
  shows "bm_holds (bm_advance (BucketedMax_default n) at span) at span []"
proof -
  have "bucket (bm_advance (BucketedMax_default n) at span) age = 0" for age
    using assms(1) by (simp add: bucket_def bm_advance_def BucketedMax_default_def)
  then show ?thesis
    using assms(1) by (simp add: bm_holds_def) (simp add: bm_advance_def BucketedMax_default_def)
qed

lemma bm_observe_all_holds:
  assumes "0 < n" and "obs \<noteq> []" and "sorted (map fst obs)"
  shows "\<exists>start. bm_holds (bm_observe_all (BucketedMax_default n) bucket_span obs) start (max bucket_span 1) obs \<and>
    start \<le> fst (last obs) \<and> unat (fst (last obs)) < unat start + unat (max bucket_span 1)"
  using assms(2,3)
proof (induction obs rule: rev_induct)
  case (snoc x obs)
  obtain at v where x: "x = (at, v)"
    by (cases x)
  let ?span = "max bucket_span 1"
  have span: "0 < ?span"
    by (simp add: less_max_iff_disj)
  let ?b = "bm_observe_all (BucketedMax_default n) bucket_span obs"
  have "\<exists>start. bm_holds (bm_advance ?b at ?span) start ?span obs \<and> start \<le> at \<and> unat at < unat start + unat ?span"
  proof (cases "obs = []")
    case True
    then show ?thesis
      using bm_first_holds [OF assms(1) span, of at] span by (auto simp: bm_observe_all_def word_less_nat_alt)
  next
    case False
    then obtain start where start: "bm_holds ?b start ?span obs" "start \<le> fst (last obs)"
      using snoc by (auto simp: sorted_append)
    moreover have "fst (last obs) \<le> at"
      using snoc.prems(2) False x by (auto simp: sorted_append)
    ultimately show ?thesis
      using bm_advance_holds [OF start(1) _ span] by (meson order_trans)
  qed
  then obtain start where "bm_holds (bm_advance ?b at ?span) start ?span obs" "start \<le> at"
      "unat at < unat start + unat ?span"
    by blast
  then show ?case
    using bm_put_holds [of "bm_advance ?b at ?span" start ?span obs at v] x
    by (auto simp: bm_observe_all_def BucketedMax_observe_def Let_def)
qed simp

lemma max_over_last_greatest:
  assumes "bm_holds b start span obs" and "0 < n" and "n \<le> length (bm_buckets b)"
  shows "max_over_last b n = greatest (\<lambda>x. unat start \<le> unat (fst x) + (n - 1) * unat span) obs"
proof -
  have step: "max (greatest P obs) (greatest Q obs) = greatest (\<lambda>x. P x \<or> Q x) obs" for P Q
    by (induction obs rule: rev_induct) (auto simp: greatest_snoc max.assoc max.left_commute max.commute)
  have buckets: "fold max (map (bucket b) [0..<Suc m]) 0 = greatest (\<lambda>x. unat start \<le> unat (fst x) + m * unat span) obs"
    if "m < length (bm_buckets b)" for m
    using that
  proof (induction m)
    case 0
    then show ?case
      using assms(1) by (auto simp: bm_holds_def in_bucket_def intro!: greatest_cong)
  next
    case (Suc m)
    then have "fold max (map (bucket b) [0..<Suc (Suc m)]) 0 =
        greatest (\<lambda>x. unat start \<le> unat (fst x) + m * unat span \<or> in_bucket (unat start) (unat span) (Suc m) x) obs"
      using assms(1) by (simp add: bm_holds_def max.commute flip: step)
    also have "\<dots> = greatest (\<lambda>x. unat start \<le> unat (fst x) + Suc m * unat span) obs"
      by (rule greatest_cong) (auto simp: in_bucket_def)
    finally show ?case .
  qed
  have "max_over_last b n = fold max (map (bucket b) [0..<Suc (n - 1)]) 0"
    using assms(2,3) by (simp add: max_over_last_def bucket_def [abs_def] min_def del: upt_Suc)
  then show ?thesis
    using buckets [of "n - 1"] assms(2,3) by simp
qed

text \<open>C27: The bucketed window is a sliding maximum.  After observations at nondecreasing coordinates,
  reading the trailing \<open>k\<close> buckets gives exactly the maximum of the values observed at coordinates no
  more than \<open>k - 1\<close> bucket widths below the start of the current bucket, and that start is at most
  the newest coordinate and less than one width below it: nothing recent is forgotten and nothing older
  still counts, over stalls and coordinate jumps of any length.\<close>
theorem bucketed_max_exact:
  assumes "obs \<noteq> []" and "sorted (map fst obs)" and "0 < k" and "k \<le> n"
  shows "\<exists>start. start \<le> fst (last obs) \<and> unat (fst (last obs)) < unat start + unat (max bucket_span 1) \<and>
    max_over_last (bm_observe_all (BucketedMax_default n) bucket_span obs) k =
    greatest (\<lambda>x. unat start \<le> unat (fst x) + (k - 1) * unat (max bucket_span 1)) obs"
proof -
  have "0 < n"
    using assms(3,4) by simp
  moreover have "length (bm_buckets (bm_observe_all (BucketedMax_default n) bucket_span obs)) = n"
    by (simp add: BucketedMax_default_def)
  ultimately show ?thesis
    using bm_observe_all_holds [of n obs bucket_span] max_over_last_greatest assms by metis
qed

theorem bucketed_max_exact_witness:
  "\<exists>start. start \<le> fst (last [(0, 5), (12, 3), (25 :: u32, 1 :: u32)]) \<and>
    unat (fst (last [(0, 5), (12, 3), (25 :: u32, 1 :: u32)])) < unat start + unat (max 10 (1 :: u32)) \<and>
    max_over_last (bm_observe_all (BucketedMax_default 4) 10 [(0, 5), (12, 3), (25, 1)]) 2 =
    greatest (\<lambda>x. unat start \<le> unat (fst x) + (2 - 1) * unat (max 10 (1 :: u32))) [(0, 5), (12, 3), (25, 1)]"
  by (rule bucketed_max_exact) (simp_all add: word_le_nat_alt)

end
