(* ===== verification/SlotConditions.thy ===== *)
theory SlotConditions
  imports SignalWindows
begin

text \<open>
  The per-slot state of the decision-maker (\<open>relay/src/consensus/slot.rs\<close>, with the constants and the
  accumulators of \<open>law.rs\<close>): the cumulative loss counters a slot's link reports, the ring of counter
  snapshots its loss windows are differenced against, and the credit that keeps losses of an outage out
  of them.  Time is a number of microseconds.  The two rates computed in floating point from these
  counters (\<open>loss_rate_since\<close>, \<open>windowed_loss_rate\<close>) are not modelled.
\<close>

definition LOSS_SNAPSHOT_COUNT :: nat where
  "LOSS_SNAPSHOT_COUNT = 16"

definition OUTAGE_GAP_MIN :: nat where
  "OUTAGE_GAP_MIN = 1000000"

definition OUTAGE_LOSS_RESOLUTION_SAMPLES :: u32 where
  "OUTAGE_LOSS_RESOLUTION_SAMPLES = 24"

definition OUTAGE_LOSS_RESOLUTION_MAX_AGE :: nat where
  "OUTAGE_LOSS_RESOLUTION_MAX_AGE = 2000000"

definition TARGET_FLOOR_BASE_BUCKETS :: nat where
  "TARGET_FLOOR_BASE_BUCKETS = 8"

definition BLACKOUT_RUN_BUCKETS :: nat where
  "BLACKOUT_RUN_BUCKETS = 8"

definition BURST_TURNS_CAP :: u32 where
  "BURST_TURNS_CAP = 4"

record ControlLaw =
  cl_turn_duration_us :: u32
  cl_lower_step :: u32
  cl_min_dwell_turns :: u32
  cl_shrink_headroom_us :: u32
  cl_loss_attack_samples :: u32
  cl_loss_memory_samples :: u32
  cl_shrink_lookback_turns :: u32

definition ControlLaw_default :: ControlLaw where
  "ControlLaw_default =
     \<lparr>cl_turn_duration_us = 1000000 div 24, cl_lower_step = 2, cl_min_dwell_turns = 120,
      cl_shrink_headroom_us = 5208, cl_loss_attack_samples = 24, cl_loss_memory_samples = 192,
      cl_shrink_lookback_turns = 600\<rparr>"

definition loss_snapshot_interval :: "ControlLaw \<Rightarrow> u32" where
  "loss_snapshot_interval law = max (cl_loss_memory_samples law div of_nat LOSS_SNAPSHOT_COUNT) 1"

definition target_floor_bucket_span :: "ControlLaw \<Rightarrow> u32" where
  "target_floor_bucket_span law = max (cl_shrink_lookback_turns law div of_nat TARGET_FLOOR_BASE_BUCKETS) 1"

definition blackout_run_bucket_span :: "ControlLaw \<Rightarrow> u32" where
  "blackout_run_bucket_span law = max (cl_loss_memory_samples law div of_nat BLACKOUT_RUN_BUCKETS) 1"

record LossSnapshot =
  ls_lost :: u64
  ls_sent :: u64
  ls_at_sample :: u32

definition LossSnapshot_default :: LossSnapshot where
  "LossSnapshot_default = \<lparr>ls_lost = 0, ls_sent = 0, ls_at_sample = 0\<rparr>"

record OutagePool =
  op_credit :: u64
  op_deadline :: u32
  op_expires_at :: "nat option"

definition OutagePool_default :: OutagePool where
  "OutagePool_default = \<lparr>op_credit = 0, op_deadline = 0, op_expires_at = None\<rparr>"

record SlotState =
  sl_rtt_window :: RttWindow
  sl_mesh_rtt_us :: u32
  sl_mesh_rtt_floor_us :: "u32 option"
  sl_frame :: "u32 option"
  sl_frame_history :: "(u64 \<times> u32) list"
  sl_newest_framed_seq :: "u64 option"
  sl_last_forward_advance_at :: "nat option"
  sl_connection_up_at :: "nat option"
  sl_frame_regression_reported :: bool
  sl_curr_lost :: u64
  sl_curr_sent :: u64
  sl_loss_snapshots :: "LossSnapshot list"
  sl_loss_snapshot_head :: nat
  sl_loss_snapshot_len :: nat
  sl_advancing_samples :: u32
  sl_blackout_run :: u32
  sl_blackout_runs :: BucketedMax
  sl_seen :: bool
  sl_last_sender_rtt_us :: "u32 option"
  sl_last_sample_at :: "nat option"
  sl_outage_pools :: "OutagePool list"

datatype CounterUpdate = Baseline | Advanced | OutageRebaselined | LossAdvanced | NonAdvancing | Stale

definition SlotState_default :: SlotState where
  "SlotState_default =
     \<lparr>sl_rtt_window = RttWindow_default, sl_mesh_rtt_us = 0, sl_mesh_rtt_floor_us = None, sl_frame = None,
      sl_frame_history = [], sl_newest_framed_seq = None, sl_last_forward_advance_at = None,
      sl_connection_up_at = None, sl_frame_regression_reported = False, sl_curr_lost = 0, sl_curr_sent = 0,
      sl_loss_snapshots = replicate LOSS_SNAPSHOT_COUNT LossSnapshot_default, sl_loss_snapshot_head = 0,
      sl_loss_snapshot_len = 0, sl_advancing_samples = 0, sl_blackout_run = 0,
      sl_blackout_runs = BucketedMax_default BLACKOUT_RUN_BUCKETS, sl_seen = False,
      sl_last_sender_rtt_us = None, sl_last_sample_at = None,
      sl_outage_pools = replicate 2 OutagePool_default\<rparr>"

definition reset_link_conditions :: "SlotState \<Rightarrow> SlotState" where
  "reset_link_conditions st =
     st\<lparr>sl_rtt_window := RttWindow_default, sl_mesh_rtt_us := 0, sl_mesh_rtt_floor_us := None,
        sl_curr_lost := 0, sl_curr_sent := 0,
        sl_loss_snapshots := replicate LOSS_SNAPSHOT_COUNT LossSnapshot_default, sl_loss_snapshot_head := 0,
        sl_loss_snapshot_len := 0, sl_advancing_samples := 0, sl_blackout_run := 0,
        sl_blackout_runs := BucketedMax_default BLACKOUT_RUN_BUCKETS, sl_seen := False,
        sl_last_sender_rtt_us := None, sl_last_sample_at := None,
        sl_outage_pools := replicate 2 OutagePool_default\<rparr>"

definition slot_rtt :: "SlotState \<Rightarrow> u32 option" where
  "slot_rtt st = RttWindow_max (sl_rtt_window st)"

definition eff_rtt :: "SlotState \<Rightarrow> u32 option" where
  "eff_rtt st = map_option (\<lambda>rtt. saturating_add rtt (sl_mesh_rtt_us st)) (slot_rtt st)"

fun drain_pool_list :: "u32 \<Rightarrow> nat option \<Rightarrow> u64 \<Rightarrow> OutagePool list \<Rightarrow> u64 \<times> OutagePool list" where
  "drain_pool_list at wall remaining [] = (0, [])"
| "drain_pool_list at wall remaining (p # ps) =
     (if op_credit p = 0 then
        let (absorbed, ps') = drain_pool_list at wall remaining ps in (absorbed, p # ps')
      else
        let wall_expired = (case wall of
              Some now \<Rightarrow> (case op_expires_at p of None \<Rightarrow> True | Some expires \<Rightarrow> expires \<le> now)
            | None \<Rightarrow> False)
        in if op_deadline p \<le> at \<or> wall_expired then
             let (absorbed, ps') = drain_pool_list at wall remaining ps in (absorbed, p\<lparr>op_credit := 0\<rparr> # ps')
           else
             let taken = min remaining (op_credit p);
                 (absorbed, ps') = drain_pool_list at wall (remaining - taken) ps
             in (taken + absorbed, p\<lparr>op_credit := op_credit p - taken\<rparr> # ps'))"

definition drain_pools :: "SlotState \<Rightarrow> u64 \<Rightarrow> nat option \<Rightarrow> u64 \<times> SlotState" where
  "drain_pools st declared wall =
     (let (absorbed, ps) = drain_pool_list (sl_advancing_samples st) wall declared (sl_outage_pools st)
      in (absorbed, st\<lparr>sl_outage_pools := ps\<rparr>))"

definition absorb_outage_losses :: "SlotState \<Rightarrow> u64 \<Rightarrow> nat \<Rightarrow> u64 \<times> SlotState" where
  "absorb_outage_losses st declared now = drain_pools st declared (Some now)"

definition push_loss_snapshot :: "SlotState \<Rightarrow> SlotState" where
  "push_loss_snapshot st =
     st\<lparr>sl_loss_snapshots := (sl_loss_snapshots st)[sl_loss_snapshot_head st :=
          \<lparr>ls_lost = sl_curr_lost st, ls_sent = sl_curr_sent st, ls_at_sample = sl_advancing_samples st\<rparr>],
        sl_loss_snapshot_head := (sl_loss_snapshot_head st + 1) mod LOSS_SNAPSHOT_COUNT,
        sl_loss_snapshot_len := (if sl_loss_snapshot_len st < LOSS_SNAPSHOT_COUNT
                                 then sl_loss_snapshot_len st + 1 else sl_loss_snapshot_len st)\<rparr>"

definition map_snapshots :: "(LossSnapshot \<Rightarrow> LossSnapshot) \<Rightarrow> SlotState \<Rightarrow> SlotState" where
  "map_snapshots f st =
     st\<lparr>sl_loss_snapshots := map f (take (sl_loss_snapshot_len st) (sl_loss_snapshots st)) @
                             drop (sl_loss_snapshot_len st) (sl_loss_snapshots st)\<rparr>"

definition drop_expired :: "nat \<Rightarrow> OutagePool \<Rightarrow> OutagePool" where
  "drop_expired now p =
     (if (case op_expires_at p of None \<Rightarrow> True | Some expires \<Rightarrow> expires \<le> now)
      then p\<lparr>op_credit := 0\<rparr> else p)"

definition bank_credit :: "u64 \<Rightarrow> u32 \<Rightarrow> nat \<Rightarrow> OutagePool list \<Rightarrow> OutagePool list" where
  "bank_credit fresh_undeclared samples now pools =
     (if 0 < fresh_undeclared then
        let pools' = (if 0 < op_credit (pools ! 1) then pools[0 := pools ! 1] else pools)
        in pools'[1 := \<lparr>op_credit = fresh_undeclared,
                       op_deadline = saturating_add samples OUTAGE_LOSS_RESOLUTION_SAMPLES,
                       op_expires_at = Some (now + OUTAGE_LOSS_RESOLUTION_MAX_AGE)\<rparr>]
      else pools)"

definition rebaseline_after_outage ::
    "SlotState \<Rightarrow> u64 \<Rightarrow> u64 \<Rightarrow> u32 \<Rightarrow> nat \<Rightarrow> CounterUpdate \<times> SlotState" where
  "rebaseline_after_outage st lost_packets sent_packets run_bucket_span now =
     (let delta_sent = sent_packets - sl_curr_sent st;
          delta_lost = saturating_sub lost_packets (sl_curr_lost st);
          (consumed, st1) = drain_pools st delta_lost None;
          residual_declared = delta_lost - consumed;
          fresh_undeclared = saturating_sub delta_sent residual_declared;
          st2 = st1\<lparr>sl_outage_pools := map (drop_expired now) (sl_outage_pools st1),
                   sl_curr_lost := lost_packets, sl_curr_sent := sent_packets,
                   sl_advancing_samples := saturating_add (sl_advancing_samples st1) 1,
                   sl_blackout_run := 0\<rparr>;
          st3 = st2\<lparr>sl_blackout_runs := BucketedMax_observe (sl_blackout_runs st2) (sl_advancing_samples st2)
                                          (sl_blackout_run st2) run_bucket_span,
                   sl_loss_snapshots := replicate LOSS_SNAPSHOT_COUNT LossSnapshot_default,
                   sl_loss_snapshot_head := 0, sl_loss_snapshot_len := 0\<rparr>;
          st4 = push_loss_snapshot st3
      in (OutageRebaselined,
          st4\<lparr>sl_outage_pools := bank_credit fresh_undeclared (sl_advancing_samples st4) now (sl_outage_pools st4)\<rparr>))"

definition loss_refined :: "SlotState \<Rightarrow> u64 \<Rightarrow> nat \<Rightarrow> CounterUpdate \<times> SlotState" where
  "loss_refined st lost_packets now =
     (let (absorbed, st1) = absorb_outage_losses (st\<lparr>sl_last_sample_at := Some now\<rparr>) (lost_packets - sl_curr_lost st) now;
          st2 = st1\<lparr>sl_curr_lost := lost_packets\<rparr>
      in (LossAdvanced,
          map_snapshots (\<lambda>snapshot. if ls_sent snapshot = sl_curr_sent st2
             then snapshot\<lparr>ls_lost := lost_packets\<rparr>
             else snapshot\<lparr>ls_lost := saturating_add (ls_lost snapshot) absorbed\<rparr>) st2))"

definition counters_advanced ::
    "SlotState \<Rightarrow> u64 \<Rightarrow> u64 \<Rightarrow> u32 \<Rightarrow> u32 \<Rightarrow> nat \<Rightarrow> CounterUpdate \<times> SlotState" where
  "counters_advanced st lost_packets sent_packets snapshot_interval run_bucket_span now =
     (let delta_sent = sent_packets - sl_curr_sent st;
          delta_lost = saturating_sub lost_packets (sl_curr_lost st);
          (absorbed, st1) = absorb_outage_losses st delta_lost now;
          weather_lost = delta_lost - absorbed;
          st2 = (if 0 < absorbed
                 then map_snapshots (\<lambda>s. s\<lparr>ls_lost := saturating_add (ls_lost s) absorbed\<rparr>) st1 else st1);
          st3 = st2\<lparr>sl_blackout_run := (if delta_sent \<le> weather_lost then saturating_add (sl_blackout_run st2) 1 else 0),
                   sl_curr_lost := lost_packets, sl_curr_sent := sent_packets,
                   sl_advancing_samples := saturating_add (sl_advancing_samples st2) 1\<rparr>;
          st4 = st3\<lparr>sl_blackout_runs := BucketedMax_observe (sl_blackout_runs st3) (sl_advancing_samples st3)
                                          (sl_blackout_run st3) run_bucket_span\<rparr>
      in (Advanced, if sl_advancing_samples st4 mod snapshot_interval = 0 then push_loss_snapshot st4 else st4))"

definition update_counters ::
    "SlotState \<Rightarrow> u64 \<Rightarrow> u64 \<Rightarrow> u32 \<Rightarrow> u32 \<Rightarrow> nat \<Rightarrow> CounterUpdate \<times> SlotState" where
  "update_counters st lost_packets sent_packets snapshot_interval run_bucket_span now =
     (if \<not> sl_seen st then
        (Baseline, push_loss_snapshot (st\<lparr>sl_curr_lost := lost_packets, sl_curr_sent := sent_packets,
                                          sl_seen := True, sl_last_sample_at := Some now\<rparr>))
      else if sent_packets < sl_curr_sent st \<or> lost_packets < sl_curr_lost st then (Stale, st)
      else if sent_packets = sl_curr_sent st then
        if sl_curr_lost st < lost_packets then loss_refined st lost_packets now else (NonAdvancing, st)
      else
        let gap = map_option (\<lambda>at. now - at) (sl_last_sample_at st);
            st' = st\<lparr>sl_last_sample_at := Some now\<rparr>
        in if (case gap of None \<Rightarrow> False | Some g \<Rightarrow> OUTAGE_GAP_MIN \<le> g)
           then rebaseline_after_outage st' lost_packets sent_packets run_bucket_span now
           else counters_advanced st' lost_packets sent_packets snapshot_interval run_bucket_span now)"

definition burst_turns :: "SlotState \<Rightarrow> u32" where
  "burst_turns st = min (max_over_last (sl_blackout_runs st) BLACKOUT_RUN_BUCKETS) BURST_TURNS_CAP"

section \<open>Draining the credit\<close>

definition credit_sum :: "OutagePool list \<Rightarrow> nat" where
  "credit_sum ps = sum_list (map (\<lambda>p. unat (op_credit p)) ps)"

lemma credit_sum_simps [simp]:
  "credit_sum [] = 0" "credit_sum (p # ps) = unat (op_credit p) + credit_sum ps"
  by (simp_all add: credit_sum_def)

lemma unat_min: "unat (min x y) = min (unat x) (unat y)"
  by (simp add: min_def word_le_nat_alt)

lemma drain_pool_list_bounds:
  assumes "drain_pool_list at wall remaining ps = (absorbed, ps')"
  shows "length ps' = length ps" and "unat absorbed \<le> unat remaining" and "unat absorbed + credit_sum ps' \<le> credit_sum ps"
proof -
  have "length ps' = length ps \<and> unat absorbed \<le> unat remaining \<and> unat absorbed + credit_sum ps' \<le> credit_sum ps"
    using assms
  proof (induction ps arbitrary: remaining absorbed ps')
    case (Cons p ps)
    let ?taken = "min remaining (op_credit p)"
    consider (skip) a qs where "drain_pool_list at wall remaining ps = (a, qs)" "absorbed = a"
        "ps' = p # qs \<or> ps' = p\<lparr>op_credit := 0\<rparr> # qs"
      | (take) a qs where "drain_pool_list at wall (remaining - ?taken) ps = (a, qs)" "absorbed = ?taken + a"
        "ps' = p\<lparr>op_credit := op_credit p - ?taken\<rparr> # qs"
      using Cons.prems by (auto simp: Let_def split: if_splits prod.splits)
    then show ?case
    proof cases
      case skip
      then show ?thesis
        using Cons.IH [OF skip(1)] by auto
    next
      case take
      have le: "?taken \<le> remaining" "?taken \<le> op_credit p"
        by auto
      then have sub: "unat (remaining - ?taken) = unat remaining - unat ?taken"
        "unat (op_credit p - ?taken) = unat (op_credit p) - unat ?taken" "unat ?taken \<le> unat remaining"
        "unat ?taken \<le> unat (op_credit p)"
        by (simp_all add: unat_sub word_le_nat_alt)
      have total: "unat ?taken + unat a \<le> unat remaining"
        using Cons.IH [OF take(1)] sub by linarith
      then have "unat absorbed = unat ?taken + unat a"
        using unat_less [of remaining] take(2) by (simp add: unat_word_ariths)
      then show ?thesis
        using Cons.IH [OF take(1)] sub take(3) total by auto
    qed
  qed simp
  then show "length ps' = length ps" "unat absorbed \<le> unat remaining" "unat absorbed + credit_sum ps' \<le> credit_sum ps"
    by auto
qed

definition pool_live :: "u32 \<Rightarrow> nat \<Rightarrow> OutagePool \<Rightarrow> bool" where
  "pool_live at now p \<longleftrightarrow> at < op_deadline p \<and> (\<exists>expires. op_expires_at p = Some expires \<and> now < expires)"

lemma drain_pool_list_absorbs:
  assumes "drain_pool_list at (Some now) remaining ps = (absorbed, ps')"
    and "p \<in> set ps" and "pool_live at now p" and "remaining \<le> op_credit p"
  shows "absorbed = remaining"
  using assms
proof (induction ps arbitrary: remaining absorbed ps')
  case (Cons q ps)
  show ?case
  proof (cases "p \<in> set ps \<and> \<not> (q = p)")
    case True
    let ?taken = "min remaining (op_credit q)"
    have le: "remaining - ?taken \<le> op_credit p"
      using Cons.prems(4) by (simp add: min_def word_le_nat_alt unat_sub)
    have "?taken + (remaining - ?taken) = remaining"
      by simp
    then show ?thesis
      using Cons.prems True Cons.IH [of remaining] Cons.IH [of "remaining - ?taken"] le
      by (auto simp: Let_def split: if_splits prod.splits)
  next
    case False
    then have "q = p"
      using Cons.prems(2) by auto
    show ?thesis
    proof (cases "op_credit p = 0")
      case True
      then have "remaining = 0"
        using Cons.prems(4) by simp
      moreover have "unat absorbed \<le> unat remaining"
        by (rule drain_pool_list_bounds(2) [OF Cons.prems(1)])
      ultimately show ?thesis
        by (simp add: unat_eq_0)
    next
      case nonzero: False
      have "\<not> op_deadline p \<le> at" "op_expires_at p \<noteq> None" "\<not> the (op_expires_at p) \<le> now"
        using Cons.prems(3) by (auto simp: pool_live_def)
      then obtain a qs where "drain_pool_list at (Some now) (remaining - min remaining (op_credit p)) ps = (a, qs)"
          "absorbed = min remaining (op_credit p) + a"
        using Cons.prems(1) nonzero \<open>q = p\<close> by (auto simp: Let_def split: if_splits prod.splits)
      moreover have "min remaining (op_credit p) = remaining"
        using Cons.prems(4) by (simp add: min_def)
      ultimately have "absorbed = remaining + a" "unat a \<le> 0"
        using drain_pool_list_bounds(2) [of at "Some now" 0 ps a qs] by auto
      then show ?thesis
        by (simp add: unat_eq_0)
    qed
  qed
qed simp

lemma drain_poolsE:
  obtains absorbed ps where "drain_pools st declared wall = (absorbed, st\<lparr>sl_outage_pools := ps\<rparr>)"
    and "drain_pool_list (sl_advancing_samples st) wall declared (sl_outage_pools st) = (absorbed, ps)"
    and "unat absorbed \<le> unat declared" and "unat absorbed + credit_sum ps \<le> credit_sum (sl_outage_pools st)"
    and "length ps = length (sl_outage_pools st)"
proof -
  obtain absorbed ps where d: "drain_pool_list (sl_advancing_samples st) wall declared (sl_outage_pools st) = (absorbed, ps)"
    by (cases "drain_pool_list (sl_advancing_samples st) wall declared (sl_outage_pools st)")
  show thesis
    by (rule that [of absorbed ps]) (use d drain_pool_list_bounds [OF d] in \<open>simp_all add: drain_pools_def\<close>)
qed

section \<open>The counters are well formed\<close>

definition snapshots_wf :: "SlotState \<Rightarrow> bool" where
  "snapshots_wf st \<longleftrightarrow>
     length (sl_loss_snapshots st) = LOSS_SNAPSHOT_COUNT \<and>
     sl_loss_snapshot_len st \<le> LOSS_SNAPSHOT_COUNT \<and> sl_loss_snapshot_head st < LOSS_SNAPSHOT_COUNT \<and>
     (sl_loss_snapshot_len st < LOSS_SNAPSHOT_COUNT \<longrightarrow> sl_loss_snapshot_head st = sl_loss_snapshot_len st) \<and>
     (\<forall>s \<in> set (take (sl_loss_snapshot_len st) (sl_loss_snapshots st)).
        ls_lost s \<le> sl_curr_lost st \<and> ls_sent s \<le> sl_curr_sent st \<and> ls_at_sample s \<le> sl_advancing_samples st)"

definition slot_wf :: "SlotState \<Rightarrow> bool" where
  "slot_wf st \<longleftrightarrow> snapshots_wf st \<and>
     length (sl_outage_pools st) = 2 \<and> credit_sum (sl_outage_pools st) \<le> unat (sl_curr_sent st) \<and>
     length (bm_buckets (sl_blackout_runs st)) = BLACKOUT_RUN_BUCKETS \<and>
     bm_head (sl_blackout_runs st) < BLACKOUT_RUN_BUCKETS \<and>
     (\<not> sl_seen st \<longrightarrow> sl_loss_snapshot_len st = 0 \<and> credit_sum (sl_outage_pools st) = 0)"

lemma bm_observe_head:
  "bm_head b < length (bm_buckets b) \<Longrightarrow> bm_head (BucketedMax_observe b at v span) < length (bm_buckets b)"
  by (auto simp: BucketedMax_observe_def bm_advance_def Let_def bm_slide_head split: option.splits)

lemma saturating_add_ge: "(x :: 'a::len word) \<le> saturating_add x y"
  by (simp add: saturating_add_def)

lemma in_take_update:
  assumes "x \<in> set (take n (xs[i := v]))"
  shows "x = v \<or> x \<in> set (take n xs)"
  using assms by (metis take_update_swap set_update_subset_insert insertE subsetD)

lemma push_loss_snapshot_fields [simp]:
  "sl_curr_lost (push_loss_snapshot st) = sl_curr_lost st" "sl_curr_sent (push_loss_snapshot st) = sl_curr_sent st"
  "sl_advancing_samples (push_loss_snapshot st) = sl_advancing_samples st" "sl_seen (push_loss_snapshot st) = sl_seen st"
  "sl_blackout_run (push_loss_snapshot st) = sl_blackout_run st" "sl_outage_pools (push_loss_snapshot st) = sl_outage_pools st"
  "sl_last_sample_at (push_loss_snapshot st) = sl_last_sample_at st" "sl_blackout_runs (push_loss_snapshot st) = sl_blackout_runs st"
  by (simp_all add: push_loss_snapshot_def)

lemma push_loss_snapshot_in:
  assumes "snapshots_wf st"
    and "s \<in> set (take (sl_loss_snapshot_len (push_loss_snapshot st)) (sl_loss_snapshots (push_loss_snapshot st)))"
  shows "s = \<lparr>ls_lost = sl_curr_lost st, ls_sent = sl_curr_sent st, ls_at_sample = sl_advancing_samples st\<rparr> \<or>
    s \<in> set (take (sl_loss_snapshot_len st) (sl_loss_snapshots st))"
proof (cases "sl_loss_snapshot_len st < LOSS_SNAPSHOT_COUNT")
  case True
  then have "take (sl_loss_snapshot_len (push_loss_snapshot st)) (sl_loss_snapshots (push_loss_snapshot st)) =
      take (sl_loss_snapshot_len st) (sl_loss_snapshots st) @
      [\<lparr>ls_lost = sl_curr_lost st, ls_sent = sl_curr_sent st, ls_at_sample = sl_advancing_samples st\<rparr>]"
    using assms(1) by (simp add: push_loss_snapshot_def snapshots_wf_def take_Suc_conv_app_nth)
  then show ?thesis
    using assms(2) by auto
next
  case False
  then show ?thesis
    using assms(2) by (auto simp: push_loss_snapshot_def dest: in_take_update)
qed

lemma push_loss_snapshot_wf:
  assumes "snapshots_wf st"
  shows "snapshots_wf (push_loss_snapshot st)"
proof -
  let ?xs = "(sl_loss_snapshots st)[sl_loss_snapshot_head st :=
    \<lparr>ls_lost = sl_curr_lost st, ls_sent = sl_curr_sent st, ls_at_sample = sl_advancing_samples st\<rparr>]"
  have "ls_lost s \<le> sl_curr_lost st \<and> ls_sent s \<le> sl_curr_sent st \<and> ls_at_sample s \<le> sl_advancing_samples st"
    if "s \<in> set (take (sl_loss_snapshot_len (push_loss_snapshot st)) ?xs)" for s
    using push_loss_snapshot_in [OF assms, of s] that assms by (auto simp: snapshots_wf_def push_loss_snapshot_def)
  moreover have "sl_loss_snapshots (push_loss_snapshot st) = ?xs" "sl_curr_lost (push_loss_snapshot st) = sl_curr_lost st"
    "sl_curr_sent (push_loss_snapshot st) = sl_curr_sent st"
    "sl_advancing_samples (push_loss_snapshot st) = sl_advancing_samples st"
    by (simp_all add: push_loss_snapshot_def)
  moreover have "sl_loss_snapshot_len (push_loss_snapshot st) \<le> LOSS_SNAPSHOT_COUNT"
    "sl_loss_snapshot_head (push_loss_snapshot st) < LOSS_SNAPSHOT_COUNT"
    "sl_loss_snapshot_len (push_loss_snapshot st) < LOSS_SNAPSHOT_COUNT \<longrightarrow>
      sl_loss_snapshot_head (push_loss_snapshot st) = sl_loss_snapshot_len (push_loss_snapshot st)"
    using assms by (auto simp: snapshots_wf_def push_loss_snapshot_def LOSS_SNAPSHOT_COUNT_def)
  moreover have "length ?xs = LOSS_SNAPSHOT_COUNT"
    using assms by (simp add: snapshots_wf_def)
  ultimately show ?thesis
    unfolding snapshots_wf_def by simp
qed

lemma slot_default_wf: "slot_wf SlotState_default"
  by (simp add: slot_wf_def snapshots_wf_def SlotState_default_def LOSS_SNAPSHOT_COUNT_def
      OutagePool_default_def BucketedMax_default_def BLACKOUT_RUN_BUCKETS_def numeral_2_eq_2)

lemma map_snapshots_wf:
  assumes "snapshots_wf st" and "sl_curr_lost st \<le> lost" and "sl_curr_sent st \<le> sent" and "sl_advancing_samples st \<le> n"
    and "\<And>s. ls_lost s \<le> sl_curr_lost st \<Longrightarrow>
      ls_lost (f s) \<le> lost \<and> ls_sent (f s) = ls_sent s \<and> ls_at_sample (f s) = ls_at_sample s"
  shows "snapshots_wf (map_snapshots f st\<lparr>sl_curr_lost := lost, sl_curr_sent := sent, sl_advancing_samples := n\<rparr>)"
  using assms unfolding snapshots_wf_def map_snapshots_def by (auto intro: order_trans)

lemma snapshots_wf_later:
  assumes "snapshots_wf st" and "sl_curr_lost st \<le> lost" and "sl_curr_sent st \<le> sent" and "sl_advancing_samples st \<le> n"
  shows "snapshots_wf (st\<lparr>sl_curr_lost := lost, sl_curr_sent := sent, sl_advancing_samples := n\<rparr>)"
  using assms unfolding snapshots_wf_def by (auto intro: order_trans)

lemma snapshots_wf_cong:
  assumes "sl_loss_snapshots st = sl_loss_snapshots st'" "sl_loss_snapshot_len st = sl_loss_snapshot_len st'"
    "sl_loss_snapshot_head st = sl_loss_snapshot_head st'" "sl_curr_lost st = sl_curr_lost st'"
    "sl_curr_sent st = sl_curr_sent st'" "sl_advancing_samples st = sl_advancing_samples st'"
  shows "snapshots_wf st \<longleftrightarrow> snapshots_wf st'"
  using assms unfolding snapshots_wf_def by simp

lemma absorbed_fits:
  assumes "unat absorbed \<le> unat (lost - old)" and "old \<le> lost" and "s \<le> old"
  shows "saturating_add s absorbed \<le> (lost :: u64)"
  using assms by (simp add: word_le_nat_alt unat_saturating_add unat_sub)

lemma loss_refined_wf:
  assumes "slot_wf st" and "sl_seen st" and "sl_curr_lost st < lost"
  shows "slot_wf (snd (loss_refined st lost now))"
proof -
  let ?st = "st\<lparr>sl_last_sample_at := Some now\<rparr>"
  obtain absorbed ps where drain: "drain_pools ?st (lost - sl_curr_lost st) (Some now) = (absorbed, ?st\<lparr>sl_outage_pools := ps\<rparr>)"
    and b: "unat absorbed \<le> unat (lost - sl_curr_lost st)" "unat absorbed + credit_sum ps \<le> credit_sum (sl_outage_pools st)"
      "length ps = length (sl_outage_pools st)"
    by (rule drain_poolsE [of ?st "lost - sl_curr_lost st" "Some now"], erule that) simp_all
  define f where "f = (\<lambda>s :: LossSnapshot. if ls_sent s = sl_curr_sent st then s\<lparr>ls_lost := lost\<rparr>
    else s\<lparr>ls_lost := saturating_add (ls_lost s) absorbed\<rparr>)"
  have res: "snd (loss_refined st lost now) = map_snapshots f (?st\<lparr>sl_outage_pools := ps, sl_curr_lost := lost\<rparr>)"
    using drain by (simp add: loss_refined_def absorb_outage_losses_def f_def cong: if_cong)
  have "snapshots_wf (map_snapshots f st\<lparr>sl_curr_lost := lost, sl_curr_sent := sl_curr_sent st,
      sl_advancing_samples := sl_advancing_samples st\<rparr>)"
    using assms b(1) by (intro map_snapshots_wf) (auto simp: slot_wf_def f_def intro: absorbed_fits)
  then have "snapshots_wf (snd (loss_refined st lost now))"
    unfolding res by (simp add: map_snapshots_def snapshots_wf_def)
  then show ?thesis
    using assms(1,2) b(2,3) unfolding slot_wf_def by (simp add: res map_snapshots_def)
qed

lemma counters_advanced_wf:
  assumes "slot_wf st" and "sl_seen st" and "sl_curr_lost st \<le> lost" and "sl_curr_sent st < sent"
  shows "slot_wf (snd (counters_advanced st lost sent snapshot_interval span now))"
proof -
  let ?d = "saturating_sub lost (sl_curr_lost st)"
  have d: "?d = lost - sl_curr_lost st"
    using assms(3) by (simp add: saturating_sub_def)
  obtain absorbed ps where drain: "drain_pools st (lost - sl_curr_lost st) (Some now) = (absorbed, st\<lparr>sl_outage_pools := ps\<rparr>)"
    and b: "unat absorbed \<le> unat (lost - sl_curr_lost st)" "unat absorbed + credit_sum ps \<le> credit_sum (sl_outage_pools st)"
      "length ps = length (sl_outage_pools st)"
    by (rule drain_poolsE [of st "lost - sl_curr_lost st" "Some now"], erule that) simp_all
  define f where "f = (\<lambda>s :: LossSnapshot. s\<lparr>ls_lost := saturating_add (ls_lost s) absorbed\<rparr>)"
  define n where "n = saturating_add (sl_advancing_samples st) 1"
  define runs where "runs = (if sent - sl_curr_sent st \<le> ?d - absorbed then saturating_add (sl_blackout_run st) 1 else 0)"
  define st2 where "st2 = (if 0 < absorbed then map_snapshots f (st\<lparr>sl_outage_pools := ps\<rparr>) else st\<lparr>sl_outage_pools := ps\<rparr>)"
  define st4 where "st4 = st2\<lparr>sl_blackout_run := runs, sl_curr_lost := lost, sl_curr_sent := sent, sl_advancing_samples := n,
    sl_blackout_runs := BucketedMax_observe (sl_blackout_runs st) n runs span\<rparr>"
  have res: "snd (counters_advanced st lost sent snapshot_interval span now) =
      (if n mod snapshot_interval = 0 then push_loss_snapshot st4 else st4)"
    using drain d by (simp add: counters_advanced_def absorb_outage_losses_def Let_def f_def n_def runs_def st2_def st4_def map_snapshots_def)
  have n: "sl_advancing_samples st \<le> n"
    by (simp add: n_def saturating_add_ge)
  have "snapshots_wf (map_snapshots f st\<lparr>sl_curr_lost := lost, sl_curr_sent := sent, sl_advancing_samples := n\<rparr>)"
    using assms b(1) n by (intro map_snapshots_wf) (auto simp: slot_wf_def f_def intro: absorbed_fits)
  moreover have "snapshots_wf (st\<lparr>sl_curr_lost := lost, sl_curr_sent := sent, sl_advancing_samples := n\<rparr>)"
    using assms n by (intro snapshots_wf_later) (auto simp: slot_wf_def)
  ultimately have "snapshots_wf st4"
    unfolding st4_def st2_def by (auto simp: map_snapshots_def snapshots_wf_def)
  moreover have "length (sl_outage_pools st4) = 2" "credit_sum (sl_outage_pools st4) \<le> unat (sl_curr_sent st4)" "sl_seen st4"
    "length (bm_buckets (sl_blackout_runs st4)) = BLACKOUT_RUN_BUCKETS" "bm_head (sl_blackout_runs st4) < BLACKOUT_RUN_BUCKETS"
    using assms b(2,3) bm_observe_head [of "sl_blackout_runs st" n runs span]
    by (auto simp: st4_def st2_def map_snapshots_def slot_wf_def word_less_nat_alt)
  ultimately show ?thesis
    using push_loss_snapshot_wf [of st4] by (auto simp: res slot_wf_def push_loss_snapshot_def)
qed

lemma length_two: "length xs = 2 \<longleftrightarrow> (\<exists>x y. xs = [x, y])"
  by (auto simp: length_Suc_conv numeral_2_eq_2)

lemma bank_credit_bounds:
  assumes "length pools = 2"
  shows "length (bank_credit fresh n now pools) = 2"
    and "credit_sum (bank_credit fresh n now pools) \<le> credit_sum pools + unat fresh"
  using assms by (auto simp: length_two bank_credit_def Let_def)

lemma credit_sum_drop_expired: "credit_sum (map (drop_expired now) ps) \<le> credit_sum ps"
  by (induction ps) (auto simp: drop_expired_def)

text \<open>What an outage leaves behind: one snapshot, at the endpoint after the gap, and the credit.\<close>

definition rebaselined :: "SlotState \<Rightarrow> u64 \<Rightarrow> u64 \<Rightarrow> u32 \<Rightarrow> OutagePool list \<Rightarrow> SlotState" where
  "rebaselined st lost sent span pools =
     (let n = saturating_add (sl_advancing_samples st) 1
      in st\<lparr>sl_curr_lost := lost, sl_curr_sent := sent, sl_advancing_samples := n, sl_blackout_run := 0,
            sl_blackout_runs := BucketedMax_observe (sl_blackout_runs st) n 0 span,
            sl_loss_snapshots := (replicate LOSS_SNAPSHOT_COUNT LossSnapshot_default)[0 :=
              \<lparr>ls_lost = lost, ls_sent = sent, ls_at_sample = n\<rparr>],
            sl_loss_snapshot_head := 1, sl_loss_snapshot_len := 1, sl_outage_pools := pools\<rparr>)"

lemma rebaseline_after_outage_result:
  assumes "sl_curr_lost st \<le> lost"
    and "drain_pools st (lost - sl_curr_lost st) None = (consumed, st\<lparr>sl_outage_pools := ps\<rparr>)"
  shows "rebaseline_after_outage st lost sent span now =
    (OutageRebaselined, rebaselined st lost sent span
       (bank_credit (saturating_sub (sent - sl_curr_sent st) (lost - sl_curr_lost st - consumed))
          (saturating_add (sl_advancing_samples st) 1) now (map (drop_expired now) ps)))"
  using assms by (simp add: rebaseline_after_outage_def rebaselined_def push_loss_snapshot_def saturating_sub_def
      LOSS_SNAPSHOT_COUNT_def Let_def)

lemma rebaselined_snapshots_wf: "snapshots_wf (rebaselined st lost sent span pools)"
  by (simp add: snapshots_wf_def rebaselined_def LOSS_SNAPSHOT_COUNT_def Let_def numeral_eq_Suc)

lemma rebaseline_wf:
  assumes "slot_wf st" and "sl_seen st" and "sl_curr_lost st \<le> lost" and "sl_curr_sent st < sent"
  shows "slot_wf (snd (rebaseline_after_outage st lost sent span now))"
proof -
  obtain consumed ps where drain: "drain_pools st (lost - sl_curr_lost st) None = (consumed, st\<lparr>sl_outage_pools := ps\<rparr>)"
    and b: "unat consumed + credit_sum ps \<le> credit_sum (sl_outage_pools st)" "length ps = length (sl_outage_pools st)"
    by (rule drain_poolsE [of st "lost - sl_curr_lost st" None], erule that) simp_all
  define fresh where "fresh = saturating_sub (sent - sl_curr_sent st) (lost - sl_curr_lost st - consumed)"
  define pools where "pools = bank_credit fresh (saturating_add (sl_advancing_samples st) 1) now (map (drop_expired now) ps)"
  have two: "length (map (drop_expired now) ps) = 2"
    using assms(1) b(2) by (simp add: slot_wf_def)
  have "unat fresh \<le> unat sent - unat (sl_curr_sent st)"
    using assms(4) by (simp add: fresh_def unat_saturating_sub unat_sub order_less_imp_le)
  moreover have "unat (sl_curr_sent st) < unat sent" "credit_sum (sl_outage_pools st) \<le> unat (sl_curr_sent st)"
    using assms(1,4) by (simp_all add: word_less_nat_alt slot_wf_def)
  moreover have "credit_sum pools \<le> credit_sum (map (drop_expired now) ps) + unat fresh" "length pools = 2"
    unfolding pools_def by (rule bank_credit_bounds [OF two])+
  ultimately have "credit_sum pools \<le> unat sent" "length pools = 2"
    using credit_sum_drop_expired [of now ps] b(1) by linarith+
  moreover have "snd (rebaseline_after_outage st lost sent span now) = rebaselined st lost sent span pools"
    using rebaseline_after_outage_result [OF assms(3) drain] by (simp add: pools_def fresh_def)
  moreover have "sl_outage_pools (rebaselined st lost sent span pools) = pools"
    "sl_curr_sent (rebaselined st lost sent span pools) = sent" "sl_seen (rebaselined st lost sent span pools)"
    "length (bm_buckets (sl_blackout_runs (rebaselined st lost sent span pools))) = BLACKOUT_RUN_BUCKETS"
    "bm_head (sl_blackout_runs (rebaselined st lost sent span pools)) < BLACKOUT_RUN_BUCKETS"
    using assms(1,2) bm_observe_head [of "sl_blackout_runs st"] by (auto simp: rebaselined_def Let_def slot_wf_def)
  ultimately show ?thesis
    unfolding slot_wf_def using rebaselined_snapshots_wf by simp
qed

lemma update_counters_wf:
  assumes "slot_wf st"
  shows "slot_wf (snd (update_counters st lost sent interval span now))"
proof -
  let ?st = "st\<lparr>sl_last_sample_at := Some now\<rparr>"
  have at: "slot_wf ?st" "sl_seen ?st = sl_seen st"
    using assms by (simp_all add: slot_wf_def snapshots_wf_def)
  consider "\<not> sl_seen st" | "sl_seen st" "sent < sl_curr_sent st \<or> lost < sl_curr_lost st"
    | "sl_seen st" "sl_curr_lost st \<le> lost" "sl_curr_sent st = sent" | "sl_seen st" "sl_curr_lost st \<le> lost" "sl_curr_sent st < sent"
    by force
  then show ?thesis
  proof cases
    case 1
    let ?b = "st\<lparr>sl_curr_lost := lost, sl_curr_sent := sent, sl_seen := True, sl_last_sample_at := Some now\<rparr>"
    have "snapshots_wf ?b"
      using assms 1 by (simp add: slot_wf_def snapshots_wf_def)
    then show ?thesis
      using assms 1 push_loss_snapshot_wf [of ?b]
      by (simp add: update_counters_def slot_wf_def)
  next
    case 2
    then show ?thesis
      using assms by (auto simp: update_counters_def)
  next
    case 3
    then show ?thesis
      using assms loss_refined_wf [of st lost now] by (auto simp: update_counters_def)
  next
    case 4
    then show ?thesis
      using at rebaseline_wf [of ?st lost sent span now] counters_advanced_wf [of ?st lost sent interval span now]
      by (auto simp: update_counters_def Let_def split: option.splits)
  qed
qed

type_synonym counter_sample = "u64 \<times> u64 \<times> nat"

fun ingest_samples :: "u32 \<Rightarrow> u32 \<Rightarrow> SlotState \<Rightarrow> counter_sample list \<Rightarrow> SlotState" where
  "ingest_samples interval span st [] = st"
| "ingest_samples interval span st ((lost, sent, now) # xs) =
     ingest_samples interval span (snd (update_counters st lost sent interval span now)) xs"

text \<open>C28: The loss windows of a slot are always well formed, whatever counters its peer reports.  After
  any samples the ring holds at most 16 endpoints and its cursor is in range; no retained endpoint is
  ahead of the accepted counters, so every window difference is a genuine one; the two generations of
  outage credit together never exceed the packets the link has sent; and the blackout tracker has its
  8 buckets.\<close>
theorem slot_counters_wf:
  "slot_wf (ingest_samples interval span SlotState_default xs)"
proof -
  have "slot_wf st \<Longrightarrow> slot_wf (ingest_samples interval span st xs)" for st
    by (induction interval span st xs rule: ingest_samples.induct) (simp_all add: update_counters_wf)
  then show ?thesis
    using slot_default_wf by simp
qed

section \<open>Losses of an outage are not weather\<close>

lemma drain_pool_list_keeps:
  assumes "drain_pool_list at (Some now) remaining ps = (absorbed, ps')" and "p \<in> set ps" and "pool_live at now p"
  shows "\<exists>p' \<in> set ps'. op_deadline p' = op_deadline p \<and> op_expires_at p' = op_expires_at p \<and>
    unat (op_credit p) \<le> unat (op_credit p') + unat remaining"
  using assms
proof (induction ps arbitrary: remaining absorbed ps')
  case (Cons q ps)
  let ?taken = "min remaining (op_credit q)"
  consider (skip) a qs where "drain_pool_list at (Some now) remaining ps = (a, qs)" "ps' = p # qs" "q = p"
    | (tail) a qs q' where "drain_pool_list at (Some now) remaining ps = (a, qs)" "ps' = q' # qs" "p \<in> set ps"
    | (take) a qs where "drain_pool_list at (Some now) (remaining - ?taken) ps = (a, qs)"
        "ps' = q\<lparr>op_credit := op_credit q - ?taken\<rparr> # qs"
    using Cons.prems by (auto simp: Let_def pool_live_def split: if_splits prod.splits)
  then show ?case
  proof cases
    case skip
    then show ?thesis
      by auto
  next
    case tail
    then show ?thesis
      using Cons.IH [OF tail(1,3) Cons.prems(3)] by auto
  next
    case take
    have "?taken \<le> remaining" "?taken \<le> op_credit q"
      by auto
    then have sub: "unat (remaining - ?taken) \<le> unat remaining"
      "unat (op_credit q) \<le> unat (op_credit q - ?taken) + unat remaining"
      by (simp_all add: unat_sub word_le_nat_alt)
    show ?thesis
    proof (cases "q = p")
      case True
      then show ?thesis
        using take(2) sub(2) by auto
    next
      case False
      then have "p \<in> set ps"
        using Cons.prems(2) by auto
      then obtain p' where p': "p' \<in> set qs" "op_deadline p' = op_deadline p" "op_expires_at p' = op_expires_at p"
          "unat (op_credit p) \<le> unat (op_credit p') + unat (remaining - ?taken)"
        using Cons.IH [OF take(1) _ Cons.prems(3)] by blast
      have "unat (op_credit p) \<le> unat (op_credit p') + unat remaining"
        using p'(4) sub(1) by linarith
      then show ?thesis
        using p'(1-3) take(2) by auto
    qed
  qed
qed simp

text \<open>
  A slot on which every loss so far is explained: all its windows read no loss, it is in no blackout,
  and a pool with the given deadlines can still absorb losses up to the count \<open>limit\<close>.
\<close>

definition covered :: "u32 \<Rightarrow> nat \<Rightarrow> nat \<Rightarrow> u64 \<Rightarrow> OutagePool list \<Rightarrow> bool" where
  "covered deadline expires limit lost ps \<longleftrightarrow> limit \<le> unat lost \<or>
     (\<exists>p \<in> set ps. op_deadline p = deadline \<and> op_expires_at p = Some expires \<and> limit \<le> unat (op_credit p) + unat lost)"

definition quiet :: "nat \<Rightarrow> u32 \<Rightarrow> nat \<Rightarrow> nat \<Rightarrow> SlotState \<Rightarrow> bool" where
  "quiet since deadline expires limit st \<longleftrightarrow>
     slot_wf st \<and> sl_seen st \<and> sl_blackout_run st = 0 \<and>
     list_all (\<lambda>s. ls_lost s = sl_curr_lost st) (take (sl_loss_snapshot_len st) (sl_loss_snapshots st)) \<and>
     covered deadline expires limit (sl_curr_lost st) (sl_outage_pools st) \<and>
     (\<exists>t. sl_last_sample_at st = Some t \<and> since \<le> t)"

lemma quiet_drain:
  assumes "quiet since deadline expires limit st" and "sl_advancing_samples st < deadline" and "now < expires"
    and "sl_curr_lost st \<le> lost" and "unat lost \<le> limit"
  shows "\<exists>ps. absorb_outage_losses st (lost - sl_curr_lost st) now = (lost - sl_curr_lost st, st\<lparr>sl_outage_pools := ps\<rparr>) \<and>
    covered deadline expires limit lost ps"
proof -
  have d: "unat (lost - sl_curr_lost st) = unat lost - unat (sl_curr_lost st)" "unat (sl_curr_lost st) \<le> unat lost"
    using assms(4) by (simp_all add: unat_sub word_le_nat_alt)
  obtain absorbed ps where drain: "drain_pools st (lost - sl_curr_lost st) (Some now) = (absorbed, st\<lparr>sl_outage_pools := ps\<rparr>)"
    and l: "drain_pool_list (sl_advancing_samples st) (Some now) (lost - sl_curr_lost st) (sl_outage_pools st) = (absorbed, ps)"
    and bound: "unat absorbed \<le> unat (lost - sl_curr_lost st)"
    by (rule drain_poolsE [of st "lost - sl_curr_lost st" "Some now"], erule that) simp_all
  consider "limit \<le> unat (sl_curr_lost st)"
    | p where "p \<in> set (sl_outage_pools st)" "op_deadline p = deadline" "op_expires_at p = Some expires"
      "limit \<le> unat (op_credit p) + unat (sl_curr_lost st)"
    using assms(1) by (auto simp: quiet_def covered_def)
  then show ?thesis
  proof cases
    case 1
    then have "unat (lost - sl_curr_lost st) = 0"
      using assms(5) d by simp
    then have "absorbed = lost - sl_curr_lost st"
      using bound by (simp add: unat_eq_0)
    then show ?thesis
      using 1 d(2) drain by (auto simp: absorb_outage_losses_def covered_def)
  next
    case p: 2
    then have live: "pool_live (sl_advancing_samples st) now p"
      using assms(2,3) by (simp add: pool_live_def)
    have "absorbed = lost - sl_curr_lost st"
      using drain_pool_list_absorbs [OF l p(1) live] p(4) assms(5) d by (simp add: word_le_nat_alt)
    moreover obtain p' where "p' \<in> set ps" "op_deadline p' = deadline" "op_expires_at p' = Some expires"
        "unat (op_credit p) \<le> unat (op_credit p') + unat (lost - sl_curr_lost st)"
      using drain_pool_list_keeps [OF l p(1) live] p(2,3) by auto
    moreover from this(4) have "limit \<le> unat (op_credit p') + unat lost"
      using p(4) d by linarith
    ultimately show ?thesis
      using drain by (auto simp: absorb_outage_losses_def covered_def)
  qed
qed

lemma saturating_add_rest: "saturating_add x (y - x) = (y :: 'a::len word)" if "x \<le> y"
  using that by (simp add: saturating_add_def)

lemma quiet_len: "quiet since deadline expires limit st \<Longrightarrow>
    min (length (sl_loss_snapshots st)) (sl_loss_snapshot_len st) = sl_loss_snapshot_len st"
  by (simp add: quiet_def slot_wf_def snapshots_wf_def)

lemma quiet_refined:
  assumes "quiet since deadline expires limit st" and "sl_advancing_samples st < deadline" and "now < expires"
    and "sl_curr_lost st < lost" and "unat lost \<le> limit" and "since \<le> now"
  shows "quiet since deadline expires limit (snd (loss_refined st lost now))"
proof -
  let ?st = "st\<lparr>sl_last_sample_at := Some now\<rparr>"
  have "quiet since deadline expires limit ?st"
    using assms(1,6) by (simp add: quiet_def slot_wf_def snapshots_wf_def)
  then obtain ps where drain: "absorb_outage_losses ?st (lost - sl_curr_lost st) now = (lost - sl_curr_lost st, ?st\<lparr>sl_outage_pools := ps\<rparr>)"
    and p: "covered deadline expires limit lost ps"
    using quiet_drain [of since deadline expires limit ?st now lost] assms(2-5) less_imp_le [OF assms(4)] by auto
  have "slot_wf (snd (loss_refined st lost now))"
    using assms(1,4) by (intro loss_refined_wf) (auto simp: quiet_def)
  moreover have "saturating_add (sl_curr_lost st) (lost - sl_curr_lost st) = lost"
    using assms(4) by (simp add: saturating_add_rest)
  ultimately show ?thesis
    using quiet_len [OF assms(1)] assms(1,6) drain p unfolding quiet_def
    by (auto simp: loss_refined_def map_snapshots_def list_all_iff)
qed

lemma quiet_advanced:
  assumes "quiet since deadline expires limit st" and "sl_advancing_samples st < deadline" and "now < expires"
    and "sl_curr_lost st \<le> lost" and "sl_curr_sent st < sent" and "unat lost \<le> limit"
  shows "quiet since deadline expires limit (snd (counters_advanced st lost sent interval span now))"
proof -
  obtain ps where drain: "absorb_outage_losses st (lost - sl_curr_lost st) now = (lost - sl_curr_lost st, st\<lparr>sl_outage_pools := ps\<rparr>)"
    and p: "covered deadline expires limit lost ps"
    using quiet_drain [OF assms(1-4,6)] by blast
  have d: "saturating_sub lost (sl_curr_lost st) = lost - sl_curr_lost st" "\<not> sent - sl_curr_sent st \<le> 0"
    "saturating_add (sl_curr_lost st) (lost - sl_curr_lost st) = lost"
    using assms(4,5) by (simp_all add: saturating_sub_def saturating_add_rest)
  define n where "n = saturating_add (sl_advancing_samples st) 1"
  define f where "f = (\<lambda>s :: LossSnapshot. s\<lparr>ls_lost := saturating_add (ls_lost s) (lost - sl_curr_lost st)\<rparr>)"
  define st2 where "st2 = (if 0 < lost - sl_curr_lost st then map_snapshots f (st\<lparr>sl_outage_pools := ps\<rparr>) else st\<lparr>sl_outage_pools := ps\<rparr>)"
  define st4 where "st4 = st2\<lparr>sl_blackout_run := 0, sl_curr_lost := lost, sl_curr_sent := sent, sl_advancing_samples := n,
    sl_blackout_runs := BucketedMax_observe (sl_blackout_runs st) n 0 span\<rparr>"
  have res: "snd (counters_advanced st lost sent i span now) = (if n mod i = 0 then push_loss_snapshot st4 else st4)" for i
    using drain d by (simp add: counters_advanced_def Let_def n_def f_def st2_def st4_def map_snapshots_def)
  have all: "list_all (\<lambda>s. ls_lost s = lost) (take (sl_loss_snapshot_len st4) (sl_loss_snapshots st4))"
  proof (cases "0 < lost - sl_curr_lost st")
    case True
    then show ?thesis
      using quiet_len [OF assms(1)] assms(1) d(3) by (auto simp: st4_def st2_def map_snapshots_def f_def quiet_def list_all_iff)
  next
    case False
    then have "lost = sl_curr_lost st"
      by (simp add: word_gt_0)
    then show ?thesis
      using assms(1) by (simp add: st4_def st2_def quiet_def)
  qed
  have fields: "sl_seen st4" "sl_blackout_run st4 = 0" "sl_curr_lost st4 = lost" "sl_outage_pools st4 = ps"
      "sl_last_sample_at st4 = sl_last_sample_at st"
    using assms(1) by (auto simp: st4_def st2_def map_snapshots_def quiet_def)
  have wf: "slot_wf (snd (counters_advanced st lost sent i span now))" for i
    using assms(1,4,5) by (intro counters_advanced_wf) (auto simp: quiet_def)
  show ?thesis
  proof (cases "n mod interval = 0")
    case True
    have "n \<noteq> 0"
      by (simp add: n_def word_unat_eq_iff unat_saturating_add)
    then have "snapshots_wf st4"
      using wf [of 0] res [of 0] by (simp add: slot_wf_def)
    then have "list_all (\<lambda>s. ls_lost s = lost)
        (take (sl_loss_snapshot_len (push_loss_snapshot st4)) (sl_loss_snapshots (push_loss_snapshot st4)))"
      using push_loss_snapshot_in all fields(3) by (fastforce simp: list_all_iff)
    moreover have "slot_wf (push_loss_snapshot st4)"
      using wf [of interval] res [of interval] True by simp
    ultimately show ?thesis
      using res [of interval] True p fields assms(1) unfolding quiet_def by auto
  next
    case False
    then show ?thesis
      using wf [of interval] res [of interval] all p fields assms(1) unfolding quiet_def by auto
  qed
qed

lemma quiet_update:
  assumes q: "quiet since deadline expires limit st" and "sl_advancing_samples st < deadline"
    and "since \<le> now" and "now < since + OUTAGE_GAP_MIN" and "now < expires" and "unat lost \<le> limit"
  shows "quiet since deadline expires limit (snd (update_counters st lost sent interval span now))"
proof -
  let ?st = "st\<lparr>sl_last_sample_at := Some now\<rparr>"
  have "quiet since deadline expires limit ?st"
    using q assms(3) by (simp add: quiet_def slot_wf_def snapshots_wf_def)
  moreover obtain t where t: "sl_last_sample_at st = Some t" "since \<le> t"
    using q by (auto simp: quiet_def)
  then have "now - t < OUTAGE_GAP_MIN"
    using assms(4) by (simp add: OUTAGE_GAP_MIN_def)
  moreover have "sl_seen st"
    using q by (simp add: quiet_def)
  ultimately show ?thesis
    using q t assms quiet_refined [OF q, of now lost] quiet_advanced [of since deadline expires limit ?st now lost sent interval span]
    by (auto simp: update_counters_def Let_def not_less)
qed

lemma update_counters_samples:
  assumes "slot_wf st" and "unat (sl_advancing_samples st) + 1 < 2 ^ 32"
  shows "unat (sl_advancing_samples (snd (update_counters st lost sent interval span now))) \<le> unat (sl_advancing_samples st) + 1"
proof -
  have n: "unat (saturating_add (sl_advancing_samples st) 1) \<le> unat (sl_advancing_samples st) + 1"
    by (simp add: unat_saturating_add)
  have drain: "sl_advancing_samples (snd (drain_pools s d w)) = sl_advancing_samples s" for s d w
    by (simp add: drain_pools_def split: prod.splits)
  show ?thesis
    using n drain
    by (auto simp: update_counters_def loss_refined_def counters_advanced_def rebaseline_after_outage_def
        absorb_outage_losses_def map_snapshots_def push_loss_snapshot_def Let_def case_prod_beta split: option.splits)
qed

lemma quiet_ingest:
  assumes "quiet since deadline expires limit st" and "unat (sl_advancing_samples st) + length xs < unat deadline"
    and "since + OUTAGE_GAP_MIN \<le> expires"
    and "list_all (\<lambda>(lost, sent, t). since \<le> t \<and> t < since + OUTAGE_GAP_MIN \<and> unat lost \<le> limit) xs"
  shows "quiet since deadline expires limit (ingest_samples interval span st xs)"
  using assms
proof (induction interval span st xs rule: ingest_samples.induct)
  case (2 interval span st lost sent now xs)
  let ?st = "snd (update_counters st lost sent interval span now)"
  have "quiet since deadline expires limit ?st"
    using 2(2-5) by (intro quiet_update) (auto simp: word_less_nat_alt)
  moreover have "unat (sl_advancing_samples ?st) \<le> unat (sl_advancing_samples st) + 1"
    using 2(2,3) unat_less [of deadline] by (intro update_counters_samples) (auto simp: quiet_def)
  ultimately show ?case
    using 2(1,3-5) by simp
qed simp

lemma outage_update:
  assumes "update_counters st lost sent interval span now = (OutageRebaselined, st1)"
  shows "sl_seen st" and "sl_curr_lost st \<le> lost" and "sl_curr_sent st < sent"
    and "rebaseline_after_outage (st\<lparr>sl_last_sample_at := Some now\<rparr>) lost sent span now = (OutageRebaselined, st1)"
  using assms by (auto simp: update_counters_def loss_refined_def counters_advanced_def Let_def case_prod_beta
      split: if_splits option.splits)

lemma rebaselined_quiet:
  assumes "slot_wf st" and "update_counters st lost sent interval span now = (OutageRebaselined, st1)"
    and "unat (sl_advancing_samples st1) + 24 < 2 ^ 32"
    and "limit + (unat lost - unat (sl_curr_lost st)) = unat lost + (unat sent - unat (sl_curr_sent st))"
  shows "quiet now (sl_advancing_samples st1 + 24) (now + OUTAGE_LOSS_RESOLUTION_MAX_AGE) limit st1"
proof -
  let ?st = "st\<lparr>sl_last_sample_at := Some now\<rparr>"
  note o = outage_update [OF assms(2)]
  obtain consumed ps where drain: "drain_pools ?st (lost - sl_curr_lost st) None = (consumed, ?st\<lparr>sl_outage_pools := ps\<rparr>)"
    and b: "unat consumed \<le> unat (lost - sl_curr_lost st)" "length ps = length (sl_outage_pools st)"
    by (rule drain_poolsE [of ?st "lost - sl_curr_lost st" None], erule that) simp_all
  define fresh where "fresh = saturating_sub (sent - sl_curr_sent st) (lost - sl_curr_lost st - consumed)"
  define n where "n = saturating_add (sl_advancing_samples st) 1"
  define pools where "pools = bank_credit fresh n now (map (drop_expired now) ps)"
  have st1: "st1 = rebaselined ?st lost sent span pools"
    using rebaseline_after_outage_result [of ?st lost consumed ps sent span now] o(2,4) drain
    by (simp add: pools_def fresh_def n_def)
  then have n1: "sl_advancing_samples st1 = n"
    by (simp add: rebaselined_def n_def Let_def)
  have lost: "unat (lost - sl_curr_lost st) = unat lost - unat (sl_curr_lost st)" "unat (sl_curr_lost st) \<le> unat lost"
    using o(2) by (simp_all add: unat_sub word_le_nat_alt)
  have "unat (lost - sl_curr_lost st - consumed) \<le> unat lost - unat (sl_curr_lost st)"
    using b(1) lost by (simp add: unat_sub word_le_nat_alt)
  moreover have "unat (sent - sl_curr_sent st) = unat sent - unat (sl_curr_sent st)"
    using o(3) by (simp add: unat_sub order_less_imp_le)
  ultimately have fresh: "unat sent - unat (sl_curr_sent st) \<le> unat fresh + (unat lost - unat (sl_curr_lost st))"
    by (simp add: fresh_def unat_saturating_sub)
  have "saturating_add n 24 = n + 24"
    using assms(3) n1 by (simp add: saturating_add_def le_add_word_iff)
  moreover have "length ps = 2"
    using assms(1) b(2) by (simp add: slot_wf_def)
  ultimately have "covered (n + 24) (now + OUTAGE_LOSS_RESOLUTION_MAX_AGE) limit lost pools"
    using assms(4) lost fresh
    by (cases "fresh = 0")
      (auto simp: covered_def pools_def bank_credit_def length_two Let_def OUTAGE_LOSS_RESOLUTION_SAMPLES_def word_gt_0)
  moreover have "slot_wf st1"
    using update_counters_wf [OF assms(1), of lost sent interval span now] assms(2) by simp
  ultimately show ?thesis
    using st1 n1 o(1) by (simp add: quiet_def rebaselined_def Let_def LOSS_SNAPSHOT_COUNT_def numeral_eq_Suc)
qed

text \<open>C15: The losses of an outage are not priced as weather.  When a sample closes a receive gap of a
  second or more, and in the second that follows fewer than 24 samples arrive that declare no more losses
  than the gap's sends left unresolved, then every loss window of the slot still reads no loss at all
  and no blackout is counted: however the declarations are spread over those samples, they are absorbed
  by the credit of the gap.\<close>
theorem outage_losses_not_priced:
  assumes "slot_wf st" and "update_counters st lost sent interval span now = (OutageRebaselined, st1)"
    and "unat (sl_advancing_samples st1) + 24 < 2 ^ 32" and "length xs < 24"
    and "list_all (\<lambda>(l, s, t). now \<le> t \<and> t < now + OUTAGE_GAP_MIN \<and>
      unat l + (unat lost - unat (sl_curr_lost st)) \<le> unat lost + (unat sent - unat (sl_curr_sent st))) xs"
    and "ingest_samples interval span st1 xs = st2"
  shows "list_all (\<lambda>s. ls_lost s = sl_curr_lost st2) (take (sl_loss_snapshot_len st2) (sl_loss_snapshots st2)) \<and>
    sl_blackout_run st2 = 0"
proof -
  define limit where "limit = unat lost + (unat sent - unat (sl_curr_sent st)) - (unat lost - unat (sl_curr_lost st))"
  have "unat lost - unat (sl_curr_lost st) \<le> unat lost"
    by simp
  then have limit: "limit + (unat lost - unat (sl_curr_lost st)) = unat lost + (unat sent - unat (sl_curr_sent st))"
    unfolding limit_def by linarith
  let ?D = "sl_advancing_samples st1 + 24"
  have "unat ?D = unat (sl_advancing_samples st1) + 24"
    using assms(3) by (simp add: unat_word_ariths)
  moreover have "list_all (\<lambda>(l, s, t). now \<le> t \<and> t < now + OUTAGE_GAP_MIN \<and> unat l \<le> limit) xs"
    using assms(5) unfolding limit [symmetric] by (auto simp: list_all_iff)
  ultimately have "quiet now ?D (now + OUTAGE_LOSS_RESOLUTION_MAX_AGE) limit (ingest_samples interval span st1 xs)"
    using rebaselined_quiet [OF assms(1-3) limit] assms(4)
    by (intro quiet_ingest) (simp_all add: OUTAGE_GAP_MIN_def OUTAGE_LOSS_RESOLUTION_MAX_AGE_def)
  then show ?thesis
    using assms(6) by (simp add: quiet_def)
qed

lemmas counter_defs = update_counters_def rebaseline_after_outage_def push_loss_snapshot_def drain_pools_def
  SlotState_default_def OutagePool_default_def OUTAGE_GAP_MIN_def saturating_add_def saturating_sub_def

theorem outage_losses_not_priced_witness:
  "let st = snd (update_counters SlotState_default 0 0 12 24 0);
       st1 = snd (update_counters st 0 5 12 24 2000000);
       st2 = ingest_samples 12 24 st1 [(3, 6, 2100000), (5, 8, 2200000)]
   in list_all (\<lambda>s. ls_lost s = sl_curr_lost st2) (take (sl_loss_snapshot_len st2) (sl_loss_snapshots st2)) \<and>
      sl_blackout_run st2 = 0"
proof -
  define st where "st = snd (update_counters SlotState_default 0 0 12 24 0)"
  define st1 where "st1 = snd (update_counters st 0 5 12 24 2000000)"
  have "update_counters st 0 5 12 24 2000000 = (OutageRebaselined, st1)"
    by (rule prod_eqI) (simp_all add: st1_def st_def counter_defs Let_def case_prod_beta)
  moreover have "slot_wf st"
    unfolding st_def by (intro update_counters_wf slot_default_wf)
  moreover have "sl_advancing_samples st1 = 1" "sl_curr_lost st = 0" "sl_curr_sent st = 0"
    by (simp_all add: st1_def st_def counter_defs Let_def case_prod_beta)
  ultimately show ?thesis
    using outage_losses_not_priced [of st 0 5 12 24 2000000 st1 "[(3, 6, 2100000), (5, 8, 2200000)]"
        "ingest_samples 12 24 st1 [(3, 6, 2100000), (5, 8, 2200000)]"]
    unfolding Let_def st_def [symmetric] st1_def [symmetric] by (simp add: OUTAGE_GAP_MIN_def)
qed

end
