(* ===== verification/Delivery.thy ===== *)
theory Delivery
  imports Prelude
begin

text \<open>
  End-to-end delivery tracking (\<open>relay/src/consensus/delivery.rs\<close>): which origin's turns have reached
  which destination client, the cushion this adds to the latency buffer, and the throttle of the shares
  to peer relays.  A hash map is a partial map.  The loops that traverse the pair table take the order
  of the traversal as an argument, a list that enumerates the pairs of the table.
\<close>

datatype DeliveryHome = DeliveryLocal | DeliveryPeer RelayId

record PairDelivery =
  pd_delivered_seq :: u64

record DeliveryTracking =
  dv_origins :: "SlotId \<rightharpoonup> u64 \<times> DeliveryHome"
  dv_dests :: "SlotId \<rightharpoonup> DeliveryHome \<times> (SlotId \<rightharpoonup> PairDelivery)"

definition DeliveryTracking_default :: DeliveryTracking where
  "DeliveryTracking_default = \<lparr>dv_origins = Map.empty, dv_dests = Map.empty\<rparr>"

definition EXTRA_HOP_CUSHION_TURNS :: u32 where
  "EXTRA_HOP_CUSHION_TURNS = 1"

definition E2E_LAG_SLACK_TURNS :: u64 where
  "E2E_LAG_SLACK_TURNS = 12"

definition E2E_LAG_TURNS_PER_CUSHION_TURN :: u64 where
  "E2E_LAG_TURNS_PER_CUSHION_TURN = 4"

definition E2E_LAG_CUSHION_CAP_TURNS :: u32 where
  "E2E_LAG_CUSHION_CAP_TURNS = 3"

definition pair_delivery :: "DeliveryTracking \<Rightarrow> SlotId \<Rightarrow> SlotId \<Rightarrow> (DeliveryHome \<times> PairDelivery) option" where
  "pair_delivery d dest origin =
     (case dv_dests d dest of
        None \<Rightarrow> None
      | Some (home, cursors) \<Rightarrow> map_option (Pair home) (cursors origin))"

definition map_or :: "'a \<Rightarrow> ('b \<Rightarrow> 'a) \<Rightarrow> 'b option \<Rightarrow> 'a" where
  "map_or z f x = (case x of None \<Rightarrow> z | Some y \<Rightarrow> f y)"

fun pair_summary_loop ::
    "DeliveryTracking \<Rightarrow> (SlotId \<times> SlotId) list \<Rightarrow> u32 option \<Rightarrow> u64 option \<Rightarrow> u32 option \<times> u64 option" where
  "pair_summary_loop d [] max_hops worst_lag = (max_hops, worst_lag)"
| "pair_summary_loop d ((dest, origin) # pairs) max_hops worst_lag =
     (if origin = dest then pair_summary_loop d pairs max_hops worst_lag
      else case (dv_origins d origin, pair_delivery d dest origin) of
             (Some (newest, origin_home), Some (dest_home, pair)) \<Rightarrow>
               let hops = (if origin_home = dest_home then 1 else 2);
                   lag = saturating_sub newest (pd_delivered_seq pair)
               in pair_summary_loop d pairs (Some (map_or hops (max hops) max_hops)) (Some (map_or lag (max lag) worst_lag))
           | _ \<Rightarrow> pair_summary_loop d pairs max_hops worst_lag)"

definition pair_summary :: "DeliveryTracking \<Rightarrow> (SlotId \<times> SlotId) list \<Rightarrow> u32 option \<times> u64 option" where
  "pair_summary d pairs = pair_summary_loop d pairs None None"

definition observe_origin :: "DeliveryTracking \<Rightarrow> SlotId \<Rightarrow> u64 \<Rightarrow> DeliveryHome \<Rightarrow> DeliveryTracking" where
  "observe_origin d origin seq home =
     (case dv_origins d origin of
        Some (newest, _) \<Rightarrow>
          if newest < seq then d\<lparr>dv_origins := (dv_origins d)(origin \<mapsto> (seq, home))\<rparr> else d
      | None \<Rightarrow> d\<lparr>dv_origins := (dv_origins d)(origin \<mapsto> (seq, home))\<rparr>)"

definition observe_delivery :: "DeliveryTracking \<Rightarrow> SlotId \<Rightarrow> SlotId \<Rightarrow> u64 \<Rightarrow> DeliveryHome \<Rightarrow> DeliveryTracking" where
  "observe_delivery d dest origin delivered_seq home =
     (if dest = origin then d
      else
        let cursors = (case dv_dests d dest of Some (_, cursors) \<Rightarrow> cursors | None \<Rightarrow> Map.empty);
            pair = (case cursors origin of Some pair \<Rightarrow> pair | None \<Rightarrow> \<lparr>pd_delivered_seq = 0\<rparr>);
            pair' = (if pd_delivered_seq pair < delivered_seq then pair\<lparr>pd_delivered_seq := delivered_seq\<rparr> else pair)
        in d\<lparr>dv_dests := (dv_dests d)(dest \<mapsto> (home, cursors(origin \<mapsto> pair')))\<rparr>)"

definition forget_slot :: "DeliveryTracking \<Rightarrow> SlotId \<Rightarrow> DeliveryTracking" where
  "forget_slot d slot =
     \<lparr>dv_origins = (dv_origins d)(slot := None),
      dv_dests = (\<lambda>dest. map_option (\<lambda>(home, cursors). (home, cursors(slot := None)))
                    (((dv_dests d)(slot := None)) dest))\<rparr>"

fun worst_lag_loop :: "DeliveryTracking \<Rightarrow> (SlotId \<times> SlotId) list \<Rightarrow> u64 option \<Rightarrow> u64 option" where
  "worst_lag_loop d [] worst = worst"
| "worst_lag_loop d ((dest, origin) # pairs) worst =
     (if origin = dest then worst_lag_loop d pairs worst
      else case (dv_origins d origin, pair_delivery d dest origin) of
             (Some (newest, _), Some (_, pair)) \<Rightarrow>
               let lag = saturating_sub newest (pd_delivered_seq pair)
               in worst_lag_loop d pairs (Some (map_or lag (\<lambda>w. max w lag) worst))
           | _ \<Rightarrow> worst_lag_loop d pairs worst)"

definition worst_lag_turns :: "DeliveryTracking \<Rightarrow> (SlotId \<times> SlotId) list \<Rightarrow> u64 option" where
  "worst_lag_turns d pairs = worst_lag_loop d pairs None"

fun max_hops_loop :: "DeliveryTracking \<Rightarrow> (SlotId \<times> SlotId) list \<Rightarrow> u32 option \<Rightarrow> u32 option" where
  "max_hops_loop d [] hops = hops"
| "max_hops_loop d ((dest, origin) # pairs) most =
     (if origin = dest then max_hops_loop d pairs most
      else case (dv_origins d origin, pair_delivery d dest origin) of
             (Some (_, origin_home), Some (dest_home, _)) \<Rightarrow>
               let hops = (if origin_home = dest_home then 1 else 2)
               in max_hops_loop d pairs (Some (map_or hops (\<lambda>m. max m hops) most))
           | _ \<Rightarrow> max_hops_loop d pairs most)"

definition max_relay_hops :: "DeliveryTracking \<Rightarrow> (SlotId \<times> SlotId) list \<Rightarrow> u32 option" where
  "max_relay_hops d pairs = max_hops_loop d pairs None"

definition lag_cushion :: "u64 \<Rightarrow> u32" where
  "lag_cushion lag =
     (let excess = saturating_sub lag E2E_LAG_SLACK_TURNS
      in min (ucast (excess div E2E_LAG_TURNS_PER_CUSHION_TURN)) E2E_LAG_CUSHION_CAP_TURNS)"

definition cushion_turns :: "DeliveryTracking \<Rightarrow> (SlotId \<times> SlotId) list \<Rightarrow> u32" where
  "cushion_turns d pairs =
     (let (max_relay_hops, worst_lag_turns) = pair_summary d pairs;
          hop_term = saturating_sub (map_or 1 (\<lambda>h. h) max_relay_hops) 1 * EXTRA_HOP_CUSHION_TURNS;
          lag_term = map_or 0 lag_cushion worst_lag_turns
      in hop_term + lag_term)"

subsection \<open>The share throttle\<close>

record CursorShare =
  cs_cursors :: "SlotId \<rightharpoonup> u64"
  cs_last_sent :: "nat option"
  cs_min_interval :: nat

definition CursorShare_new :: "nat \<Rightarrow> CursorShare" where
  "CursorShare_new min_interval = \<lparr>cs_cursors = Map.empty, cs_last_sent = None, cs_min_interval = min_interval\<rparr>"

definition sorted_cursors :: "(SlotId \<rightharpoonup> u64) \<Rightarrow> (SlotId \<times> u64) list" where
  "sorted_cursors m = map (\<lambda>s. (s, the (m s))) (sorted_list_of_set (dom m))"

definition CursorShare_advance :: "CursorShare \<Rightarrow> SlotId \<Rightarrow> u64 \<Rightarrow> nat \<Rightarrow> (SlotId \<times> u64) list option \<times> CursorShare" where
  "CursorShare_advance cs origin seq now =
     (if (case cs_cursors cs origin of Some current \<Rightarrow> seq \<le> current | None \<Rightarrow> False) then (None, cs)
      else
        let cs' = cs\<lparr>cs_cursors := (cs_cursors cs)(origin \<mapsto> seq)\<rparr>;
            due = (case cs_last_sent cs of None \<Rightarrow> True | Some last_sent \<Rightarrow> cs_min_interval cs \<le> now - last_sent)
        in if due then (Some (sorted_cursors (cs_cursors cs')), cs'\<lparr>cs_last_sent := Some now\<rparr>) else (None, cs'))"

section \<open>The summaries are maxima over the table\<close>

definition pairs_of :: "DeliveryTracking \<Rightarrow> (SlotId \<times> SlotId) set" where
  "pairs_of d = {(dest, origin). pair_delivery d dest origin \<noteq> None}"

definition pair_lag :: "DeliveryTracking \<Rightarrow> SlotId \<times> SlotId \<Rightarrow> u64 option" where
  "pair_lag d = (\<lambda>(dest, origin).
     if origin = dest then None
     else case (dv_origins d origin, pair_delivery d dest origin) of
            (Some (newest, _), Some (_, pair)) \<Rightarrow> Some (saturating_sub newest (pd_delivered_seq pair))
          | _ \<Rightarrow> None)"

definition pair_hops :: "DeliveryTracking \<Rightarrow> SlotId \<times> SlotId \<Rightarrow> u32 option" where
  "pair_hops d = (\<lambda>(dest, origin).
     if origin = dest then None
     else case (dv_origins d origin, pair_delivery d dest origin) of
            (Some (_, origin_home), Some (dest_home, _)) \<Rightarrow> Some (if origin_home = dest_home then 1 else 2)
          | _ \<Rightarrow> None)"

definition greatest_of :: "'a::linorder set \<Rightarrow> 'a option" where
  "greatest_of A = (if A = {} then None else Some (Max A))"

definition join_max :: "'a::linorder option \<Rightarrow> 'a option \<Rightarrow> 'a option" where
  "join_max x y = (case (x, y) of (None, _) \<Rightarrow> y | (_, None) \<Rightarrow> x | (Some a, Some b) \<Rightarrow> Some (max a b))"

definition found :: "('p \<Rightarrow> 'a option) \<Rightarrow> 'p list \<Rightarrow> 'a set" where
  "found f ps = {x. \<exists>p \<in> set ps. f p = Some x}"

lemma found_simps [simp]:
  "found f [] = {}" "found f (p # ps) = (case f p of None \<Rightarrow> found f ps | Some x \<Rightarrow> insert x (found f ps))"
  by (auto simp: found_def split: option.splits)

lemma finite_found [simp]: "finite (found f ps)"
  by (induction ps) (auto split: option.splits)

lemma found_set_cong: "set ps = set qs \<Longrightarrow> found f ps = found f qs"
  by (simp add: found_def)

lemma join_max_insert:
  "finite A \<Longrightarrow> join_max w (greatest_of (insert x A)) = join_max (Some (map_or x (max x) w)) (greatest_of A)"
  by (auto simp: join_max_def greatest_of_def map_or_def max.assoc max.left_commute [of x] max.commute [of _ x]
      split: option.splits)

lemma join_max_None [simp]: "join_max None y = y" "join_max x None = x"
  by (auto simp: join_max_def split: option.splits)

lemma greatest_of_empty [simp]: "greatest_of {} = None"
  by (simp add: greatest_of_def)

lemma map_or_max_commute: "map_or x (\<lambda>w. max w x) w = map_or x (max x) w" for x :: "'a::linorder"
  by (cases w) (simp_all add: map_or_def max.commute)

lemma pair_lag_app:
  "pair_lag d (dest, origin) = (if origin = dest then None
     else case dv_origins d origin of None \<Rightarrow> None
          | Some (newest, _) \<Rightarrow> map_option (\<lambda>(_, pair). saturating_sub newest (pd_delivered_seq pair)) (pair_delivery d dest origin))"
  by (auto simp: pair_lag_def split: option.splits)

lemma pair_hops_app:
  "pair_hops d (dest, origin) = (if origin = dest then None
     else case dv_origins d origin of None \<Rightarrow> None
          | Some (_, origin_home) \<Rightarrow> map_option (\<lambda>(dest_home, _). if origin_home = dest_home then 1 else 2) (pair_delivery d dest origin))"
  by (auto simp: pair_hops_def split: option.splits)

lemma pair_summary_loop_exact:
  "pair_summary_loop d pairs h l =
   (join_max h (greatest_of (found (pair_hops d) pairs)), join_max l (greatest_of (found (pair_lag d) pairs)))"
proof (induction d pairs h l rule: pair_summary_loop.induct)
  case (2 d dest origin pairs h l)
  then show ?case
    by (auto simp: pair_hops_app pair_lag_app join_max_insert Let_def split: option.splits)
qed simp

lemma worst_lag_loop_exact: "worst_lag_loop d pairs w = join_max w (greatest_of (found (pair_lag d) pairs))"
proof (induction d pairs w rule: worst_lag_loop.induct)
  case (2 d dest origin pairs w)
  then show ?case
    by (auto simp: pair_lag_app join_max_insert Let_def map_or_max_commute split: option.splits)
qed simp

lemma max_hops_loop_exact: "max_hops_loop d pairs h = join_max h (greatest_of (found (pair_hops d) pairs))"
proof (induction d pairs h rule: max_hops_loop.induct)
  case (2 d dest origin pairs h)
  then show ?case
    by (auto simp: pair_hops_app join_max_insert Let_def map_or_max_commute split: option.splits)
qed simp

text \<open>The one-pass summary agrees with the two standalone ones, whatever orders the three
  traversals of the pair table happen to take: the hop count and the worst lag the cushion is computed
  from are the ones the observability reads report.\<close>
theorem delivery_summary_equivalent:
  assumes "set ps = pairs_of d" and "set qs = pairs_of d" and "set rs = pairs_of d"
  shows "pair_summary d ps = (max_relay_hops d qs, worst_lag_turns d rs)"
proof -
  have "found (pair_hops d) ps = found (pair_hops d) qs" "found (pair_lag d) ps = found (pair_lag d) rs"
    using assms by (simp_all add: found_def)
  then show ?thesis
    by (simp add: pair_summary_def max_relay_hops_def worst_lag_turns_def pair_summary_loop_exact
        worst_lag_loop_exact max_hops_loop_exact)
qed

theorem delivery_summary_equivalent_witness:
  "let d = observe_delivery (observe_delivery (observe_origin (observe_origin DeliveryTracking_default
             0 100 DeliveryLocal) 2 50 (DeliveryPeer 9)) 1 0 40 DeliveryLocal) 1 2 50 DeliveryLocal
   in pair_summary d [(1, 0), (1, 2)] = (max_relay_hops d [(1, 2), (1, 0)], worst_lag_turns d [(1, 0), (1, 2)])"
  unfolding Let_def
  by (rule delivery_summary_equivalent)
    (auto simp: pairs_of_def pair_delivery_def observe_delivery_def observe_origin_def DeliveryTracking_default_def
      split: if_splits option.splits)

text \<open>
  Whatever its clients claim, the cushion a session gains is at most one turn for the extra relay hop
  and three for lag.
\<close>

theorem cushion_bounded: "cushion_turns d pairs \<le> EXTRA_HOP_CUSHION_TURNS + E2E_LAG_CUSHION_CAP_TURNS"
proof -
  have hops: "found (pair_hops d) pairs \<subseteq> {1, 2}"
    by (auto simp: found_def pair_hops_app split: if_splits option.splits)
  have "map_or 1 (\<lambda>h. h) (greatest_of (found (pair_hops d) pairs)) \<in> {1, 2 :: u32}"
  proof (cases "found (pair_hops d) pairs = {}")
    case False
    then have "Max (found (pair_hops d) pairs) \<in> found (pair_hops d) pairs"
      by (intro Max_in) auto
    with hops have "Max (found (pair_hops d) pairs) \<in> {1, 2}"
      by (rule subsetD)
    then show ?thesis
      using False by (simp add: greatest_of_def map_or_def)
  qed (simp add: map_or_def)
  then have hop: "saturating_sub (map_or 1 (\<lambda>h. h) (greatest_of (found (pair_hops d) pairs))) 1 \<in> {0, 1 :: u32}"
    by (auto simp: saturating_sub_def)
  have "map_or 0 lag_cushion (greatest_of (found (pair_lag d) pairs)) \<le> 3"
    by (auto simp: map_or_def lag_cushion_def Let_def E2E_LAG_CUSHION_CAP_TURNS_def min_le_iff_disj split: option.splits)
  then have "unat (map_or 0 lag_cushion (greatest_of (found (pair_lag d) pairs))) \<le> 3"
    by (simp add: word_le_nat_alt)
  then show ?thesis
    using hop by (auto simp: cushion_turns_def pair_summary_def pair_summary_loop_exact EXTRA_HOP_CUSHION_TURNS_def
        E2E_LAG_CUSHION_CAP_TURNS_def word_le_nat_alt unat_word_ariths)
qed

text \<open>
  The lag term saturates only below \<open>2 ^ 34\<close> turns: the quotient is truncated to 32 bits before it is
  compared with the cap, and a lag of \<open>2 ^ 34 + 12\<close> turns adds nothing at all.
\<close>

lemma lag_cushion_truncates: "lag_cushion (2 ^ 34 + 12) = 0"
  by (simp add: lag_cushion_def Let_def E2E_LAG_SLACK_TURNS_def E2E_LAG_TURNS_PER_CUSHION_TURN_def
      E2E_LAG_CUSHION_CAP_TURNS_def saturating_sub_def word_le_nat_alt)

lemma pair_delivery_forget:
  "pair_delivery (forget_slot d slot) dest origin =
   (if dest = slot \<or> origin = slot then None else pair_delivery d dest origin)"
  by (auto simp: pair_delivery_def forget_slot_def split: option.splits)

text \<open>A departed slot no longer counts, as origin or as destination.\<close>

lemma pair_lag_forget:
  "pair_lag (forget_slot d slot) (dest, origin) = (if dest = slot \<or> origin = slot then None else pair_lag d (dest, origin))"
  by (auto simp: pair_lag_app pair_delivery_forget split: option.splits) (auto simp: forget_slot_def split: if_splits)

end
