(* ===== verification/LobbyRate.thy ===== *)
theory LobbyRate
  imports ControlStream
begin

text \<open>
  The rate limits on lobby commands.  The relay's token bucket (\<open>relay/src/rate_limit.rs\<close>) meters the
  commands of one author as they arrive; the client's pacer (\<open>client/src/driver/lobby.rs\<close>) meters its
  writes at half that rate, so that the path may delay them unevenly.  Times and durations are
  numbers of nanoseconds.
\<close>

section \<open>The relay's token bucket\<close>

record TokenBucket =
  tb_tokens :: u32
  tb_last_refill :: nat
  tb_burst :: u32
  tb_refill_interval :: nat

definition TokenBucket_new_at :: "u32 \<Rightarrow> nat \<Rightarrow> nat \<Rightarrow> TokenBucket" where
  "TokenBucket_new_at burst refill_interval now =
     \<lparr>tb_tokens = burst, tb_last_refill = now, tb_burst = burst, tb_refill_interval = refill_interval\<rparr>"

definition as_millis :: "nat \<Rightarrow> nat" where
  "as_millis duration = duration div 1000000"

definition u32_try_from :: "nat \<Rightarrow> u32 option" where
  "u32_try_from n = (if n < 2 ^ 32 then Some (of_nat n) else None)"

definition unwrap_or :: "'a \<Rightarrow> 'a option \<Rightarrow> 'a" where
  "unwrap_or z x = (case x of None \<Rightarrow> z | Some y \<Rightarrow> y)"

definition bucket_refill :: "TokenBucket \<Rightarrow> nat \<Rightarrow> TokenBucket" where
  "bucket_refill b now =
     (let elapsed = now - tb_last_refill b;
          interval_ms = max (as_millis (tb_refill_interval b)) 1;
          intervals = as_millis elapsed div interval_ms
      in if 0 < intervals then
           let intervals' = unwrap_or (tb_burst b) (u32_try_from intervals)
           in b\<lparr>tb_tokens := min (saturating_add (tb_tokens b) intervals') (tb_burst b),
                tb_last_refill := tb_last_refill b + tb_refill_interval b * unat intervals'\<rparr>
         else b)"

definition try_take_at :: "TokenBucket \<Rightarrow> nat \<Rightarrow> bool \<times> TokenBucket" where
  "try_take_at b now =
     (let b' = bucket_refill b now
      in if tb_tokens b' = 0 then (False, b') else (True, b'\<lparr>tb_tokens := tb_tokens b' - 1\<rparr>))"

section \<open>The client's pacer\<close>

definition RATE_BURST :: u32 where
  "RATE_BURST = 32"

definition RATE_REFILL :: nat where
  "RATE_REFILL = 200 * 1000000"

definition PACE_BURST :: u32 where
  "PACE_BURST = RATE_BURST div 2"

definition PACE_REFILL :: nat where
  "PACE_REFILL = RATE_REFILL * 2"

record LobbyPacer =
  lp_tokens :: u32
  lp_last_refill :: nat

definition LobbyPacer_new :: "nat \<Rightarrow> LobbyPacer" where
  "LobbyPacer_new now = \<lparr>lp_tokens = PACE_BURST, lp_last_refill = now\<rparr>"

definition pacer_refill :: "LobbyPacer \<Rightarrow> nat \<Rightarrow> LobbyPacer" where
  "pacer_refill p now =
     (let elapsed = now - lp_last_refill p;
          whole = unwrap_or (- 1) (u32_try_from (elapsed div PACE_REFILL));
          tokens = min (saturating_add (lp_tokens p) whole) PACE_BURST
      in if tokens = PACE_BURST then \<lparr>lp_tokens = tokens, lp_last_refill = now\<rparr>
         else \<lparr>lp_tokens = tokens, lp_last_refill = lp_last_refill p + PACE_REFILL * unat whole\<rparr>)"

definition pacer_try_take :: "LobbyPacer \<Rightarrow> nat \<Rightarrow> bool \<times> LobbyPacer" where
  "pacer_try_take p now =
     (let p' = pacer_refill p now
      in if lp_tokens p' = 0 then (False, p') else (True, p'\<lparr>lp_tokens := lp_tokens p' - 1\<rparr>))"

definition next_token_at :: "LobbyPacer \<Rightarrow> nat" where
  "next_token_at p = (if 0 < lp_tokens p then lp_last_refill p else lp_last_refill p + PACE_REFILL)"

section \<open>The client's lobby commands\<close>

record LobbyOutbox =
  lo_commands :: "LobbyCommand list"
  lo_bytes :: nat
  lo_pacer :: LobbyPacer

definition LobbyOutbox_new :: "nat \<Rightarrow> LobbyOutbox" where
  "LobbyOutbox_new now = \<lparr>lo_commands = [], lo_bytes = 0, lo_pacer = LobbyPacer_new now\<rparr>"

definition outbox_author :: "LobbyOutbox \<Rightarrow> u8 list \<Rightarrow> bool \<times> LobbyOutbox" where
  "outbox_author ob bytes =
     (if LOG_MAX_COMMANDS \<le> length (lo_commands ob) \<or> LOG_MAX_BYTES < usize_saturating_add (lo_bytes ob) (length bytes)
      then (False, ob)
      else (True, ob\<lparr>lo_bytes := lo_bytes ob + length bytes,
                    lo_commands := lo_commands ob @
                      [\<lparr>lc_slot = 0, lc_payload = bytes, lc_seq = Some (of_nat (length (lo_commands ob)))\<rparr>]\<rparr>))"

definition next_due :: "LobbyOutbox \<Rightarrow> nat \<Rightarrow> nat option" where
  "next_due ob sent = (if sent < length (lo_commands ob) then Some (next_token_at (lo_pacer ob)) else None)"

fun send_due_loop ::
    "'d control_codec \<Rightarrow> ('s \<Rightarrow> u8 list \<Rightarrow> ('w + unit) \<times> 's) \<Rightarrow> nat \<Rightarrow> LobbyCommand list \<Rightarrow> LobbyPacer \<Rightarrow> 's \<Rightarrow> nat \<Rightarrow>
       (('d, 'w) ControlSendError + unit) \<times> LobbyPacer \<times> 's \<times> nat" where
  "send_due_loop c write_all now [] p stream sent = (Inr (), p, stream, sent)"
| "send_due_loop c write_all now (command # commands) p stream sent =
     (case pacer_try_take p now of
        (False, p') \<Rightarrow> (Inr (), p', stream, sent)
      | (True, p') \<Rightarrow>
          (case send_control_lobby c write_all stream command of
             (Inl e, s) \<Rightarrow> (Inl e, p', s, sent)
           | (Inr _, s) \<Rightarrow> send_due_loop c write_all now commands p' s (sent + 1)))"

definition send_due ::
    "'d control_codec \<Rightarrow> ('s \<Rightarrow> u8 list \<Rightarrow> ('w + unit) \<times> 's) \<Rightarrow> nat \<Rightarrow> LobbyOutbox \<Rightarrow> 's \<Rightarrow> nat \<Rightarrow>
       (('d, 'w) ControlSendError + unit) \<times> LobbyOutbox \<times> 's \<times> nat" where
  "send_due c write_all now ob stream sent =
     (let (r, p, s, n) = send_due_loop c write_all now (drop sent (lo_commands ob)) (lo_pacer ob) stream sent
      in (r, ob\<lparr>lo_pacer := p\<rparr>, s, n))"

type_synonym LobbyReceipts = "SlotId \<Rightarrow> u64 set"

definition receipts_admit :: "LobbyReceipts \<Rightarrow> SlotId \<Rightarrow> u64 option \<Rightarrow> bool \<times> LobbyReceipts" where
  "receipts_admit delivered slot seq =
     (case seq of
        None \<Rightarrow> (True, delivered)
      | Some q \<Rightarrow> (q \<notin> delivered slot, delivered(slot := insert q (delivered slot))))"

section \<open>The pacer's writes\<close>

fun pacer_writes :: "LobbyPacer \<Rightarrow> nat list \<Rightarrow> bool" where
  "pacer_writes p [] = True"
| "pacer_writes p (w # ws) = (let (taken, p') = pacer_try_take p w in taken \<and> pacer_writes p' ws)"

fun bucket_admits :: "TokenBucket \<Rightarrow> nat list \<Rightarrow> bool" where
  "bucket_admits b [] = True"
| "bucket_admits b (a # as) = (let (admitted, b') = try_take_at b a in admitted \<and> bucket_admits b' as)"

definition pacer_ok :: "LobbyPacer \<Rightarrow> nat \<Rightarrow> bool" where
  "pacer_ok p now \<longleftrightarrow> lp_tokens p \<le> PACE_BURST \<and> lp_last_refill p \<le> now"

lemma unat_PACE_BURST [simp]: "unat PACE_BURST = 16"
  by (simp add: PACE_BURST_def RATE_BURST_def unat_div_distrib)

lemma u32_try_from_unat: "u32_try_from n = Some k \<Longrightarrow> unat k = n"
  by (auto simp: u32_try_from_def unat_of_nat split: if_splits)

lemma unwrap_or_u32:
  "unat (unwrap_or z (u32_try_from n)) = (if n < 2 ^ 32 then n else unat z)"
  by (simp add: unwrap_or_def u32_try_from_def unat_of_nat)

text \<open>
  A refill either fills the bucket, and the remainder of the interval is dropped, or it adds a token
  for every whole interval.
\<close>

lemma pacer_refill_cases:
  assumes "pacer_ok p t" and "t \<le> now"
  obtains (full) "unat (lp_tokens (pacer_refill p now)) = 16" "lp_last_refill (pacer_refill p now) = now"
      "16 * PACE_REFILL \<le> unat (lp_tokens p) * PACE_REFILL + (now - lp_last_refill p)"
    | (whole) k where "unat (lp_tokens (pacer_refill p now)) = unat (lp_tokens p) + k" "unat (lp_tokens p) + k < 16"
      "lp_last_refill (pacer_refill p now) = lp_last_refill p + PACE_REFILL * k"
      "lp_last_refill (pacer_refill p now) \<le> now" "now < lp_last_refill (pacer_refill p now) + PACE_REFILL"
proof -
  define q where "q = (now - lp_last_refill p) div PACE_REFILL"
  define whole where "whole = unwrap_or (- 1) (u32_try_from q)"
  have R: "0 < PACE_REFILL"
    by (simp add: PACE_REFILL_def RATE_REFILL_def)
  have le: "lp_last_refill p \<le> now"
    using assms by (simp add: pacer_ok_def)
  have w: "unat whole = (if q < 2 ^ 32 then q else 2 ^ 32 - 1)"
    by (simp add: whole_def unwrap_or_u32 unsigned_minus_1_eq_mask mask_eq_exp_minus_1)
  have t: "unat (min (saturating_add (lp_tokens p) whole) PACE_BURST) = min (unat (lp_tokens p) + unat whole) 16"
    by (simp add: min_def word_le_nat_alt unat_saturating_add)
  have q: "PACE_REFILL * q \<le> now - lp_last_refill p" "now - lp_last_refill p < PACE_REFILL * q + PACE_REFILL"
    using R dividend_less_times_div [OF R, of "now - lp_last_refill p"] by (simp_all add: q_def)
  have refill: "pacer_refill p now =
      (if min (saturating_add (lp_tokens p) whole) PACE_BURST = PACE_BURST then \<lparr>lp_tokens = PACE_BURST, lp_last_refill = now\<rparr>
       else \<lparr>lp_tokens = min (saturating_add (lp_tokens p) whole) PACE_BURST,
             lp_last_refill = lp_last_refill p + PACE_REFILL * unat whole\<rparr>)"
    by (simp add: pacer_refill_def whole_def q_def Let_def)
  show thesis
  proof (cases "16 \<le> unat (lp_tokens p) + unat whole")
    case True
    then have "min (saturating_add (lp_tokens p) whole) PACE_BURST = PACE_BURST"
      using t by (simp add: word_unat_eq_iff)
    moreover have "16 \<le> unat (lp_tokens p) + q"
      using True w by (auto split: if_splits)
    then have "16 * PACE_REFILL \<le> (unat (lp_tokens p) + q) * PACE_REFILL"
      by (rule mult_le_mono1)
    then have "16 * PACE_REFILL \<le> unat (lp_tokens p) * PACE_REFILL + (now - lp_last_refill p)"
      using q(1) by (simp add: algebra_simps)
    ultimately show thesis
      using full refill by simp
  next
    case False
    then have "min (saturating_add (lp_tokens p) whole) PACE_BURST \<noteq> PACE_BURST" "unat whole = q"
      using t w by (auto simp: word_unat_eq_iff split: if_splits)
    then show thesis
      using whole [of q] refill t False q le by simp
  qed
qed

text \<open>
  The bound on the writes of any stretch, with time scaled to tokens: \<open>n\<close> writes since the one at
  \<open>start\<close> and the tokens left are covered by the burst and the time since.
\<close>

definition paced :: "nat \<Rightarrow> nat \<Rightarrow> LobbyPacer \<Rightarrow> bool" where
  "paced n start p \<longleftrightarrow>
     (int n + int (unat (lp_tokens p)) - 16) * int PACE_REFILL \<le> int (lp_last_refill p) - int start"

lemma unat_pred: "unat (x - 1) = unat x - 1" if "x \<noteq> 0" for x :: "'a::len word"
  using that by (simp add: unat_minus_one)

lemma pacer_takeD:
  assumes "pacer_try_take p now = (True, p')"
  shows "unat (lp_tokens (pacer_refill p now)) = Suc (unat (lp_tokens p'))"
    and "lp_last_refill p' = lp_last_refill (pacer_refill p now)"
  using assms by (auto simp: pacer_try_take_def Let_def unat_pred unat_gt_0 split: if_splits)

lemma pacer_take_ok:
  assumes "pacer_ok p t" and "t \<le> now" and "pacer_try_take p now = (True, p')"
  shows "pacer_ok p' now"
  using assms(1,2) by (cases rule: pacer_refill_cases) (use pacer_takeD [OF assms(3)] in \<open>auto simp: pacer_ok_def word_le_nat_alt\<close>)

lemma paced_alt: "paced n start p \<longleftrightarrow>
    (int n + int (unat (lp_tokens p))) * int PACE_REFILL + int start \<le> int (lp_last_refill p) + 16 * int PACE_REFILL"
  unfolding paced_def by (auto simp: left_diff_distrib)

lemma pacer_take_first:
  assumes "pacer_ok p t" and "t \<le> now" and "pacer_try_take p now = (True, p')"
  shows "paced 1 now p'"
  using assms(1,2)
proof (cases rule: pacer_refill_cases)
  case full
  then have "int 1 + int (unat (lp_tokens p')) = 16" "lp_last_refill p' = now"
    using pacer_takeD [OF assms(3)] by linarith+
  then show ?thesis
    unfolding paced_alt by (simp only:)
next
  case (whole k)
  have "int 1 + int (unat (lp_tokens p')) \<le> 15"
    using pacer_takeD(1) [OF assms(3)] whole(1,2) by linarith
  then have "(int 1 + int (unat (lp_tokens p'))) * int PACE_REFILL \<le> 15 * int PACE_REFILL"
    by (rule mult_right_mono) simp
  moreover have "int now < int (lp_last_refill p') + int PACE_REFILL"
    using pacer_takeD(2) [OF assms(3)] whole(5) by linarith
  ultimately show ?thesis
    unfolding paced_alt by linarith
qed

lemma pacer_take_next:
  assumes "paced n start p" and "pacer_ok p t" and "t \<le> now" and "pacer_try_take p now = (True, p')"
  shows "paced (Suc n) start p'"
  using assms(2,3)
proof (cases rule: pacer_refill_cases)
  case full
  have "16 * PACE_REFILL + lp_last_refill p \<le> unat (lp_tokens p) * PACE_REFILL + now"
    using full(3) assms(2,3) unfolding pacer_ok_def by linarith
  then have "16 * int PACE_REFILL + int (lp_last_refill p) \<le> int (unat (lp_tokens p)) * int PACE_REFILL + int now"
    by (metis of_nat_add of_nat_le_iff of_nat_mult of_nat_numeral)
  moreover have "(int n + int (unat (lp_tokens p))) * int PACE_REFILL = int n * int PACE_REFILL + int (unat (lp_tokens p)) * int PACE_REFILL"
    by (rule distrib_right)
  moreover have "int (Suc n) + int (unat (lp_tokens p')) = int n + 16" "lp_last_refill p' = now"
    using full pacer_takeD [OF assms(4)] by linarith+
  ultimately show ?thesis
    using assms(1) unfolding paced_alt by (simp only: distrib_right)
next
  case (whole k)
  have "int (Suc n) + int (unat (lp_tokens p')) = int n + int (unat (lp_tokens p)) + int k"
    using whole(1) pacer_takeD(1) [OF assms(4)] by linarith
  moreover have "int (lp_last_refill p') = int (lp_last_refill p) + int k * int PACE_REFILL"
    using whole(3) pacer_takeD(2) [OF assms(4)] by (simp add: mult.commute)
  ultimately show ?thesis
    using assms(1) unfolding paced_alt by (simp only: distrib_right)
qed

lemma paced_write:
  assumes "paced n start p" and "pacer_ok p now"
  shows "(int n - 16) * int PACE_REFILL \<le> int now - int start"
proof -
  have "(int n - 16) * int PACE_REFILL \<le> (int n + int (unat (lp_tokens p)) - 16) * int PACE_REFILL"
    by (intro mult_right_mono) auto
  also have "\<dots> \<le> int (lp_last_refill p) - int start"
    using assms(1) by (simp add: paced_def)
  also have "\<dots> \<le> int now - int start"
    using assms(2) by (simp add: pacer_ok_def)
  finally show ?thesis .
qed

lemma pacer_writes_from:
  assumes "paced n start p" and "pacer_ok p t" and "pacer_writes p ws" and "sorted (t # ws)" and "i < length ws"
  shows "(int (n + Suc i) - 16) * int PACE_REFILL \<le> int (ws ! i) - int start"
  using assms
proof (induction ws arbitrary: p n t i)
  case (Cons w ws)
  obtain p' where take: "pacer_try_take p w = (True, p')" and rest: "pacer_writes p' ws"
    using Cons.prems(3) by (auto split: prod.splits)
  have "t \<le> w" "sorted (w # ws)"
    using Cons.prems(4) by auto
  have ok: "pacer_ok p' w" and next': "paced (Suc n) start p'"
    using pacer_take_ok [OF Cons.prems(2) \<open>t \<le> w\<close> take] pacer_take_next [OF Cons.prems(1,2) \<open>t \<le> w\<close> take] by auto
  show ?case
  proof (cases i)
    case 0
    then show ?thesis
      using paced_write [OF next' ok] by simp
  next
    case (Suc j)
    then show ?thesis
      using Cons.IH [OF next' ok rest \<open>sorted (w # ws)\<close>, of j] Cons.prems(5) by simp
  qed
qed simp

lemma pacer_writes_bound:
  assumes "pacer_ok p t" and "pacer_writes p ws" and "sorted (t # ws)" and "j \<le> i" and "i < length ws"
  shows "(int (Suc i - j) - 16) * int PACE_REFILL \<le> int (ws ! i) - int (ws ! j)"
  using assms
proof (induction ws arbitrary: p t i j)
  case (Cons w ws)
  obtain p' where take: "pacer_try_take p w = (True, p')" and rest: "pacer_writes p' ws"
    using Cons.prems(2) by (auto split: prod.splits)
  have "t \<le> w" "sorted (w # ws)"
    using Cons.prems(3) by auto
  have ok: "pacer_ok p' w" and first: "paced 1 w p'"
    using pacer_take_ok [OF Cons.prems(1) \<open>t \<le> w\<close> take] pacer_take_first [OF Cons.prems(1) \<open>t \<le> w\<close> take] by auto
  show ?case
  proof (cases j)
    case (Suc j')
    then obtain i' where "i = Suc i'"
      using Cons.prems(4) by (cases i) auto
    then show ?thesis
      using Cons.IH [OF ok rest \<open>sorted (w # ws)\<close>, of j' i'] Cons.prems(4,5) Suc by simp
  next
    case 0
    show ?thesis
    proof (cases i)
      case 0
      then show ?thesis
        using \<open>j = 0\<close> by (simp add: PACE_REFILL_def RATE_REFILL_def)
    next
      case (Suc i')
      then show ?thesis
        using pacer_writes_from [OF first ok rest \<open>sorted (w # ws)\<close>, of i'] \<open>j = 0\<close> Cons.prems(5) by simp
    qed
  qed
qed simp

section \<open>The relay admits every paced command\<close>

definition bucket_ok :: "TokenBucket \<Rightarrow> nat \<Rightarrow> bool" where
  "bucket_ok b now \<longleftrightarrow> tb_burst b = RATE_BURST \<and> tb_refill_interval b = RATE_REFILL \<and>
     tb_tokens b \<le> RATE_BURST \<and> tb_last_refill b \<le> now"

lemma unat_RATE_BURST [simp]: "unat RATE_BURST = 32"
  by (simp add: RATE_BURST_def)

lemma rate_intervals: "as_millis elapsed div max (as_millis RATE_REFILL) 1 = elapsed div RATE_REFILL"
  by (simp add: as_millis_def RATE_REFILL_def div_mult2_eq flip: div_mult2_eq)

lemma bucket_refill_cases:
  assumes "bucket_ok b t" and "t \<le> now"
  obtains (capped) "unat (tb_tokens (bucket_refill b now)) = 32" "bucket_ok (bucket_refill b now) now"
    | (whole) k where "unat (tb_tokens (bucket_refill b now)) = unat (tb_tokens b) + k" "bucket_ok (bucket_refill b now) now"
      "tb_last_refill (bucket_refill b now) = tb_last_refill b + RATE_REFILL * k"
      "now < tb_last_refill (bucket_refill b now) + RATE_REFILL" "unat (tb_tokens (bucket_refill b now)) < 32"
proof -
  define q where "q = (now - tb_last_refill b) div RATE_REFILL"
  define n where "n = unwrap_or RATE_BURST (u32_try_from q)"
  have R: "0 < RATE_REFILL"
    by (simp add: RATE_REFILL_def)
  have le: "tb_last_refill b \<le> now"
    using assms by (simp add: bucket_ok_def)
  have n: "unat n = (if q < 2 ^ 32 then q else 32)"
    by (simp add: n_def unwrap_or_u32)
  have q: "RATE_REFILL * q \<le> now - tb_last_refill b" "now - tb_last_refill b < RATE_REFILL * q + RATE_REFILL"
    using R dividend_less_times_div [OF R, of "now - tb_last_refill b"] by (simp_all add: q_def)
  have tok: "unat (tb_tokens b) \<le> 32"
    using assms(1) by (simp add: bucket_ok_def word_le_nat_alt)
  have t: "unat (min (saturating_add (tb_tokens b) n) RATE_BURST) = min (unat (tb_tokens b) + unat n) 32"
    by (simp add: min_def word_le_nat_alt unat_saturating_add)
  have refill: "bucket_refill b now = (if 0 < q then
      b\<lparr>tb_tokens := min (saturating_add (tb_tokens b) n) RATE_BURST,
        tb_last_refill := tb_last_refill b + RATE_REFILL * unat n\<rparr> else b)"
    using assms(1) by (simp add: bucket_refill_def bucket_ok_def rate_intervals [unfolded One_nat_def] n_def q_def Let_def)
  have "RATE_REFILL * unat n \<le> RATE_REFILL * q"
    using n by (intro mult_le_mono2) auto
  then have "tb_last_refill b + RATE_REFILL * unat n \<le> now"
    using q(1) le by linarith
  then have ok: "bucket_ok (bucket_refill b now) now"
    using assms(1) le refill t by (auto simp: bucket_ok_def word_le_nat_alt)
  show thesis
  proof (cases "unat (tb_tokens (bucket_refill b now)) = 32")
    case True
    then show thesis
      using capped ok by simp
  next
    case False
    have "unat (tb_tokens (bucket_refill b now)) = unat (tb_tokens b) + q" "tb_last_refill (bucket_refill b now) = tb_last_refill b + RATE_REFILL * q"
      using False refill t n tok by (auto split: if_splits)
    moreover have "unat (tb_tokens (bucket_refill b now)) \<le> 32"
      using ok by (simp add: bucket_ok_def word_le_nat_alt)
    ultimately show thesis
      using whole [of q] ok False q(2) le by linarith
  qed
qed

text \<open>
  The path delivers the commands in order, each delayed by at least \<open>least\<close> and by at most \<open>jitter\<close> more.
\<close>

definition delivered_by :: "nat \<Rightarrow> nat \<Rightarrow> nat list \<Rightarrow> nat list \<Rightarrow> bool" where
  "delivered_by least jitter ws as \<longleftrightarrow> sorted as \<and> length as = length ws \<and>
     (\<forall>i < length ws. ws ! i + least \<le> as ! i \<and> as ! i \<le> ws ! i + least + jitter)"

definition metered :: "nat list \<Rightarrow> nat \<Rightarrow> TokenBucket \<Rightarrow> bool" where
  "metered as i b \<longleftrightarrow> unat (tb_tokens b) = 32 \<or>
     (\<exists>j < i. int (tb_last_refill b) + 32 * int RATE_REFILL \<le> int (as ! j) + (int (unat (tb_tokens b)) + int (i - j)) * int RATE_REFILL)"

lemma metered_take:
  assumes "metered as i b" and "bucket_ok b t" and "t \<le> as ! i" and "0 < unat (tb_tokens (bucket_refill b (as ! i)))"
  shows "fst (try_take_at b (as ! i))" and "bucket_ok (snd (try_take_at b (as ! i))) (as ! i)"
    and "metered as (Suc i) (snd (try_take_at b (as ! i)))"
proof -
  let ?b = "bucket_refill b (as ! i)" and ?t = "snd (try_take_at b (as ! i))"
  have nz: "tb_tokens ?b \<noteq> 0"
    using assms(4) by auto
  then have take: "try_take_at b (as ! i) = (True, ?b\<lparr>tb_tokens := tb_tokens ?b - 1\<rparr>)"
    by (simp add: try_take_at_def Let_def)
  then have fields: "unat (tb_tokens ?b) = Suc (unat (tb_tokens ?t))" "tb_last_refill ?t = tb_last_refill ?b"
    using assms(4) nz by (simp_all add: unat_pred)
  have ok: "bucket_ok ?b (as ! i)"
    using assms(2,3) by (cases rule: bucket_refill_cases) auto
  show "fst (try_take_at b (as ! i))"
    using take by simp
  show "bucket_ok ?t (as ! i)"
    using ok take nz by (auto simp: bucket_ok_def word_le_nat_alt unat_pred)
  show "metered as (Suc i) ?t"
    using assms(2,3)
  proof (cases rule: bucket_refill_cases)
    case capped
    have "int (unat (tb_tokens ?t)) + int (Suc i - i) = 32"
      using capped(1) fields(1) by linarith
    moreover have "int (tb_last_refill ?t) \<le> int (as ! i)"
      using ok fields(2) by (simp add: bucket_ok_def)
    ultimately show ?thesis
      unfolding metered_def by (intro disjI2 exI [of _ i]) simp
  next
    case (whole k)
    have "unat (tb_tokens b) \<noteq> 32"
      using whole(1,5) by linarith
    then obtain j where j: "j < i"
        "int (tb_last_refill b) + 32 * int RATE_REFILL \<le> int (as ! j) + (int (unat (tb_tokens b)) + int (i - j)) * int RATE_REFILL"
      using assms(1) by (auto simp: metered_def)
    have "int (unat (tb_tokens ?t)) + int (Suc i - j) = int (unat (tb_tokens b)) + int (i - j) + int k"
      using whole(1) fields(1) j(1) by linarith
    moreover have "int (tb_last_refill ?t) = int (tb_last_refill b) + int k * int RATE_REFILL"
      using whole(3) fields(2) by (simp add: mult.commute)
    ultimately show ?thesis
      unfolding metered_def using j by (intro disjI2 exI [of _ j]) (simp only: distrib_right, linarith)
  qed
qed

lemma metered_not_empty:
  assumes "metered as i b" and "bucket_ok b t" and "t \<le> as ! i" and "i < length ws"
    and "delivered_by least jitter ws as" and "jitter \<le> 16 * PACE_REFILL"
    and bound: "\<And>j. j < i \<Longrightarrow> (int (Suc i - j) - 16) * int PACE_REFILL \<le> int (ws ! i) - int (ws ! j)"
  shows "0 < unat (tb_tokens (bucket_refill b (as ! i)))"
proof (rule ccontr)
  assume "\<not> 0 < unat (tb_tokens (bucket_refill b (as ! i)))"
  then have zero: "unat (tb_tokens (bucket_refill b (as ! i))) = 0"
    by simp
  show False
    using assms(2,3)
  proof (cases rule: bucket_refill_cases)
    case (whole k)
    then have empty: "unat (tb_tokens b) = 0" "k = 0"
      using zero by linarith+
    then obtain j where j: "j < i" "int (tb_last_refill b) + 32 * int RATE_REFILL \<le> int (as ! j) + int (i - j) * int RATE_REFILL"
      using assms(1) by (auto simp: metered_def)
    have "int (as ! i) < int (tb_last_refill b) + int RATE_REFILL"
      using whole(3,4) empty(2) by simp
    moreover have "int (ws ! i) + int least \<le> int (as ! i)" "int (as ! j) \<le> int (ws ! j) + int least + int jitter"
      using assms(4,5) j(1) unfolding delivered_by_def by (metis of_nat_add of_nat_le_iff, metis dual_order.strict_trans of_nat_add of_nat_le_iff)
    moreover have "int (as ! j) \<le> int (as ! i)"
      using assms(4,5) j(1) by (auto simp: delivered_by_def intro: sorted_nth_mono)
    moreover have "(int (Suc i - j) - 16) * int PACE_REFILL \<le> int (ws ! i) - int (ws ! j)"
      by (rule bound [OF j(1)])
    moreover have "int jitter \<le> 16 * int PACE_REFILL"
      using assms(6) by linarith
    moreover have "int (Suc i - j) = int (i - j) + 1"
      using j(1) by simp
    ultimately show False
      using j(2) unfolding PACE_REFILL_def RATE_REFILL_def by simp
  qed (use zero in simp)
qed

lemma bucket_admits_from:
  assumes "delivered_by least jitter ws as" and "jitter \<le> 16 * PACE_REFILL"
    and "\<And>i j. j \<le> i \<Longrightarrow> i < length ws \<Longrightarrow> (int (Suc i - j) - 16) * int PACE_REFILL \<le> int (ws ! i) - int (ws ! j)"
    and "metered as i b" and "bucket_ok b t" and "i < length as \<Longrightarrow> t \<le> as ! i"
  shows "bucket_admits b (drop i as)"
  using assms(4-)
proof (induction "length as - i" arbitrary: i b t)
  case (Suc n)
  then have i: "i < length as" "i < length ws" "t \<le> as ! i"
    using assms(1) by (auto simp: delivered_by_def)
  have pos: "0 < unat (tb_tokens (bucket_refill b (as ! i)))"
    using metered_not_empty [OF Suc.prems(1,2) i(3,2) assms(1,2)] assms(3) i(2) by simp
  note take = metered_take [OF Suc.prems(1,2) i(3) pos]
  have "Suc i < length as \<Longrightarrow> as ! i \<le> as ! Suc i"
    using assms(1) by (auto simp: delivered_by_def intro: sorted_nth_mono)
  then have "bucket_admits (snd (try_take_at b (as ! i))) (drop (Suc i) as)"
    using Suc.hyps(1) [of "Suc i"] Suc.hyps(2) take(2,3) by simp
  moreover have "drop i as = as ! i # drop (Suc i) as"
    using i(1) by (simp add: Cons_nth_drop_Suc)
  ultimately show ?case
    using take(1) by (simp add: case_prod_beta)
qed simp

text \<open>C13: A client that paces its lobby commands is never rate-limited.  Its pacer, created at \<open>t\<close>,
  let the writes at the times \<open>ws\<close> go out; the path delivers them in order, holding any of them back by
  up to 6.4 seconds more than another.  Then the relay's bucket for this author, created full at or
  before the first arrival, admits every one of them: half the burst at half the rate leaves exactly that
  much room.\<close>
theorem paced_commands_admitted:
  assumes "pacer_writes (LobbyPacer_new t) ws" and "sorted (t # ws)"
    and "delivered_by least jitter ws as" and "jitter \<le> 6400 * 1000000" and "\<forall>a \<in> set as. created \<le> a"
  shows "bucket_admits (TokenBucket_new_at RATE_BURST RATE_REFILL created) as"
proof -
  have "pacer_ok (LobbyPacer_new t) t"
    by (simp add: pacer_ok_def LobbyPacer_new_def)
  note bound = pacer_writes_bound [OF this assms(1,2)]
  have "jitter \<le> 16 * PACE_REFILL"
    using assms(4) by (simp add: PACE_REFILL_def RATE_REFILL_def)
  moreover have "metered as 0 (TokenBucket_new_at RATE_BURST RATE_REFILL created)"
    by (simp add: metered_def TokenBucket_new_at_def)
  moreover have "bucket_ok (TokenBucket_new_at RATE_BURST RATE_REFILL created) created"
    by (simp add: bucket_ok_def TokenBucket_new_at_def)
  moreover have "0 < length as \<Longrightarrow> created \<le> as ! 0"
    using assms(5) by simp
  ultimately have "bucket_admits (TokenBucket_new_at RATE_BURST RATE_REFILL created) (drop 0 as)"
    using bound by (intro bucket_admits_from [OF assms(3)]) auto
  then show ?thesis
    by simp
qed

theorem paced_commands_admitted_witness:
  "bucket_admits (TokenBucket_new_at RATE_BURST RATE_REFILL 400001000) [400001000, 400001000, 400001000]"
  by (rule paced_commands_admitted [where t = 0 and ws = "[0, 0, 400000000]" and least = 1000 and jitter = "6400 * 1000000"])
    (simp_all add: pacer_try_take_def pacer_refill_def LobbyPacer_new_def PACE_BURST_def RATE_BURST_def PACE_REFILL_def
      RATE_REFILL_def unwrap_or_def u32_try_from_def delivered_by_def saturating_add_def Let_def min_def
      word_le_nat_alt word_less_nat_alt less_Suc_eq numeral_3_eq_3)

text \<open>
  Past \<open>2 ^ 32\<close> elapsed intervals the refill instant moves on by only as many intervals as the burst, so
  the same instant refills the bucket again: one of burst 1 admits two commands at once.
\<close>

lemma bucket_refills_again:
  "bucket_admits (TokenBucket_new_at 1 RATE_REFILL 0) [RATE_REFILL * 2 ^ 32, RATE_REFILL * 2 ^ 32]"
  by (simp add: try_take_at_def bucket_refill_def TokenBucket_new_at_def RATE_REFILL_def as_millis_def unwrap_or_def
      u32_try_from_def saturating_add_def Let_def min_def word_le_nat_alt)

section \<open>Every authored command is retained under its own number\<close>

definition outbox_wf :: "LobbyOutbox \<Rightarrow> bool" where
  "outbox_wf ob \<longleftrightarrow> length (lo_commands ob) \<le> LOG_MAX_COMMANDS \<and> lo_bytes ob \<le> LOG_MAX_BYTES \<and>
     lo_bytes ob = sum_list (map (\<lambda>c. length (lc_payload c)) (lo_commands ob)) \<and>
     (\<forall>i < length (lo_commands ob). lc_seq (lo_commands ob ! i) = Some (of_nat i))"

lemma outbox_author_wf:
  assumes "outbox_wf ob"
  shows "outbox_wf (snd (outbox_author ob bytes))"
  using assms
  by (auto simp: outbox_wf_def outbox_author_def usize_saturating_add_def LOG_MAX_BYTES_def usize_max_def nth_append
      less_Suc_eq)

lemma outbox_seqs_distinct:
  assumes "outbox_wf ob"
  shows "distinct (map lc_seq (lo_commands ob))"
proof -
  have "(of_nat i :: u64) \<noteq> of_nat j" if "i < 1024" "j < 1024" "i \<noteq> j" for i j
    using that by (simp add: word_unat_eq_iff unat_of_nat)
  then show ?thesis
    using assms by (auto simp: outbox_wf_def distinct_conv_nth LOG_MAX_COMMANDS_def)
qed

end
