(* ===== verification/SyncTracker.thy ===== *)
theory SyncTracker
  imports OrderedMap
begin

text \<open>
  The desync comparator of \<open>relay/src/consensus/sync/mod.rs\<close> and \<open>tracker.rs\<close>: it collects every slot's
  checksum of a simulation step (an ordinal), compares them once the step is old enough and complete, and
  names the minority.  The occurrence counter of \<open>relay/src/rate_limit.rs\<close> throttles its log lines.

  A \<open>HashMap\<close> is a partial map.  Its traversal order is the argument \<open>order\<close>, which lists a set of keys;
  \<open>iter_map\<close> is the traversal.  The map of value groups, traversed only to find the one group that is a
  strict majority, lists its groups by first appearance.  The debug assertion of \<open>sync_eval_margin\<close> is left
  out, as in a release build.
\<close>

section \<open>Constants and state\<close>

type_synonym key_order = "SlotId set \<Rightarrow> SlotId list"

definition iter_map :: "key_order \<Rightarrow> (SlotId \<rightharpoonup> 'v) \<Rightarrow> (SlotId \<times> 'v) list" where
  "iter_map order m = List.map_filter (\<lambda>s. map_option (Pair s) (m s)) (order (dom m))"

definition iter_max :: "'a::linorder list \<Rightarrow> 'a option" where
  "iter_max xs = (case xs of [] \<Rightarrow> None | x # ys \<Rightarrow> Some (fold max ys x))"

definition RateLimitedCounter_observe :: "u64 \<Rightarrow> bool \<times> u64" where
  "RateLimitedCounter_observe c = (let c' = c + 1 in (c' = 1 \<or> (c' \<noteq> 0 \<and> and c' (c' - 1) = 0), c'))"

abbreviation observed :: "u64 \<Rightarrow> u64" where
  "observed c \<equiv> snd (RateLimitedCounter_observe c)"

definition SYNC_KIND_UNITS :: u8 where
  "SYNC_KIND_UNITS = 1"

definition SYNC_KIND_HEADER :: u8 where
  "SYNC_KIND_HEADER = 2"

definition SYNC_RING_MODULUS :: u64 where
  "SYNC_RING_MODULUS = 16"

definition SYNC_EVAL_MARGIN_MIN :: u64 where
  "SYNC_EVAL_MARGIN_MIN = 8"

definition SYNC_WINDOW :: nat where
  "SYNC_WINDOW = 64"

definition SYNC_ABSURD_BUFFER_MAX :: u32 where
  "SYNC_ABSURD_BUFFER_MAX = of_nat (SYNC_WINDOW div 2)"

definition sync_eval_margin :: "u32 \<Rightarrow> u64" where
  "sync_eval_margin bounds_max = max (ucast bounds_max + 2) SYNC_EVAL_MARGIN_MIN"

datatype SyncValue = SyncValue u8 u8

record SyncDivergence =
  sd_sync_ordinal :: u64
  sd_game_frame :: "u32 option"
  sd_no_majority :: bool
  sd_diverged :: "SlotId list"
  sd_missing :: "SlotId list"

record SyncReport =
  sr_value :: SyncValue
  sr_kind :: u8
  sr_game_frame :: "u32 option"

datatype SyncObservation = Report SyncReport | Skipped

record Member =
  mb_next_expected :: u64
  mb_since :: u64

record SyncGap =
  sg_first :: u64
  sg_end :: u64

record SyncTracker =
  sy_dormant :: bool
  sy_initialized :: bool
  sy_base_ordinal :: u64
  sy_members :: "SlotId \<rightharpoonup> Member"
  sy_pending :: "(u64 \<times> (SlotId \<rightharpoonup> SyncObservation)) list"
  sy_excluded :: "SlotId set"
  sy_duplicate_warns :: u64
  sy_malformed_kind_warns :: u64
  sy_kind_parity_warns :: u64
  sy_evict_warns :: u64
  sy_multi_sync_warns :: u64

definition SyncTracker_default :: SyncTracker where
  "SyncTracker_default =
     \<lparr>sy_dormant = False, sy_initialized = False, sy_base_ordinal = 0, sy_members = Map.empty, sy_pending = [],
      sy_excluded = {}, sy_duplicate_warns = 0, sy_malformed_kind_warns = 0, sy_kind_parity_warns = 0,
      sy_evict_warns = 0, sy_multi_sync_warns = 0\<rparr>"

definition expected_kind_for_ordinal :: "u64 \<Rightarrow> u8" where
  "expected_kind_for_ordinal ordinal = (if ordinal mod 2 = 0 then SYNC_KIND_UNITS else SYNC_KIND_HEADER)"

section \<open>Comparing one ordinal\<close>

record Scan =
  sc_comparable :: nat
  sc_agreed :: "SyncValue option"
  sc_diverges :: bool
  sc_parity_warns :: u64

fun scan_reports :: "u8 \<Rightarrow> (SlotId \<times> SyncObservation) list \<Rightarrow> Scan \<Rightarrow> Scan" where
  "scan_reports kind [] sc = sc"
| "scan_reports kind ((slot, Skipped) # obs) sc = scan_reports kind obs sc"
| "scan_reports kind ((slot, Report r) # obs) sc =
     (if sr_kind r \<noteq> kind
      then scan_reports kind obs (sc\<lparr>sc_parity_warns := observed (sc_parity_warns sc)\<rparr>)
      else
        let sc' = sc\<lparr>sc_comparable := sc_comparable sc + 1\<rparr>
        in scan_reports kind obs
             (case sc_agreed sc of
                None \<Rightarrow> sc'\<lparr>sc_agreed := Some (sr_value r)\<rparr>
              | Some v \<Rightarrow> if v = sr_value r then sc' else sc'\<lparr>sc_diverges := True\<rparr>))"

fun group_push :: "'v \<Rightarrow> SlotId \<Rightarrow> ('v \<times> SlotId list) list \<Rightarrow> ('v \<times> SlotId list) list" where
  "group_push v slot [] = [(v, [slot])]"
| "group_push v slot ((w, slots) # gs) =
     (if w = v then (w, slots @ [slot]) # gs else (w, slots) # group_push v slot gs)"

fun group_reports :: "u8 \<Rightarrow> (SlotId \<times> SyncObservation) list \<Rightarrow> (SyncValue \<times> SlotId list) list \<Rightarrow>
    (SyncValue \<times> SlotId list) list" where
  "group_reports kind [] gs = gs"
| "group_reports kind ((slot, Skipped) # obs) gs = group_reports kind obs gs"
| "group_reports kind ((slot, Report r) # obs) gs =
     group_reports kind obs (if sr_kind r = kind then group_push (sr_value r) slot gs else gs)"

definition remove_member :: "SyncTracker \<Rightarrow> SlotId \<Rightarrow> SyncTracker" where
  "remove_member st slot =
     st\<lparr>sy_members := (sy_members st)(slot := None),
        sy_pending := map (\<lambda>(o', reports). (o', reports(slot := None))) (sy_pending st)\<rparr>"

definition exclude_member :: "SyncTracker \<Rightarrow> SlotId \<Rightarrow> SyncTracker" where
  "exclude_member st slot = remove_member (st\<lparr>sy_excluded := insert slot (sy_excluded st)\<rparr>) slot"

definition observation_frame :: "SyncObservation \<Rightarrow> u32 option" where
  "observation_frame ob = (case ob of Report r \<Rightarrow> sr_game_frame r | Skipped \<Rightarrow> None)"

definition evaluate :: "key_order \<Rightarrow> SyncTracker \<Rightarrow> u64 \<Rightarrow> (SlotId \<rightharpoonup> SyncObservation) \<Rightarrow>
    SyncDivergence option \<times> SyncTracker" where
  "evaluate order st ordinal observations =
     (let kind = expected_kind_for_ordinal ordinal;
          obs = iter_map order observations;
          sc = scan_reports kind obs \<lparr>sc_comparable = 0, sc_agreed = None, sc_diverges = False,
                                       sc_parity_warns = sy_kind_parity_warns st\<rparr>;
          st1 = st\<lparr>sy_kind_parity_warns := sc_parity_warns sc\<rparr>
      in if \<not> sc_diverges sc then (None, st1)
         else
           let groups = group_reports kind obs [];
               game_frame = iter_max (List.map_filter (\<lambda>(_, ob). observation_frame ob) obs)
           in case find (\<lambda>(_, slots). sc_comparable sc < length slots * 2) groups of
                Some (_, majority) \<Rightarrow>
                  let diverged = sort (filter (\<lambda>s. s \<notin> set majority) (concat (map snd groups)));
                      st2 = foldl exclude_member st1 diverged;
                      st3 = (if card (dom (sy_members st2)) < 2 then st2\<lparr>sy_dormant := True\<rparr> else st2)
                  in (Some \<lparr>sd_sync_ordinal = ordinal, sd_game_frame = game_frame, sd_no_majority = False,
                            sd_diverged = diverged, sd_missing = []\<rparr>, st3)
              | None \<Rightarrow>
                  (Some \<lparr>sd_sync_ordinal = ordinal, sd_game_frame = game_frame, sd_no_majority = True,
                         sd_diverged = [], sd_missing = []\<rparr>, st1\<lparr>sy_dormant := True\<rparr>))"

section \<open>Draining the ready ordinals\<close>

definition reports_at :: "SyncTracker \<Rightarrow> u64 \<Rightarrow> SlotId \<rightharpoonup> SyncObservation" where
  "reports_at st ordinal = (case map_of (sy_pending st) ordinal of None \<Rightarrow> Map.empty | Some m \<Rightarrow> m)"

definition frontier :: "key_order \<Rightarrow> SyncTracker \<Rightarrow> u64 option" where
  "frontier order st = iter_max (map (mb_next_expected \<circ> snd) (iter_map order (sy_members st)))"

definition any_required :: "key_order \<Rightarrow> SyncTracker \<Rightarrow> bool" where
  "any_required order st \<longleftrightarrow>
     list_ex (\<lambda>(_, m). mb_since m \<le> sy_base_ordinal st) (iter_map order (sy_members st))"

definition complete :: "key_order \<Rightarrow> SyncTracker \<Rightarrow> bool" where
  "complete order st \<longleftrightarrow>
     list_all (\<lambda>(slot, m). mb_since m \<le> sy_base_ordinal st \<longrightarrow> reports_at st (sy_base_ordinal st) slot \<noteq> None)
       (iter_map order (sy_members st))"

definition retire_base :: "SyncTracker \<Rightarrow> SyncTracker" where
  "retire_base st =
     st\<lparr>sy_pending := bm_remove (sy_base_ordinal st) (sy_pending st),
        sy_base_ordinal := saturating_add (sy_base_ordinal st) 1\<rparr>"

lemma set_iter_map_subset: "set (iter_map order m) \<subseteq> {(s, v). m s = Some v}"
  by (auto simp: iter_map_def List.map_filter_def)

lemma exclude_member_frame [simp]:
  "sy_base_ordinal (exclude_member st slot) = sy_base_ordinal st"
  "map fst (sy_pending (exclude_member st slot)) = map fst (sy_pending st)"
  by (simp_all add: exclude_member_def remove_member_def comp_def case_prod_beta)

lemma exclude_members_frame [simp]:
  "sy_base_ordinal (foldl exclude_member st slots) = sy_base_ordinal st"
  "map fst (sy_pending (foldl exclude_member st slots)) = map fst (sy_pending st)"
  by (induction slots arbitrary: st) simp_all

lemma evaluate_frame:
  assumes "evaluate order st ordinal observations = (d, st')"
  shows "sy_base_ordinal st' = sy_base_ordinal st" "map fst (sy_pending st') = map fst (sy_pending st)"
  using assms by (auto simp: evaluate_def Let_def split: if_splits option.splits)

definition drain_measure :: "SyncTracker \<Rightarrow> nat" where
  "drain_measure st =
     2 * (2 ^ 64 - unat (sy_base_ordinal st)) + (if - 1 \<in> set (map fst (sy_pending st)) then 1 else 0)"

lemma drain_measure_cong:
  "sy_base_ordinal st' = sy_base_ordinal st \<Longrightarrow> map fst (sy_pending st') = map fst (sy_pending st) \<Longrightarrow>
   drain_measure st' = drain_measure st"
  by (simp add: drain_measure_def del: set_map)

lemma retire_base_measure:
  assumes "sy_base_ordinal st = - 1 \<Longrightarrow> - 1 \<in> set (map fst (sy_pending st))"
  shows "drain_measure (retire_base st) < drain_measure st"
proof (cases "sy_base_ordinal st = - 1")
  case True
  moreover from this have "saturating_add (sy_base_ordinal st) 1 = - 1"
    by (simp add: saturating_add_def)
  moreover have "- 1 \<notin> fst ` set (bm_remove (- 1) (sy_pending st))"
    by (auto simp: bm_remove_def)
  ultimately show ?thesis
    using assms by (simp add: drain_measure_def retire_base_def)
next
  case False
  then have "unat (sy_base_ordinal st) + 1 < 2 ^ 64"
    using unat_not_max(1) [of "sy_base_ordinal st"] by simp
  moreover from this have "unat (saturating_add (sy_base_ordinal st) 1) = unat (sy_base_ordinal st) + 1"
    by (simp add: unat_saturating_add)
  ultimately show ?thesis
    by (auto simp: drain_measure_def retire_base_def bm_remove_def)
qed

lemma required_at_end:
  "sy_base_ordinal st = - 1 \<Longrightarrow> frontier order st = Some f \<Longrightarrow> any_required order st"
  by (cases "iter_map order (sy_members st)")
    (auto simp: frontier_def any_required_def iter_max_def word_order.extremum)

lemma complete_pending:
  assumes "any_required order st" "complete order st"
  shows "sy_base_ordinal st \<in> set (map fst (sy_pending st))"
proof -
  obtain slot m where "(slot, m) \<in> set (iter_map order (sy_members st))" "mb_since m \<le> sy_base_ordinal st"
    using assms(1) by (auto simp: any_required_def list_ex_iff)
  with assms(2) have "reports_at st (sy_base_ordinal st) slot \<noteq> None"
    by (auto simp: complete_def list_all_iff)
  then show ?thesis
    by (force simp: reports_at_def split: option.splits dest: map_of_SomeD)
qed

function evaluate_ready :: "key_order \<Rightarrow> u64 \<Rightarrow> SyncTracker \<Rightarrow> SyncDivergence option \<times> SyncTracker" where
  "evaluate_ready order margin st =
     (case frontier order st of
        None \<Rightarrow> (None, st)
      | Some f \<Rightarrow>
          if saturating_sub f (sy_base_ordinal st) < margin then (None, st)
          else if \<not> any_required order st then evaluate_ready order margin (retire_base st)
          else if \<not> complete order st then (None, st)
          else
            (case evaluate order (retire_base st) (sy_base_ordinal st) (reports_at st (sy_base_ordinal st)) of
               (Some divergence, st') \<Rightarrow> (Some divergence, st')
             | (None, st') \<Rightarrow> evaluate_ready order margin st'))"
  by pat_completeness auto
termination
proof (relation "measure (\<lambda>(_, _, st). drain_measure st)", goal_cases)
  case (2 order margin st f)
  then show ?case
    using required_at_end by (auto intro!: retire_base_measure)
next
  case (3 order margin st f x st')
  then have "drain_measure st' = drain_measure (retire_base st)"
    by (metis drain_measure_cong evaluate_frame)
  moreover have "drain_measure (retire_base st) < drain_measure st"
    using 3 complete_pending [of order st] by (intro retire_base_measure) auto
  ultimately show ?case
    by simp
qed simp

declare evaluate_ready.simps [simp del]

section \<open>Recording a report\<close>

definition observe_pending :: "SyncTracker \<Rightarrow> u64 \<Rightarrow> SlotId \<Rightarrow> SyncObservation \<Rightarrow> SyncTracker" where
  "observe_pending st ordinal slot ob =
     st\<lparr>sy_pending := bm_insert ordinal ((reports_at st ordinal)(slot \<mapsto> ob)) (sy_pending st)\<rparr>"

function record_skipped :: "SlotId \<Rightarrow> u64 \<Rightarrow> u64 \<Rightarrow> u64 \<Rightarrow> SyncTracker \<Rightarrow> SyncTracker" where
  "record_skipped slot since ordinal gap_end st =
     (if ordinal < gap_end then
        record_skipped slot since (ordinal + 1) gap_end
          (if ordinal < since then st
           else observe_pending st ordinal slot
                  (case reports_at st ordinal slot of None \<Rightarrow> Skipped | Some ob \<Rightarrow> ob))
      else st)"
  by pat_completeness auto
termination
proof (relation "measure (\<lambda>(_, _, ordinal, gap_end, _). unat gap_end - unat ordinal)", goal_cases)
  case (2 slot since ordinal gap_end st)
  then have "unat (ordinal + 1) = unat ordinal + 1"
    using unat_less [of gap_end] by (simp add: word_less_nat_alt unat_add_lem [THEN iffD1])
  with 2 show ?case
    by (simp add: word_less_nat_alt)
qed simp

declare record_skipped.simps [simp del]

function evict_over_window :: "SyncTracker \<Rightarrow> SyncTracker" where
  "evict_over_window st =
     (if SYNC_WINDOW < length (sy_pending st) then
        let ordinal = fst (hd (sy_pending st));
            st' = st\<lparr>sy_pending := tl (sy_pending st), sy_evict_warns := observed (sy_evict_warns st)\<rparr>
        in evict_over_window
             (if sy_base_ordinal st \<le> ordinal then st'\<lparr>sy_base_ordinal := saturating_add ordinal 1\<rparr> else st')
      else st)"
  by pat_completeness auto
termination
  by (relation "measure (\<lambda>st. length (sy_pending st))") auto

declare evict_over_window.simps [simp del]

definition disable_for_absurd_bounds :: "SyncTracker \<Rightarrow> SyncTracker" where
  "disable_for_absurd_bounds st = st\<lparr>sy_dormant := True\<rparr>"

definition store_report :: "SyncTracker \<Rightarrow> u64 \<Rightarrow> SlotId \<Rightarrow> SyncReport \<Rightarrow> SyncTracker" where
  "store_report st ordinal slot r =
     (case reports_at st ordinal slot of
        None \<Rightarrow> observe_pending st ordinal slot (Report r)
      | Some ob \<Rightarrow>
          let st' = observe_pending st ordinal slot ob
          in case ob of
               Report existing \<Rightarrow>
                 if sr_value existing \<noteq> sr_value r
                 then st'\<lparr>sy_duplicate_warns := observed (sy_duplicate_warns st')\<rparr> else st'
             | Skipped \<Rightarrow> st'\<lparr>sy_duplicate_warns := observed (sy_duplicate_warns st')\<rparr>)"

definition note_member :: "SyncTracker \<Rightarrow> SlotId \<Rightarrow> u64 \<Rightarrow> SyncTracker" where
  "note_member st slot ordinal =
     (let next_expected = saturating_add ordinal 1;
          member = (case sy_members st slot of
                      None \<Rightarrow> \<lparr>mb_next_expected = next_expected, mb_since = ordinal\<rparr>
                    | Some m \<Rightarrow> m)
      in st\<lparr>sy_members := (sy_members st)
             (slot \<mapsto> member\<lparr>mb_next_expected := max (mb_next_expected member) next_expected\<rparr>)\<rparr>)"

definition SyncTracker_record ::
    "key_order \<Rightarrow> SyncTracker \<Rightarrow> SlotId \<Rightarrow> u64 \<Rightarrow> SyncReport \<Rightarrow> SyncGap option \<Rightarrow> u64 \<Rightarrow> SyncDivergence option \<times> SyncTracker" where
  "SyncTracker_record order st slot ordinal r skipped margin =
     (if slot \<in> sy_excluded st then (None, st)
      else if sr_kind r \<noteq> SYNC_KIND_UNITS \<and> sr_kind r \<noteq> SYNC_KIND_HEADER
      then (None, st\<lparr>sy_malformed_kind_warns := observed (sy_malformed_kind_warns st)\<rparr>)
      else
        let st1 = (if sy_initialized st then st else st\<lparr>sy_initialized := True, sy_base_ordinal := ordinal\<rparr>);
            st2 = note_member st1 slot ordinal
        in if ordinal < sy_base_ordinal st2 then (None, st2)
           else
             let st3 = (case skipped of
                          None \<Rightarrow> st2
                        | Some gap \<Rightarrow> record_skipped slot (mb_since (the (sy_members st2 slot)))
                                        (max (sg_first gap) (sy_base_ordinal st2)) (sg_end gap) st2);
                 st4 = store_report st3 ordinal slot r
             in (case evaluate_ready order margin st4 of
                   (Some divergence, st5) \<Rightarrow> (Some divergence, st5)
                 | (None, st5) \<Rightarrow> (None, evict_over_window st5)))"

section \<open>What one comparison decides\<close>

definition ok_order :: "key_order \<Rightarrow> bool" where
  "ok_order order \<longleftrightarrow> (\<forall>S. distinct (order S) \<and> set (order S) = S)"

definition voters :: "u64 \<Rightarrow> (SlotId \<rightharpoonup> SyncObservation) \<Rightarrow> SyncValue \<Rightarrow> SlotId set" where
  "voters ordinal m v =
     {s. \<exists>r. m s = Some (Report r) \<and> sr_kind r = expected_kind_for_ordinal ordinal \<and> sr_value r = v}"

definition comparable :: "u64 \<Rightarrow> (SlotId \<rightharpoonup> SyncObservation) \<Rightarrow> SlotId set" where
  "comparable ordinal m = (\<Union>v. voters ordinal m v)"

definition unanimous :: "u64 \<Rightarrow> (SlotId \<rightharpoonup> SyncObservation) \<Rightarrow> bool" where
  "unanimous ordinal m \<longleftrightarrow> (\<exists>v. comparable ordinal m \<subseteq> voters ordinal m v)"

definition verdict_ok :: "u64 \<Rightarrow> (SlotId \<rightharpoonup> SyncObservation) \<Rightarrow> SyncDivergence option \<Rightarrow> bool" where
  "verdict_ok ordinal m d =
     (case d of
        None \<Rightarrow> unanimous ordinal m
      | Some d \<Rightarrow>
          \<not> unanimous ordinal m \<and> sd_sync_ordinal d = ordinal \<and> sd_missing d = [] \<and>
          (if sd_no_majority d
           then sd_diverged d = [] \<and> (\<forall>v. card (voters ordinal m v) * 2 \<le> card (comparable ordinal m))
           else \<exists>v. card (comparable ordinal m) < card (voters ordinal m v) * 2 \<and>
                    sd_diverged d = sorted_list_of_set (comparable ordinal m - voters ordinal m v)))"

fun votes :: "u8 \<Rightarrow> (SlotId \<times> SyncObservation) list \<Rightarrow> (SlotId \<times> SyncValue) list" where
  "votes kind [] = []"
| "votes kind ((slot, Skipped) # obs) = votes kind obs"
| "votes kind ((slot, Report r) # obs) =
     (if sr_kind r = kind then (slot, sr_value r) # votes kind obs else votes kind obs)"

lemma votes_iff: "(s, v) \<in> set (votes kind obs) \<longleftrightarrow>
    (\<exists>r. (s, Report r) \<in> set obs \<and> sr_kind r = kind \<and> sr_value r = v)"
  by (induction kind obs rule: votes.induct) auto

lemma distinct_votes: "distinct (map fst obs) \<Longrightarrow> distinct (map fst (votes kind obs))"
proof (induction kind obs rule: votes.induct)
  case (3 kind slot r obs)
  then show ?case
    by (auto simp: votes_iff) force
qed auto

lemma scan_comparable:
  "sc_comparable (scan_reports kind obs sc) = sc_comparable sc + length (votes kind obs)"
  by (induction kind obs sc rule: scan_reports.induct) (auto simp: Let_def split: option.splits)

lemma scan_diverges:
  "sc_diverges (scan_reports kind obs sc) \<longleftrightarrow>
     sc_diverges sc \<or>
     (case sc_agreed sc of
        Some v \<Rightarrow> \<exists>x \<in> set (votes kind obs). snd x \<noteq> v
      | None \<Rightarrow> \<exists>x \<in> set (votes kind obs). snd x \<noteq> snd (hd (votes kind obs)))"
  by (induction kind obs sc rule: scan_reports.induct) (auto simp: Let_def split: option.splits)

definition group_of :: "(SlotId \<times> 'v) list \<Rightarrow> 'v \<Rightarrow> SlotId list" where
  "group_of vs v = map fst (filter (\<lambda>x. snd x = v) vs)"

lemma map_of_group_push:
  "map_of (group_push w slot gs) = (map_of gs)(w \<mapsto> (case map_of gs w of None \<Rightarrow> [] | Some l \<Rightarrow> l) @ [slot])"
  by (induction w slot gs rule: group_push.induct) (auto simp: fun_eq_iff)

lemma keys_group_push: "fst ` set (group_push w slot gs) = insert w (fst ` set gs)"
  by (induction w slot gs rule: group_push.induct) auto

lemma distinct_group_push: "distinct (map fst gs) \<Longrightarrow> distinct (map fst (group_push w slot gs))"
  by (induction w slot gs rule: group_push.induct) (auto simp: keys_group_push)

lemma group_reports_foldl:
  "group_reports kind obs gs = foldl (\<lambda>gs x. group_push (snd x) (fst x) gs) gs (votes kind obs)"
  by (induction kind obs gs rule: group_reports.induct) auto

lemma groups_map_of:
  "map_of (foldl (\<lambda>gs x. group_push (snd x) (fst x) gs) [] vs) =
     (\<lambda>v. if v \<in> snd ` set vs then Some (group_of vs v) else None)"
proof (induction vs rule: rev_induct)
  case (snoc x vs)
  have "group_of vs (snd x) = []" if "snd x \<notin> snd ` set vs"
    using that by (metis (mono_tags, lifting) filter_False group_of_def image_eqI list.simps(8))
  then show ?case
    by (auto simp: snoc map_of_group_push fun_eq_iff group_of_def)
qed simp

lemma groups_distinct: "distinct (map fst (foldl (\<lambda>gs x. group_push (snd x) (fst x) gs) [] vs))"
  by (induction vs rule: rev_induct) (auto simp: distinct_group_push)

lemma groups_set:
  "set (foldl (\<lambda>gs x. group_push (snd x) (fst x) gs) [] vs) = {(v, group_of vs v) |v. v \<in> snd ` set vs}"
  by (rule set_eqI) (auto simp: map_of_eq_Some_iff [OF groups_distinct, symmetric] groups_map_of split: if_splits, force)

lemma iter_map_ok:
  assumes "ok_order order"
  shows "set (iter_map order m) = {(s, v). m s = Some v}" "distinct (map fst (iter_map order m))"
proof -
  have o: "distinct (order (dom m))" "set (order (dom m)) = dom m"
    using assms by (auto simp: ok_order_def)
  have keep: "List.map_filter (\<lambda>s. map_option (Pair s) (m s)) xs = map (\<lambda>s. (s, the (m s))) xs" if "set xs \<subseteq> dom m" for xs
    using that by (induction xs) (auto simp: List.map_filter_simps)
  have "iter_map order m = map (\<lambda>s. (s, the (m s))) (order (dom m))"
    using keep [of "order (dom m)"] o by (simp add: iter_map_def)
  with o show "set (iter_map order m) = {(s, v). m s = Some v}" "distinct (map fst (iter_map order m))"
    by (force simp: comp_def)+
qed

lemma votes_iter_map:
  assumes "ok_order order"
  shows "set (votes (expected_kind_for_ordinal ordinal) (iter_map order m)) = {(s, v). s \<in> voters ordinal m v}"
    and "distinct (map fst (votes (expected_kind_for_ordinal ordinal) (iter_map order m)))"
  by (auto simp: votes_iff iter_map_ok(1) [OF assms] voters_def intro: distinct_votes iter_map_ok(2) [OF assms])

lemma voters_unique: "s \<in> voters ordinal m v \<Longrightarrow> s \<in> voters ordinal m w \<Longrightarrow> v = w"
  by (auto simp: voters_def)

lemma comparable_votes: "set vs = {(s, v). s \<in> voters ordinal m v} \<Longrightarrow> comparable ordinal m = set (map fst vs)"
  by (force simp: comparable_def)

lemma group_of_voters:
  assumes "set vs = {(s, v). s \<in> voters ordinal m v}" "distinct (map fst vs)"
  shows "set (group_of vs v) = voters ordinal m v" "distinct (group_of vs v)"
    "length (group_of vs v) = card (voters ordinal m v)"
proof -
  show set: "set (group_of vs v) = voters ordinal m v"
    using assms(1) by (auto simp: group_of_def image_iff)
  show dist: "distinct (group_of vs v)"
    using assms(2) by (simp add: group_of_def distinct_map_filter)
  show "length (group_of vs v) = card (voters ordinal m v)"
    using distinct_card [OF dist] set by simp
qed

lemma distinct_groups:
  assumes "distinct (map fst gs)" "\<And>v l. (v, l) \<in> set gs \<Longrightarrow> distinct l \<and> set l = voters ordinal m v"
  shows "distinct (concat (map snd gs))"
  using assms
proof (induction gs)
  case (Cons g gs)
  have "set (snd g) \<inter> set l = {}" if "(v, l) \<in> set gs" for v l
  proof -
    have "v \<noteq> fst g"
      using Cons.prems(1) that by (metis distinct.simps(2) fst_conv image_eqI list.simps(9) set_map)
    then show ?thesis
      using Cons.prems(2) [of "fst g" "snd g"] Cons.prems(2) [of v l] that by (auto dest: voters_unique)
  qed
  moreover have "distinct (snd g)"
    using Cons.prems(2) [of "fst g" "snd g"] by simp
  moreover have "distinct (concat (map snd gs))"
    using Cons.prems by (intro Cons.IH) auto
  ultimately show ?case
    by fastforce
qed simp

lemma unanimous_votes:
  assumes "set vs = {(s, v). s \<in> voters ordinal m v}"
  shows "unanimous ordinal m \<longleftrightarrow> (\<forall>x \<in> set vs. snd x = snd (hd vs))"
proof
  assume "unanimous ordinal m"
  then obtain v where v: "comparable ordinal m \<subseteq> voters ordinal m v"
    by (auto simp: unanimous_def)
  have "snd x = v" if "x \<in> set vs" for x
    using that v voters_unique [of "fst x" ordinal m "snd x" v] assms by (fastforce simp: comparable_def)
  then show "\<forall>x \<in> set vs. snd x = snd (hd vs)"
    by (metis empty_iff hd_in_set list.set(1))
next
  assume "\<forall>x \<in> set vs. snd x = snd (hd vs)"
  then have "s \<in> voters ordinal m (snd (hd vs))" if "s \<in> voters ordinal m v" for s v
    using that assms by force
  then show "unanimous ordinal m"
    by (auto simp: unanimous_def comparable_def)
qed

lemma evaluate_exact:
  assumes "ok_order order" "evaluate order st ordinal m = (d, st')"
  shows "verdict_ok ordinal m d"
proof -
  define vs where "vs = votes (expected_kind_for_ordinal ordinal) (iter_map order m)"
  define gs where "gs = foldl (\<lambda>gs x. group_push (snd x) (fst x) gs) [] vs"
  have vs: "set vs = {(s, v). s \<in> voters ordinal m v}" "distinct (map fst vs)"
    using votes_iter_map [OF assms(1)] by (simp_all add: vs_def)
  have n: "length vs = card (comparable ordinal m)"
    using distinct_card [OF vs(2)] by (simp add: comparable_votes [OF vs(1)])
  have gs: "set gs = {(v, group_of vs v) |v. v \<in> snd ` set vs}"
    by (simp add: gs_def groups_set)
  have all: "set (concat (map snd gs)) = comparable ordinal m" "distinct (concat (map snd gs))"
    using distinct_groups [of gs ordinal m] groups_distinct [of vs]
    by (auto simp: gs group_of_voters [OF vs] comparable_votes [OF vs(1)] vs(1) gs_def [symmetric]) force+
  have minority: "sort (filter (\<lambda>s. s \<notin> set (group_of vs v)) (concat (map snd gs))) =
      sorted_list_of_set (comparable ordinal m - voters ordinal m v)" for v
  proof -
    have "set (filter (\<lambda>s. s \<notin> set (group_of vs v)) (concat (map snd gs))) = comparable ordinal m - voters ordinal m v"
      by (simp only: set_filter all group_of_voters [OF vs]) auto
    then show ?thesis
      using sorted_list_of_set_sort_remdups [of "filter (\<lambda>s. s \<notin> set (group_of vs v)) (concat (map snd gs))"] all(2)
      by (simp only: distinct_remdups_id distinct_filter)
  qed
  have no_group: "card (voters ordinal m v) * 2 \<le> card (comparable ordinal m)"
    if "find (\<lambda>(_, slots). length vs < length slots * 2) gs = None" for v
  proof (cases "v \<in> snd ` set vs")
    case True
    then have "(v, group_of vs v) \<in> set gs"
      by (simp add: gs)
    with that show ?thesis
      using group_of_voters(3) [OF vs, of v] by (fastforce simp: find_None_iff n not_less)
  next
    case False
    then have "voters ordinal m v = {}"
      by (force simp: vs(1))
    then show ?thesis
      by simp
  qed
  have major: "slots = group_of vs v \<and> card (comparable ordinal m) < card (voters ordinal m v) * 2"
    if "find (\<lambda>(_, slots). length vs < length slots * 2) gs = Some (v, slots)" for v slots
    using that by (auto simp: find_Some_iff gs n group_of_voters [OF vs] dest!: nth_mem)
  show ?thesis
    using assms(2) minority
    by (auto simp: evaluate_def Let_def scan_comparable scan_diverges group_reports_foldl verdict_ok_def
        unanimous_votes [OF vs(1)] vs_def [symmetric] gs_def [symmetric] no_group
        split: if_splits option.splits dest!: major)
qed

section \<open>Runs of the comparator\<close>

type_synonym reported = "(SlotId \<times> u64 \<times> SyncReport) set"

definition entry_ok :: "reported \<Rightarrow> SlotId set \<Rightarrow> u64 \<times> (SlotId \<rightharpoonup> SyncObservation) \<Rightarrow> bool" where
  "entry_ok H excluded e \<longleftrightarrow>
     dom (snd e) \<inter> excluded = {} \<and> (\<forall>s r. snd e s = Some (Report r) \<longrightarrow> (s, fst e, r) \<in> H)"

definition sync_inv :: "reported \<Rightarrow> SyncTracker \<Rightarrow> bool" where
  "sync_inv H st \<longleftrightarrow> bm_wf (sy_pending st) \<and> (\<forall>e \<in> set (sy_pending st). entry_ok H (sy_excluded st) e)"

lemma sync_inv_update [simp]:
  "sync_inv H (st\<lparr>sy_duplicate_warns := n\<rparr>) = sync_inv H st" "sync_inv H (st\<lparr>sy_kind_parity_warns := n\<rparr>) = sync_inv H st"
  "sync_inv H (st\<lparr>sy_malformed_kind_warns := n\<rparr>) = sync_inv H st" "sync_inv H (st\<lparr>sy_dormant := b\<rparr>) = sync_inv H st"
  "sync_inv H (st\<lparr>sy_members := ms\<rparr>) = sync_inv H st" "sync_inv H (st\<lparr>sy_initialized := b\<rparr>) = sync_inv H st"
  "sync_inv H (st\<lparr>sy_base_ordinal := n\<rparr>) = sync_inv H st"
  by (simp_all add: sync_inv_def)

lemma sync_inv_mono: "sync_inv H st \<Longrightarrow> H \<subseteq> H' \<Longrightarrow> sync_inv H' st"
  unfolding sync_inv_def entry_ok_def by blast

lemma sync_inv_entry: "sync_inv H st \<Longrightarrow> entry_ok H (sy_excluded st) (ordinal, reports_at st ordinal)"
  by (cases "map_of (sy_pending st) ordinal")
    (auto simp: sync_inv_def reports_at_def entry_ok_def [of _ _ "(_, Map.empty)"] dest: map_of_SomeD)

lemma sync_inv_reports_at:
  assumes "sync_inv H st"
  shows "dom (reports_at st ordinal) \<inter> sy_excluded st = {}"
    "reports_at st ordinal s = Some (Report r) \<Longrightarrow> (s, ordinal, r) \<in> H"
  using sync_inv_entry [OF assms, of ordinal] by (simp_all add: entry_ok_def)

lemma sync_inv_subset:
  assumes "sync_inv H st" "bm_wf (sy_pending st')" "set (sy_pending st') \<subseteq> set (sy_pending st)"
    "sy_excluded st' = sy_excluded st"
  shows "sync_inv H st'"
  using assms by (auto simp: sync_inv_def)

lemma bm_wf_tl: "bm_wf m \<Longrightarrow> bm_wf (tl m)"
  by (cases m) (auto simp: bm_wf_Cons)

lemma sync_inv_retire_base: "sync_inv H st \<Longrightarrow> sync_inv H (retire_base st)"
  by (rule sync_inv_subset, assumption) (auto simp: retire_base_def sync_inv_def bm_remove_def)

definition evict_one :: "SyncTracker \<Rightarrow> SyncTracker" where
  "evict_one st =
     (let ordinal = fst (hd (sy_pending st));
          st' = st\<lparr>sy_pending := tl (sy_pending st), sy_evict_warns := observed (sy_evict_warns st)\<rparr>
      in if sy_base_ordinal st \<le> ordinal then st'\<lparr>sy_base_ordinal := saturating_add ordinal 1\<rparr> else st')"

lemma evict_over_window_unfold:
  "evict_over_window st =
     (if SYNC_WINDOW < length (sy_pending st) then evict_over_window (evict_one st) else st)"
  by (subst evict_over_window.simps) (simp add: evict_one_def Let_def)

lemma evict_one_frame [simp]:
  "sy_pending (evict_one st) = tl (sy_pending st)" "sy_excluded (evict_one st) = sy_excluded st"
  by (simp_all add: evict_one_def Let_def)

lemma evict_invariant:
  assumes "\<And>st. P st \<Longrightarrow> P (evict_one st)" "P st"
  shows "P (evict_over_window st)"
  using assms(2)
proof (induction "length (sy_pending st)" arbitrary: st rule: less_induct)
  case less
  show ?case
  proof (cases "SYNC_WINDOW < length (sy_pending st)")
    case True
    then have "P (evict_over_window (evict_one st))"
      by (intro less.hyps assms(1) less.prems) auto
    with True show ?thesis
      by (subst evict_over_window_unfold) simp
  next
    case False
    with less.prems show ?thesis
      by (subst evict_over_window_unfold) simp
  qed
qed

lemma set_tl_subset: "set (tl xs) \<subseteq> set xs"
  by (cases xs) auto

lemma sync_inv_evict_one: "sync_inv H st \<Longrightarrow> sync_inv H (evict_one st)"
  by (rule sync_inv_subset, assumption) (auto simp: sync_inv_def bm_wf_tl dest: subsetD [OF set_tl_subset])

lemma sync_inv_evict:
  "sync_inv H st \<Longrightarrow> sync_inv H (evict_over_window st) \<and> sy_excluded (evict_over_window st) = sy_excluded st"
  by (rule evict_invariant [where P = "\<lambda>st'. sync_inv H st' \<and> sy_excluded st' = sy_excluded st"])
    (simp_all add: sync_inv_evict_one)

lemma evict_bounds: "length (sy_pending (evict_over_window st)) \<le> SYNC_WINDOW"
proof (induction "length (sy_pending st)" arbitrary: st rule: less_induct)
  case less
  then have "SYNC_WINDOW < length (sy_pending st) \<Longrightarrow> length (sy_pending (evict_over_window (evict_one st))) \<le> SYNC_WINDOW"
    by (intro less.hyps) auto
  then show ?case
    by (subst evict_over_window_unfold) auto
qed

lemma entry_ok_remove: "entry_ok H excluded (ordinal, m) \<Longrightarrow> entry_ok H excluded (ordinal, m(slot := None))"
  by (auto simp: entry_ok_def)

lemma entry_ok_exclude: "entry_ok H excluded (ordinal, m) \<Longrightarrow> entry_ok H (insert slot excluded) (ordinal, m(slot := None))"
  by (auto simp: entry_ok_def)

lemma sync_inv_remove_member: "sync_inv H st \<Longrightarrow> sync_inv H (remove_member st slot)"
  by (auto simp: sync_inv_def remove_member_def bm_wf_def comp_def case_prod_beta intro: entry_ok_remove)

lemma sync_inv_exclude_member: "sync_inv H st \<Longrightarrow> sync_inv H (exclude_member st slot)"
  by (auto simp: sync_inv_def exclude_member_def remove_member_def bm_wf_def comp_def case_prod_beta
      intro: entry_ok_exclude)

lemma sync_inv_exclude_members: "sync_inv H st \<Longrightarrow> sync_inv H (foldl exclude_member st slots)"
  by (induction slots arbitrary: st) (simp_all add: sync_inv_exclude_member)

lemma excluded_members: "sy_excluded (foldl exclude_member st slots) = sy_excluded st \<union> set slots"
  by (induction slots arbitrary: st) (auto simp: exclude_member_def remove_member_def)

lemma sync_inv_observe_pending:
  assumes "sync_inv H st" "slot \<notin> sy_excluded st" "\<And>r. ob = Report r \<Longrightarrow> (slot, ordinal, r) \<in> H"
  shows "sync_inv H (observe_pending st ordinal slot ob)"
proof -
  have "entry_ok H (sy_excluded st) (ordinal, (reports_at st ordinal)(slot \<mapsto> ob))"
    using sync_inv_entry [OF assms(1), of ordinal] assms(2,3) by (auto simp: entry_ok_def)
  then show ?thesis
    using assms(1) by (auto simp: sync_inv_def observe_pending_def bm_wf_insert set_bm_insert)
qed

lemma observe_pending_excluded [simp]: "sy_excluded (observe_pending st ordinal slot ob) = sy_excluded st"
  by (simp add: observe_pending_def)

lemma sync_inv_record_skipped:
  "sync_inv H st \<Longrightarrow> slot \<notin> sy_excluded st \<Longrightarrow>
   sync_inv H (record_skipped slot since ordinal gap_end st) \<and>
   sy_excluded (record_skipped slot since ordinal gap_end st) = sy_excluded st"
proof (induction slot since ordinal gap_end st rule: record_skipped.induct)
  case (1 slot since ordinal gap_end st)
  let ?ob = "case reports_at st ordinal slot of None \<Rightarrow> Skipped | Some ob \<Rightarrow> ob"
  have "sync_inv H (observe_pending st ordinal slot ?ob)"
    using 1(2,3) sync_inv_reports_at(2) [OF 1(2)]
    by (intro sync_inv_observe_pending) (auto split: option.splits)
  with 1 show ?case
    by (subst (1 2) record_skipped.simps) simp
qed

lemma sync_inv_store_report:
  assumes "sync_inv H st" "slot \<notin> sy_excluded st" "(slot, ordinal, r) \<in> H"
  shows "sync_inv H (store_report st ordinal slot r) \<and> sy_excluded (store_report st ordinal slot r) = sy_excluded st"
proof -
  have "sync_inv H (observe_pending st ordinal slot ob)"
    if "ob = Report r \<or> reports_at st ordinal slot = Some ob" for ob
    using that assms sync_inv_reports_at(2) [OF assms(1)] by (intro sync_inv_observe_pending) auto
  then show ?thesis
    by (auto simp: store_report_def Let_def split: option.splits SyncObservation.splits)
qed

definition faithful :: "reported \<Rightarrow> SlotId set \<Rightarrow> SyncDivergence \<Rightarrow> bool" where
  "faithful H excluded d \<longleftrightarrow>
     (\<exists>m. verdict_ok (sd_sync_ordinal d) m (Some d) \<and> dom m \<inter> excluded = {} \<and>
          (\<forall>s r. m s = Some (Report r) \<longrightarrow> (s, sd_sync_ordinal d, r) \<in> H))"

definition sync_step_ok :: "reported \<Rightarrow> SyncTracker \<Rightarrow> SyncDivergence option \<times> SyncTracker \<Rightarrow> bool" where
  "sync_step_ok H st res =
     (case res of
        (None, st') \<Rightarrow> sync_inv H st' \<and> sy_excluded st' = sy_excluded st
      | (Some d, st') \<Rightarrow>
          sync_inv H st' \<and> sy_excluded st' = sy_excluded st \<union> set (sd_diverged d) \<and> faithful H (sy_excluded st) d)"

lemma sync_step_ok_from:
  "sync_step_ok H st' res \<Longrightarrow> sy_excluded st' = sy_excluded st \<Longrightarrow> sync_step_ok H st res"
  by (simp add: sync_step_ok_def cong: option.case_cong prod.case_cong)

lemma evaluate_step:
  assumes "ok_order order" "sync_inv H st"
    "dom m \<inter> sy_excluded st = {}" "\<And>s r. m s = Some (Report r) \<Longrightarrow> (s, ordinal, r) \<in> H"
  shows "sync_step_ok H st (evaluate order st ordinal m)"
proof -
  obtain d st' where ev: "evaluate order st ordinal m = (d, st')"
    by (cases "evaluate order st ordinal m")
  have ok: "verdict_ok ordinal m d"
    by (rule evaluate_exact [OF assms(1) ev])
  have "sync_inv H st' \<and> sy_excluded st' = sy_excluded st \<union> (case d of None \<Rightarrow> {} | Some d \<Rightarrow> set (sd_diverged d))"
    using ev assms(2)
    by (auto simp: evaluate_def Let_def excluded_members split: if_splits option.splits
        intro!: sync_inv_exclude_members)
  with ok assms(3,4) show ?thesis
    by (auto simp: ev sync_step_ok_def faithful_def verdict_ok_def split: option.splits)
qed

lemma retire_base_excluded [simp]: "sy_excluded (retire_base st) = sy_excluded st"
  by (simp add: retire_base_def)

lemma evaluate_ready_step:
  assumes "ok_order order" "sync_inv H st"
  shows "sync_step_ok H st (evaluate_ready order margin st)"
  using assms
proof (induction order margin st rule: evaluate_ready.induct)
  case (1 order margin st)
  let ?ev = "evaluate order (retire_base st) (sy_base_ordinal st) (reports_at st (sy_base_ordinal st))"
  have ev: "sync_step_ok H (retire_base st) ?ev"
    using 1(3,4) sync_inv_reports_at [OF 1(4)] by (intro evaluate_step sync_inv_retire_base) auto
  have base: "sync_step_ok H st (None, st)"
    using 1(4) by (simp add: sync_step_ok_def)
  show ?case
  proof (cases "frontier order st")
    case (Some f)
    show ?thesis
    proof (cases "saturating_sub f (sy_base_ordinal st) < margin")
      case near: False
      show ?thesis
      proof (cases "any_required order st")
        case required: True
        show ?thesis
        proof (cases "complete order st")
          case compl: True
          obtain d st' where res: "?ev = (d, st')"
            by (cases ?ev)
          show ?thesis
          proof (cases d)
            case None
            then have st': "sync_inv H st'" "sy_excluded st' = sy_excluded st"
              using ev by (simp_all add: res sync_step_ok_def)
            have "sync_step_ok H st' (evaluate_ready order margin st')"
              using 1(2) [OF Some near _ _ res [symmetric]] required compl None 1(3) st'(1) by simp
            then show ?thesis
              using Some near required compl res None sync_step_ok_from [OF _ st'(2)]
              by (subst evaluate_ready.simps) simp
          next
            case (Some e)
            then show ?thesis
              using \<open>frontier order st = _\<close> near required compl res ev
              by (subst evaluate_ready.simps) (simp add: sync_step_ok_def)
          qed
        qed (use Some near required base in \<open>simp add: evaluate_ready.simps\<close>)
      next
        case required: False
        have "sync_step_ok H (retire_base st) (evaluate_ready order margin (retire_base st))"
          using 1(1) [OF Some near required 1(3) sync_inv_retire_base [OF 1(4)]] .
        then show ?thesis
          using Some near required sync_step_ok_from [OF _ retire_base_excluded]
          by (subst evaluate_ready.simps) simp
      qed
    qed (use Some base in \<open>simp add: evaluate_ready.simps\<close>)
  qed (use base in \<open>simp add: evaluate_ready.simps\<close>)
qed

lemma record_step:
  assumes "ok_order order" "sync_inv H st" "(slot, ordinal, r) \<in> H"
  shows "sync_step_ok H st (SyncTracker_record order st slot ordinal r skipped margin)"
proof -
  define st2 where
    "st2 = note_member (if sy_initialized st then st else st\<lparr>sy_initialized := True, sy_base_ordinal := ordinal\<rparr>) slot ordinal"
  define st3 where
    "st3 = (case skipped of None \<Rightarrow> st2
            | Some gap \<Rightarrow> record_skipped slot (mb_since (the (sy_members st2 slot)))
                            (max (sg_first gap) (sy_base_ordinal st2)) (sg_end gap) st2)"
  define st4 where "st4 = store_report st3 ordinal slot r"
  obtain d st5 where res: "evaluate_ready order margin st4 = (d, st5)"
    by (cases "evaluate_ready order margin st4")
  have st2: "sync_inv H st2" "sy_excluded st2 = sy_excluded st"
    using assms(2) by (simp_all add: st2_def note_member_def Let_def)
  have ready: "sync_step_ok H st (d, st5)" if "slot \<notin> sy_excluded st"
  proof -
    have st3: "sync_inv H st3" "sy_excluded st3 = sy_excluded st"
      using st2 that sync_inv_record_skipped [OF st2(1)] by (auto simp: st3_def split: option.splits)
    have st4: "sync_inv H st4" "sy_excluded st4 = sy_excluded st"
      using sync_inv_store_report [OF st3(1) _ assms(3)] st3(2) that by (simp_all add: st4_def)
    show ?thesis
      using evaluate_ready_step [OF assms(1) st4(1), of margin] st4(2)
      unfolding res by (rule sync_step_ok_from)
  qed
  show ?thesis
  proof (cases "slot \<in> sy_excluded st \<or> (sr_kind r \<noteq> SYNC_KIND_UNITS \<and> sr_kind r \<noteq> SYNC_KIND_HEADER)")
    case True
    with assms(2) show ?thesis
      by (auto simp: SyncTracker_record_def sync_step_ok_def)
  next
    case False
    then have "SyncTracker_record order st slot ordinal r skipped margin =
        (if ordinal < sy_base_ordinal st2 then (None, st2)
         else case d of Some divergence \<Rightarrow> (Some divergence, st5) | None \<Rightarrow> (None, evict_over_window st5))"
      unfolding SyncTracker_record_def Let_def st2_def [symmetric] st3_def [symmetric] st4_def [symmetric] res
      by (cases d) auto
    moreover have "sync_step_ok H st (None, st2)"
      using st2 by (simp add: sync_step_ok_def)
    moreover have "sync_step_ok H st (None, evict_over_window st5)" if "d = None"
      using ready False that sync_inv_evict [of H st5] by (auto simp: sync_step_ok_def)
    ultimately show ?thesis
      using ready False by (auto split: option.splits)
  qed
qed

datatype SyncCall = CallRecord SlotId u64 SyncReport "SyncGap option" u64 | CallRemove SlotId

fun sync_run :: "key_order \<Rightarrow> SyncTracker \<Rightarrow> SyncCall list \<Rightarrow> SyncDivergence list" where
  "sync_run order st [] = []"
| "sync_run order st (CallRemove slot # calls) = sync_run order (remove_member st slot) calls"
| "sync_run order st (CallRecord slot ordinal r skipped margin # calls) =
     (case SyncTracker_record order st slot ordinal r skipped margin of
        (None, st') \<Rightarrow> sync_run order st' calls
      | (Some d, st') \<Rightarrow> d # sync_run order st' calls)"

definition reported_by :: "SyncCall list \<Rightarrow> reported" where
  "reported_by calls = {(slot, ordinal, r). \<exists>skipped margin. CallRecord slot ordinal r skipped margin \<in> set calls}"

lemma reported_by_Cons:
  "reported_by (CallRemove slot # calls) = reported_by calls"
  "reported_by (CallRecord slot ordinal r skipped margin # calls) = insert (slot, ordinal, r) (reported_by calls)"
  by (auto simp: reported_by_def)

lemma faithful_diverged:
  assumes "faithful H excluded d"
  shows "distinct (sd_diverged d)" "set (sd_diverged d) \<inter> excluded = {}"
proof -
  obtain m where m: "verdict_ok (sd_sync_ordinal d) m (Some d)" "dom m \<inter> excluded = {}"
    using assms by (auto simp: faithful_def)
  then show "distinct (sd_diverged d)"
    by (auto simp: verdict_ok_def split: if_splits)
  have "set (sd_diverged d) \<subseteq> comparable (sd_sync_ordinal d) m"
    using m(1) by (auto simp: verdict_ok_def split: if_splits)
  then show "set (sd_diverged d) \<inter> excluded = {}"
    using m(2) by (auto simp: comparable_def voters_def)
qed

lemma sync_run_ok:
  assumes "ok_order order" "sync_inv H st" "reported_by calls \<subseteq> H"
  shows "(\<forall>d \<in> set (sync_run order st calls). faithful H (sy_excluded st) d) \<and>
         distinct (concat (map sd_diverged (sync_run order st calls)))"
  using assms
proof (induction order st calls rule: sync_run.induct)
  case (2 order st slot calls)
  then show ?case
    using sync_inv_remove_member [of H st slot] by (auto simp: reported_by_Cons remove_member_def)
next
  case (3 order st slot ordinal r skipped margin calls)
  obtain d st' where res: "SyncTracker_record order st slot ordinal r skipped margin = (d, st')"
    by (cases "SyncTracker_record order st slot ordinal r skipped margin")
  have ok: "sync_step_ok H st (d, st')"
    using record_step [of order H st slot ordinal r skipped margin] 3(3-5) by (simp add: res reported_by_Cons)
  have weaken: "faithful H (sy_excluded st') e \<Longrightarrow> sy_excluded st \<subseteq> sy_excluded st' \<Longrightarrow> faithful H (sy_excluded st) e" for e
    unfolding faithful_def by blast
  show ?case
  proof (cases d)
    case None
    with 3 ok show ?thesis
      by (auto simp: res sync_step_ok_def reported_by_Cons)
  next
    case (Some e)
    have e: "sync_inv H st'" "sy_excluded st' = sy_excluded st \<union> set (sd_diverged e)" "faithful H (sy_excluded st) e"
      using ok Some by (simp_all add: sync_step_ok_def)
    have IH: "\<forall>d \<in> set (sync_run order st' calls). faithful H (sy_excluded st') d"
        "distinct (concat (map sd_diverged (sync_run order st' calls)))"
      using 3(2) [OF res [symmetric]] Some 3(3,5) e(1) by (auto simp: reported_by_Cons)
    have "set (sd_diverged e) \<inter> set (sd_diverged x) = {}" if "x \<in> set (sync_run order st' calls)" for x
      using faithful_diverged(2) [of H _ x] IH(1) that e(2) by blast
    then show ?thesis
      using IH e weaken faithful_diverged(1) [OF e(3)] by (auto simp: res Some)
  qed
qed simp

lemma sync_inv_default: "sync_inv H SyncTracker_default"
  by (simp add: sync_inv_def SyncTracker_default_def)

definition disagreement_due :: "u64 \<Rightarrow> u64 \<Rightarrow> SyncTracker \<Rightarrow> bool" where
  "disagreement_due margin ordinal st \<longleftrightarrow>
     sy_base_ordinal st \<le> ordinal \<and> \<not> unanimous ordinal (reports_at st ordinal) \<and>
     (\<exists>slot m. sy_members st slot = Some m \<and> mb_since m \<le> ordinal) \<and>
     (\<exists>slot m. sy_members st slot = Some m \<and> unat ordinal + unat margin \<le> unat (mb_next_expected m)) \<and>
     (\<forall>slot m k. sy_members st slot = Some m \<longrightarrow> mb_since m \<le> k \<longrightarrow> sy_base_ordinal st \<le> k \<longrightarrow> k \<le> ordinal \<longrightarrow>
        reports_at st k slot \<noteq> None)"

lemma disagreement_due_next:
  assumes "disagreement_due margin ordinal st" "sy_base_ordinal st \<noteq> ordinal"
    "sy_members st' = sy_members st" "sy_base_ordinal st' = saturating_add (sy_base_ordinal st) 1"
    "sy_pending st' = bm_remove (sy_base_ordinal st) (sy_pending st)"
  shows "disagreement_due margin ordinal st'" "unat ordinal - unat (sy_base_ordinal st') < unat ordinal - unat (sy_base_ordinal st)"
proof -
  have "unat (sy_base_ordinal st) < unat ordinal"
    using assms(1,2) by (auto simp: disagreement_due_def word_le_nat_alt word_unat_eq_iff)
  then have base: "unat (sy_base_ordinal st') = unat (sy_base_ordinal st) + 1"
    using unat_less [of ordinal] by (simp add: assms(4) unat_saturating_add)
  then have same: "reports_at st' k = reports_at st k" if "sy_base_ordinal st' \<le> k" for k
    using that by (auto simp: reports_at_def assms(5) word_le_nat_alt)
  from base \<open>_ < unat ordinal\<close> show "unat ordinal - unat (sy_base_ordinal st') < unat ordinal - unat (sy_base_ordinal st)"
    by simp
  have le: "sy_base_ordinal st' \<le> ordinal" "\<And>k. sy_base_ordinal st' \<le> k \<Longrightarrow> sy_base_ordinal st \<le> k"
    using base \<open>_ < unat ordinal\<close> by (simp_all add: word_le_nat_alt)
  then show "disagreement_due margin ordinal st'"
    using assms(1) by (auto simp: disagreement_due_def same assms(3))
qed

lemma iter_max_ge: "x \<in> set xs \<Longrightarrow> \<exists>y. iter_max xs = Some y \<and> x \<le> y"
proof -
  have "z \<le> fold max ys z \<and> (\<forall>x \<in> set ys. x \<le> fold max ys z)" for ys and z :: 'a
    by (induction ys arbitrary: z) (auto intro: order_trans [OF max.cobounded1] order_trans [OF max.cobounded2])
  then show "x \<in> set xs \<Longrightarrow> \<exists>y. iter_max xs = Some y \<and> x \<le> y"
    by (cases xs) (auto simp: iter_max_def)
qed

lemma evaluate_None_frame:
  assumes "evaluate order st ordinal m = (None, st')"
  shows "sy_members st' = sy_members st" "sy_pending st' = sy_pending st"
  using assms by (auto simp: evaluate_def Let_def split: if_splits option.splits)

lemma disagreement_reported:
  assumes "ok_order order" "disagreement_due margin ordinal st"
  shows "\<exists>d st'. evaluate_ready order margin st = (Some d, st')"
  using assms(2)
proof (induction "unat ordinal - unat (sy_base_ordinal st)" arbitrary: st rule: less_induct)
  case less
  note due = less.prems [unfolded disagreement_due_def]
  have members: "set (iter_map order (sy_members st)) = {(s, m). sy_members st s = Some m}"
    by (rule iter_map_ok(1) [OF assms(1)])
  obtain leader ml where ml: "sy_members st leader = Some ml" "unat ordinal + unat margin \<le> unat (mb_next_expected ml)"
    using due by blast
  obtain f where f: "frontier order st = Some f" "mb_next_expected ml \<le> f"
    using iter_max_ge [of "mb_next_expected ml" "map (mb_next_expected \<circ> snd) (iter_map order (sy_members st))"] ml(1)
    by (force simp: frontier_def members)
  have "unat (sy_base_ordinal st) \<le> unat ordinal" "unat (mb_next_expected ml) \<le> unat f"
    using due f(2) by (simp_all add: word_le_nat_alt)
  then have lead: "\<not> saturating_sub f (sy_base_ordinal st) < margin"
    using ml(2) by (simp add: word_less_nat_alt unat_saturating_sub)
  have complete: "complete order st"
    using due by (auto simp: complete_def list_all_iff members)
  have at_ordinal: "any_required order st" if "sy_base_ordinal st = ordinal"
    using due that by (auto simp: any_required_def list_ex_iff members)
  show ?case
  proof (cases "any_required order st")
    case False
    then have "sy_base_ordinal st \<noteq> ordinal"
      using at_ordinal by blast
    then have "disagreement_due margin ordinal (retire_base st)"
        "unat ordinal - unat (sy_base_ordinal (retire_base st)) < unat ordinal - unat (sy_base_ordinal st)"
      using disagreement_due_next [OF less.prems, where st' = "retire_base st"] by (simp_all add: retire_base_def)
    then have "\<exists>d st'. evaluate_ready order margin (retire_base st) = (Some d, st')"
      by (rule less.hyps [rotated])
    then show ?thesis
      using f(1) lead False by (subst evaluate_ready.simps) simp
  next
    case True
    obtain d st' where res:
      "evaluate order (retire_base st) (sy_base_ordinal st) (reports_at st (sy_base_ordinal st)) = (d, st')"
      by (cases "evaluate order (retire_base st) (sy_base_ordinal st) (reports_at st (sy_base_ordinal st))")
    show ?thesis
    proof (cases d)
      case None
      have "sy_base_ordinal st \<noteq> ordinal"
        using evaluate_exact [OF assms(1) res] None due by (auto simp: verdict_ok_def)
      then have "disagreement_due margin ordinal st'"
          "unat ordinal - unat (sy_base_ordinal st') < unat ordinal - unat (sy_base_ordinal st)"
        using evaluate_None_frame [OF res [unfolded None]] evaluate_frame(1) [OF res]
          disagreement_due_next [OF less.prems, where st' = st'] by (simp_all add: retire_base_def)
      then have "\<exists>d st''. evaluate_ready order margin st' = (Some d, st'')"
        by (rule less.hyps [rotated])
      then show ?thesis
        using f(1) lead True complete res None by (subst evaluate_ready.simps) simp
    next
      case (Some e)
      then show ?thesis
        using f(1) lead True complete res by (subst evaluate_ready.simps) simp
    qed
  qed
qed

section \<open>Example runs\<close>

definition good_report :: SyncReport where
  "good_report = \<lparr>sr_value = SyncValue 0 0, sr_kind = SYNC_KIND_UNITS, sr_game_frame = Some 7\<rparr>"

definition bad_report :: SyncReport where
  "bad_report = good_report\<lparr>sr_value := SyncValue 0 1\<rparr>"

definition two_liars :: "SyncCall list" where
  "two_liars =
     [CallRecord 1 0 good_report None 2, CallRecord 2 0 bad_report None 2, CallRecord 3 0 bad_report None 2,
      CallRecord 2 1 (good_report\<lparr>sr_kind := SYNC_KIND_HEADER\<rparr>) None 2]"

lemma sorted_order_ok: "ok_order sorted_list_of_set"
  by (simp add: ok_order_def)

lemma two_liars_run:
  "map (\<lambda>d. (sd_sync_ordinal d, sd_diverged d)) (sync_run sorted_list_of_set SyncTracker_default two_liars) = [(0, [1])]"
  by (simp add: two_liars_def SyncTracker_record_def SyncTracker_default_def good_report_def bad_report_def
      SYNC_KIND_UNITS_def SYNC_KIND_HEADER_def SYNC_WINDOW_def note_member_def Let_def store_report_def observe_pending_def
      reports_at_def evaluate_ready.simps evict_over_window.simps frontier_def iter_map_def iter_max_def List.map_filter_simps saturating_add_def
      saturating_sub_def any_required_def complete_def retire_base_def bm_remove_def evaluate_def expected_kind_for_ordinal_def)

definition split_state :: SyncTracker where
  "split_state = SyncTracker_default\<lparr>
     sy_members := [1 \<mapsto> \<lparr>mb_next_expected = 2, mb_since = 0\<rparr>, 2 \<mapsto> \<lparr>mb_next_expected = 1, mb_since = 0\<rparr>],
     sy_pending := [(0, [1 \<mapsto> Report good_report, 2 \<mapsto> Report bad_report])]\<rparr>"

section \<open>Properties\<close>

text \<open>C12: An honest slot, one whose checksums are those of the true simulation, is named as diverged only when more
  dishonest slots than slots named reported one same wrong checksum for that step.\<close>

theorem sync_accusation_sound:
  assumes order: "ok_order order"
    and fired: "d \<in> set (sync_run order SyncTracker_default calls)"
    and honesty: "\<And>s ordinal r. s \<in> honest \<Longrightarrow> (s, ordinal, r) \<in> reported_by calls \<Longrightarrow>
      sr_kind r = expected_kind_for_ordinal ordinal \<Longrightarrow> sr_value r = truth ordinal"
    and accused: "slot \<in> honest" "slot \<in> set (sd_diverged d)"
  shows "\<exists>v. v \<noteq> truth (sd_sync_ordinal d) \<and>
    card (set (sd_diverged d)) < card {s. s \<notin> honest \<and> (\<exists>r. (s, sd_sync_ordinal d, r) \<in> reported_by calls \<and> sr_value r = v)}"
proof -
  let ?o = "sd_sync_ordinal d"
  have "faithful (reported_by calls) (sy_excluded SyncTracker_default) d"
    using sync_run_ok [OF order sync_inv_default order_refl] fired by blast
  then obtain m where m: "verdict_ok ?o m (Some d)" "\<And>s r. m s = Some (Report r) \<Longrightarrow> (s, ?o, r) \<in> reported_by calls"
    by (auto simp: faithful_def)
  then obtain v where v: "card (comparable ?o m) < card (voters ?o m v) * 2"
      "sd_diverged d = sorted_list_of_set (comparable ?o m - voters ?o m v)"
    using accused(2) by (auto simp: verdict_ok_def split: if_splits)
  have truth: "w = truth ?o" if "s \<in> honest" "s \<in> voters ?o m w" for s w
    using that honesty m(2) by (force simp: voters_def)
  obtain w where "slot \<in> voters ?o m w" "slot \<notin> voters ?o m v"
    using accused(2) v(2) by (auto simp: comparable_def)
  then have "v \<noteq> truth ?o"
    using truth accused(1) by blast
  then have liars: "voters ?o m v \<subseteq> {s. s \<notin> honest \<and> (\<exists>r. (s, ?o, r) \<in> reported_by calls \<and> sr_value r = v)}"
    using truth m(2) by (fastforce simp: voters_def)
  have "voters ?o m v \<subseteq> comparable ?o m"
    by (auto simp: comparable_def)
  then have "card (set (sd_diverged d)) = card (comparable ?o m) - card (voters ?o m v)"
    by (simp add: v(2) card_Diff_subset)
  also have "\<dots> < card (voters ?o m v)"
    using v(1) by linarith
  also have "\<dots> \<le> card {s. s \<notin> honest \<and> (\<exists>r. (s, ?o, r) \<in> reported_by calls \<and> sr_value r = v)}"
    using liars by (intro card_mono) auto
  finally show ?thesis
    using \<open>v \<noteq> truth ?o\<close> by blast
qed

theorem sync_accusation_sound_witness:
  "\<exists>v. v \<noteq> SyncValue 0 0 \<and>
     card (set (sd_diverged (hd (sync_run sorted_list_of_set SyncTracker_default two_liars)))) <
     card {s. s \<notin> {1} \<and> (\<exists>r. (s, sd_sync_ordinal (hd (sync_run sorted_list_of_set SyncTracker_default two_liars)), r)
                                  \<in> reported_by two_liars \<and> sr_value r = v)}"
proof (rule sync_accusation_sound [OF sorted_order_ok, where truth = "\<lambda>_. SyncValue 0 0" and slot = 1])
  obtain d where d: "sync_run sorted_list_of_set SyncTracker_default two_liars = [d]" "sd_diverged d = [1]"
    using two_liars_run by auto
  then show "hd (sync_run sorted_list_of_set SyncTracker_default two_liars) \<in>
      set (sync_run sorted_list_of_set SyncTracker_default two_liars)"
    "1 \<in> set (sd_diverged (hd (sync_run sorted_list_of_set SyncTracker_default two_liars)))"
    by simp_all
qed (auto simp: reported_by_def two_liars_def good_report_def)

text \<open>C29: Over any sequence of reports and departures no slot is named as diverged twice.\<close>

theorem sync_accuses_once:
  assumes "ok_order order"
  shows "distinct (concat (map sd_diverged (sync_run order SyncTracker_default calls)))"
  using sync_run_ok [OF assms sync_inv_default order_refl] by blast

theorem sync_accuses_once_witness:
  "distinct (concat (map sd_diverged (sync_run sorted_list_of_set SyncTracker_default two_liars)))"
  by (rule sync_accuses_once [OF sorted_order_ok])

text \<open>C14: A disagreement is not passed over: when two members' comparable checksums of a step differ, every member
  has reported each step up to it, and some member is a margin past it, draining the comparator reports a divergence.\<close>

theorem sync_disagreement_reported:
  assumes "ok_order order" "sy_base_ordinal st \<le> ordinal"
    and "a \<in> voters ordinal (reports_at st ordinal) v" "b \<in> voters ordinal (reports_at st ordinal) w" "v \<noteq> w"
    and "sy_members st a = Some ma" "mb_since ma \<le> ordinal"
    and "sy_members st leader = Some ml" "unat ordinal + unat margin \<le> unat (mb_next_expected ml)"
    and "\<And>slot m k. sy_members st slot = Some m \<Longrightarrow> mb_since m \<le> k \<Longrightarrow> sy_base_ordinal st \<le> k \<Longrightarrow> k \<le> ordinal \<Longrightarrow>
      reports_at st k slot \<noteq> None"
  shows "\<exists>d st'. evaluate_ready order margin st = (Some d, st')"
proof (rule disagreement_reported [OF assms(1)])
  have "False" if "comparable ordinal (reports_at st ordinal) \<subseteq> voters ordinal (reports_at st ordinal) u" for u
  proof -
    have "a \<in> voters ordinal (reports_at st ordinal) u" "b \<in> voters ordinal (reports_at st ordinal) u"
      using assms(3,4) that unfolding comparable_def by blast+
    then show False
      using assms(3-5) voters_unique by metis
  qed
  then have "\<not> unanimous ordinal (reports_at st ordinal)"
    unfolding unanimous_def by metis
  then show "disagreement_due margin ordinal st"
    unfolding disagreement_due_def using assms(2,6-9) assms(10) by (intro conjI allI impI) auto
qed

theorem sync_disagreement_reported_witness:
  "\<exists>d st'. evaluate_ready sorted_list_of_set 2 split_state = (Some d, st')"
  by (rule sync_disagreement_reported [OF sorted_order_ok, where ordinal = 0 and a = 1 and b = 2 and
        v = "SyncValue 0 0" and w = "SyncValue 0 1" and leader = 1])
    (auto simp: split_state_def SyncTracker_default_def voters_def reports_at_def good_report_def bad_report_def
      expected_kind_for_ordinal_def split: if_splits)

end
