(* ===== verification/Spec2Isabelle.thy ===== *)
theory Spec2Isabelle
  imports LinkSystem MeshSeen Reorder Commands TurnRing ControlStream MeshControlStream Beacon ClientSend JournalSystem Trackers SlotConditions Delivery LobbyRate SyncTracker
begin

text \<open>
  A verification library for rally-point2, the netcode of ShieldBattery.  Players of a lockstep game send
  their turns to a relay; relays of one session exchange them over a mesh and hand them to the other
  players.  Turns ride unreliable QUIC datagrams that re-carry what is not yet acknowledged; turns too large
  for a datagram, directives and lobby traffic ride reliable control streams; delivered-through cursors ride
  a third stream, the beacon.  The relay that holds authority over a session sizes its latency buffer and
  compares the players' checksums.

  \<^bold>\<open>Conventions.\<close>  Integers of the sources are words of their width; \<open>usize\<close> is \<^typ>\<open>nat\<close>.  A panic is \<open>None\<close>,
  an error the left side of a sum.  A \<open>BTreeMap\<close> is a sorted association list (\<open>OrderedMap\<close>); a \<open>HashMap\<close> is a
  partial map, and where its traversal order could matter the order is an argument.  Instants are numbers.
  The protobuf codec, the QUIC connection and the channels to the game are arguments.  Log output is left out.

  \<^bold>\<open>Transport\<close> (\<open>transport/src\<close>).
  \<^item> \<open>SequenceBuffer\<close>, \<open>ReceivedHistory\<close>: \<open>sequence_buffer.rs\<close> and \<open>ack_manager/history.rs\<close>, as finite maps and
    sets of packet numbers.
  \<^item> \<open>Wire\<close>, \<open>AckManager\<close>: the datagram messages and \<open>ack_manager/\<close>.  \<open>AckWindow\<close> holds the invariant and the
    receive side, \<open>AckSend\<close> the send side, \<open>AckProperties\<close> what callers rely on: the size and the choice of
    redundancy, that the window shrinks only by an ack or a cursor, that the longest-waiting turn is served.
  \<^item> \<open>SeqPrefix\<close>, \<open>Dedup\<close>, \<open>DedupProperties\<close>: \<open>link/dedup.rs\<close>, exactly-once delivery and transactional batches.
  \<^item> \<open>Link\<close>, \<open>LinkSystem\<close>: \<open>link/mod.rs\<close>, and two links over a network that loses, duplicates and reorders
    datagrams: a turn that left the sender's window was delivered.
  \<^item> \<open>Framing\<close>, \<open>Messages\<close>, \<open>ControlStream\<close>, \<open>MeshControlStream\<close>: \<open>control_framing.rs\<close>, \<open>control.rs\<close> and
    \<open>mesh_control_stream.rs\<close> with \<open>proto/src/control_stream\<close>; round trips over a stream cut at any byte.
  \<^item> \<open>Beacon\<close>: \<open>beacon.rs\<close> and its codec; the newest cursor survives.

  \<^bold>\<open>Relay\<close> (\<open>relay/src\<close>).
  \<^item> \<open>Commands\<close>: \<open>validation.rs\<close> with \<open>proto/src/commands.rs\<close>, equal to parsing and filtering.
  \<^item> \<open>MeshSeen\<close>: \<open>mesh/seen.rs\<close>, the gate that forwards each turn once.
  \<^item> \<open>DropOldest\<close>, \<open>TurnRing\<close>: \<open>session/turn_ring\<close>, the replay a returning client gets.
  \<^item> \<open>ProvisionalTurns\<close>, \<open>JournalSystem\<close>: \<open>session/provisional_turns\<close> and its drain as a step relation; nothing
    accepted is lost or reordered, and the byte budget is exact.
  \<^item> \<open>SignalWindows\<close>, \<open>SlotConditions\<close>, \<open>Delivery\<close>: \<open>consensus/law.rs\<close>, \<open>slot.rs\<close> and \<open>delivery.rs\<close>, the signals the
    buffer is sized by: sliding maxima, outage credit, delivery lag.
  \<^item> \<open>SyncTracker\<close>: \<open>consensus/sync/mod.rs\<close> and \<open>tracker.rs\<close>, the desync comparator: whom it may name, that it
    names nobody twice, and that it does not pass over a disagreement.
  \<^item> \<open>LobbyRate\<close>: \<open>rate_limit.rs\<close> against the client's pacer in \<open>client/src/driver/lobby.rs\<close>.

  \<^bold>\<open>Client\<close> (\<open>client/src\<close>).
  \<^item> \<open>Reorder\<close>: \<open>driver/reorder.rs\<close>, in-order release to the game.
  \<^item> \<open>ClientSend\<close>: \<open>leave_announcer.rs\<close>, \<open>driver/retention.rs\<close>, \<open>driver/send.rs\<close>, what a resume re-sends.
  \<^item> \<open>Trackers\<close>: \<open>directive.rs\<close> and \<open>leave/mod.rs\<close>, which directive and which leave is applied when.

  \<^bold>\<open>Interfaces.\<close>  \<open>forward_once\<close> and \<open>lossless_once\<close> (\<open>SeqPrefix\<close>) are interpreted on the dedup and, the first of them, on the
  forward gate; \<open>drop_oldest\<close> (\<open>DropOldest\<close>) on the turn ring and the retention ring; \<open>framed_stream\<close>
  (\<open>Framing\<close>) on the length-prefixed frames and the beacon frames.

  \<^bold>\<open>Bounds.\<close>  No definition uses fuel: every loop is structural or has a termination proof, the draining loop of
  the comparator for every margin and every traversal order.  Assumptions on sizes appear as hypotheses.

  \<^bold>\<open>Not modelled.\<close>  The decision-maker that joins the consensus parts (departures, leaves, connection generations,
  session clock, phase control), the ordering of checksum metadata in \<open>sync/turns.rs\<close>, whose ordinals the
  comparator is given, the state-hash comparator, drop holds, presence and the side channels are state logic
  that this library does not cover; so are the client's connectivity fence and phase slew.  The two loss rates
  of a slot, and the buffer law that reads them, are floating-point.  The tasks that drive sockets and
  streams, the coordinator, token and handshake checks, observability and the tools are I/O or rest on
  third-party code.
\<close>

end
